(* ===== verification/Prelude.thy ===== *)
theory Prelude
  imports Main "HOL-Library.Word" "HOL-Library.Multiset"
begin

text \<open>
  Shared vocabulary of the development: machine integers of the C sources read as natural
  numbers with the wrap-around written out, the named collections the component theories fill,
  and the generic facts about lists, sums and counting that several components need.
\<close>

section \<open>Machine integers as naturals\<close>

text \<open>
  A C value of type \<^verbatim>\<open>uint16\<close>, \<^verbatim>\<open>uint32\<close> or \<^verbatim>\<open>uint64\<close> is a natural number below the
  corresponding power of two; storing a wider result truncates it with one of these functions.
\<close>

named_theorems machine_simps \<open>truncations that are the identity within bounds\<close>

definition u16 :: "nat \<Rightarrow> nat" where
  "u16 n = n mod 2 ^ 16"

definition u32 :: "nat \<Rightarrow> nat" where
  "u32 n = n mod 2 ^ 32"

definition u64 :: "nat \<Rightarrow> nat" where
  "u64 n = n mod 2 ^ 64"

text \<open>Unsigned 64-bit subtraction, which wraps below zero.\<close>

definition sub64 :: "nat \<Rightarrow> nat \<Rightarrow> nat" where
  "sub64 a b = (a + (2 ^ 64 - b mod 2 ^ 64)) mod 2 ^ 64"

text \<open>Code equations that evaluate on binary integers.\<close>

lemma nat_div_code [code]: "(m::nat) div n = nat (int m div int n)"
  by (simp add: nat_div_distrib)

lemma nat_mod_code [code]: "(m::nat) mod n = nat (int m mod int n)"
  by (simp add: nat_mod_distrib)

lemma u16_code [code]: "u16 n = nat (int n mod 65536)"
  by (simp add: u16_def nat_mod_distrib)

lemma u32_code [code]: "u32 n = nat (int n mod 4294967296)"
  by (simp add: u32_def nat_mod_distrib)

lemma u64_code [code]: "u64 n = nat (int n mod 18446744073709551616)"
  by (simp add: u64_def nat_mod_distrib)

lemma sub64_code [code]: "sub64 a b = nat ((int a - int b) mod 18446744073709551616)"
proof -
  let ?M = "18446744073709551616 :: int"
  have "int (sub64 a b) = ((int a - int b mod ?M) + ?M) mod ?M"
    by (simp add: sub64_def of_nat_mod of_nat_diff algebra_simps)
  also have "\<dots> = (int a - int b) mod ?M"
    unfolding mod_add_self2 mod_diff_right_eq ..
  finally show ?thesis by linarith
qed

lemma u16_id [machine_simps]: "n < 2 ^ 16 \<Longrightarrow> u16 n = n"
  by (simp add: u16_def)

lemma u32_id [machine_simps]: "n < 2 ^ 32 \<Longrightarrow> u32 n = n"
  by (simp add: u32_def)

lemma u64_id [machine_simps]: "n < 2 ^ 64 \<Longrightarrow> u64 n = n"
  by (simp add: u64_def)

lemma u16_bound [simp]: "u16 n < 2 ^ 16"
  by (simp add: u16_def)

lemma u32_bound [simp]: "u32 n < 2 ^ 32"
  by (simp add: u32_def)

lemma u64_bound [simp]: "u64 n < 2 ^ 64"
  by (simp add: u64_def)

lemma sub64_id [machine_simps]: "b \<le> a \<Longrightarrow> a < 2 ^ 64 \<Longrightarrow> sub64 a b = a - b"
proof -
  assume ba: "b \<le> a" and a: "a < 2 ^ 64"
  then have "b mod 2 ^ 64 = b" by simp
  then have "a + (2 ^ 64 - b mod 2 ^ 64) = 2 ^ 64 + (a - b)"
    using ba a by simp
  then show ?thesis
    using a ba unfolding sub64_def
    by (metis less_imp_diff_less mod_add_self1 mod_less)
qed

section \<open>Words\<close>

lemma word_eq_bits: "(a :: 'a::len word) = b \<longleftrightarrow> (\<forall>n<LENGTH('a). bit a n = bit b n)"
  by (auto intro: bit_word_eqI)

lemma unat_of_nat_small: "n < 2 ^ LENGTH('a) \<Longrightarrow> unat (of_nat n :: 'a::len word) = n"
  by (simp add: unat_of_nat)

lemma unat_take_bit_bound: "unat (take_bit n (w :: 'a::len word)) < 2 ^ n"
proof -
  have "unat (take_bit n w) = take_bit n (unat w)" by (simp add: unsigned_take_bit_eq)
  also have "\<dots> < 2 ^ n" by (rule take_bit_nat_less_exp)
  finally show ?thesis .
qed

lemma sint_of_nat16: "n < 2 ^ 15 \<Longrightarrow> sint (of_nat n :: 16 word) = int n"
  by transfer (simp add: signed_take_bit_int_eq_self)

lemma scast_of_nat_small: "n < 2 ^ 12 \<Longrightarrow> scast (of_nat n :: 16 word) = (of_nat n :: 64 word)"
proof -
  assume "n < 2 ^ 12"
  then have "sint (of_nat n :: 16 word) = int n" by (intro sint_of_nat16) simp
  then show ?thesis by (metis of_int_of_nat_eq of_int_sint)
qed

lemma sint_ucast32: "sint (ucast (word_of_int r :: 64 word) :: 32 word) = signed_take_bit 31 r"
  by transfer (simp add: signed_take_bit_take_bit take_bit_take_bit)

lemma sint_ucast16: "sint (ucast (word_of_int r :: 64 word) :: 16 word) = signed_take_bit 15 r"
  by transfer (simp add: signed_take_bit_take_bit take_bit_take_bit)

lemma not_bit_of_nat: "n < 2 ^ k \<Longrightarrow> k \<le> m \<Longrightarrow> \<not> bit (of_nat n :: 'a::len word) m"
proof -
  assume n: "n < 2 ^ k" and k: "k \<le> m"
  have "n < 2 ^ m" using n k by (meson less_le_trans one_le_numeral power_increasing)
  then have "\<not> bit n m" by (simp add: bit_iff_odd)
  then show ?thesis by (simp add: bit_of_nat_iff)
qed

section \<open>Lists, sums and counting\<close>

lemma sum_list_conv_sum_nth: "sum_list xs = (\<Sum>i<length xs. xs ! i)"
  by (simp add: sum_list_sum_nth atLeast0LessThan)

lemma sum_indicator_card:
  assumes "finite A"
  shows "(\<Sum>i\<in>A. if P i then (1::nat) else 0) = card {i \<in> A. P i}"
proof -
  have "card {i \<in> A. P i} = (\<Sum>i\<in>{i \<in> A. P i}. 1)"
    by simp
  also have "\<dots> = (\<Sum>i\<in>A. if P i then 1 else 0)"
    using assms by (rule sum.inter_filter)
  finally show ?thesis by (rule sym)
qed

lemma sum_change_one:
  fixes f g :: "nat \<Rightarrow> nat"
  assumes "k < n" and "\<And>i. i < n \<Longrightarrow> i \<noteq> k \<Longrightarrow> g i = f i"
  shows "(\<Sum>i<n. g i) + f k = (\<Sum>i<n. f i) + g k"
proof -
  have "(\<Sum>i\<in>{..<n} - {k}. g i) = (\<Sum>i\<in>{..<n} - {k}. f i)"
    using assms(2) by (intro sum.cong) auto
  then show ?thesis
    using sum.remove [of "{..<n}" k g] sum.remove [of "{..<n}" k f] assms(1) by simp
qed

lemma card_conv_sum_of_bool: "card {x. x < n \<and> P x} = (\<Sum>x<n. of_bool (P x))" for n :: nat
  using sum_indicator_card [of "{..<n}" P] by (simp add: of_bool_def)

lemma sum_lessThan_add: "(\<Sum>x<m + k. f x) = (\<Sum>x<m. f x) + (\<Sum>y<k. f (m + y))"
  for f :: "nat \<Rightarrow> 'a::comm_monoid_add"
  by (induction k) (simp_all add: add.assoc)

lemma sum_lessThan_mult: "(\<Sum>x<q * n. f x) = (\<Sum>i<n. \<Sum>r<q. f (i * q + r))"
  for f :: "nat \<Rightarrow> 'a::comm_monoid_add"
proof (induction n)
  case (Suc n)
  have "(\<Sum>x<q * Suc n. f x) = (\<Sum>x<q * n + q. f x)" by (simp add: add.commute)
  with Suc show ?case by (simp add: sum_lessThan_add mult.commute)
qed simp

lemma sum_lessThan_extend:
  "m \<le> n \<Longrightarrow> (\<Sum>x<m. f x) = (\<Sum>x<n. if x < m then f x else 0)"
  for f :: "nat \<Rightarrow> 'a::comm_monoid_add"
  by (rule sum.mono_neutral_cong_left) auto

lemma sum_of_bool_threshold:
  "(\<Sum>r<q. of_bool (if c < r then A else B) :: nat)
     = (if A then q - min q (Suc c) else 0) + (if B then min q (Suc c) else 0)"
  by (induction q) (auto simp: min_def)

end
