(* ===== verification/Walker.thy ===== *)
theory Walker
  imports Prelude
begin

text \<open>
  Walker's alias structure over \<^verbatim>\<open>uint64\<close> weights (\<^verbatim>\<open>src/backend/utils/walker.c\<close> and
  \<^verbatim>\<open>src/include/utils/walker.h\<close>). The sampler of the AB-tree draws a sub-tree with it.
  Arrays are lists, an array update is a list update, and reading outside an array or dividing
  by zero, which is undefined in C, is the value \<open>None\<close>.
\<close>

section \<open>The structure and its operations\<close>

record aqp_alias_u64 =
  cutoffs :: "nat list"
  aliases :: "nat list"
  alias_Q :: nat
  alias_R :: nat
  alias_N :: nat

definition aqp_get_bucket_weight :: "nat \<Rightarrow> nat \<Rightarrow> nat \<Rightarrow> nat" where
  "aqp_get_bucket_weight Q R i = (if i < R then u64 (Q + 1) else Q)"

text \<open>The entry \<^verbatim>\<open>0xffffffff\<close> that \<^verbatim>\<open>memset\<close> leaves in a bucket with no alias.\<close>

definition no_alias :: nat where
  "no_alias = 2 ^ 32 - 1"

text \<open>The three loops of \<^verbatim>\<open>aqp_alias_u64_create\<close>: the sum of the weights, the split of the
  items into under-full ones (from the front of \<^verbatim>\<open>remitems\<close>) and over-full ones (from its back),
  and the loop that gives every under-full bucket an alias.\<close>

fun alias_sum :: "nat list \<Rightarrow> nat \<Rightarrow> nat" where
  "alias_sum [] S = S"
| "alias_sum (w # ws) S = alias_sum ws (u64 (S + w))"

record alias_build =
  b_weights :: "nat list"
  b_aliases :: "nat list"
  b_remitems :: "nat list"
  b_pi :: nat
  b_ni :: nat

fun alias_classify :: "nat \<Rightarrow> nat \<Rightarrow> nat list \<Rightarrow> alias_build \<Rightarrow> alias_build" where
  "alias_classify Q R [] st = st"
| "alias_classify Q R (i # items) st =
     (let w = u32 (aqp_get_bucket_weight Q R i);
          st' = (if b_weights st ! i < w then
                   st\<lparr>b_remitems := (b_remitems st)[b_pi st := i], b_pi := b_pi st + 1\<rparr>
                 else if b_weights st ! i > w then
                   st\<lparr>b_remitems := (b_remitems st)[b_ni st - 1 := i], b_ni := b_ni st - 1\<rparr>
                 else st)
      in alias_classify Q R items st')"

definition alias_fill_step :: "nat \<Rightarrow> nat \<Rightarrow> alias_build \<Rightarrow> alias_build" where
  "alias_fill_step Q R st =
     (let i = b_remitems st ! (b_pi st - 1);
          j = b_remitems st ! b_ni st;
          w = u32 (aqp_get_bucket_weight Q R i);
          w2 = u32 (aqp_get_bucket_weight Q R j);
          w = u32 (sub64 w (b_weights st ! i));
          wj = sub64 (b_weights st ! j) w;
          st' = st\<lparr>b_aliases := (b_aliases st)[i := j], b_weights := (b_weights st)[j := wj]\<rparr>
      in if wj < w2 then
           st'\<lparr>b_ni := b_ni st + 1, b_remitems := (b_remitems st)[b_pi st - 1 := j]\<rparr>
         else if wj = w2 then st'\<lparr>b_ni := b_ni st + 1, b_pi := b_pi st - 1\<rparr>
         else st'\<lparr>b_pi := b_pi st - 1\<rparr>)"

lemma alias_fill_step_measure:
  "b_pi st \<noteq> 0 \<Longrightarrow> b_ni st < N \<Longrightarrow>
     b_pi (alias_fill_step Q R st) + (N - b_ni (alias_fill_step Q R st)) < b_pi st + (N - b_ni st)"
  by (auto simp: alias_fill_step_def Let_def)

function alias_fill :: "nat \<Rightarrow> nat \<Rightarrow> nat \<Rightarrow> alias_build \<Rightarrow> alias_build option" where
  "alias_fill Q R N st =
     (if b_pi st = 0 then Some st
      else if N \<le> b_ni st then None
      else alias_fill Q R N (alias_fill_step Q R st))"
  by pat_completeness auto
termination
proof (relation "measure (\<lambda>(Q, R, N, st). b_pi st + (N - b_ni st))")
  fix Q R N st
  assume "b_pi (st :: alias_build) \<noteq> 0" and "\<not> N \<le> b_ni st"
  then show "((Q, R, N, alias_fill_step Q R st), Q, R, N, st)
      \<in> measure (\<lambda>(Q, R, N, st). b_pi st + (N - b_ni st))"
    using alias_fill_step_measure [of st N Q R] by (simp only: in_measure prod.case) simp
qed simp

declare alias_fill.simps [simp del]

definition aqp_alias_u64_create :: "nat list \<Rightarrow> aqp_alias_u64 option" where
  "aqp_alias_u64_create weights =
     (let N = length weights;
          S = alias_sum weights 0
      in if N = 0 then None
         else
           let Q = S div N;
               R = u32 (S mod N);
               st = \<lparr>b_weights = weights, b_aliases = replicate N no_alias,
                     b_remitems = replicate N 0, b_pi = 0, b_ni = N\<rparr>
           in case alias_fill Q R N (alias_classify Q R [0..<N] st) of
                None \<Rightarrow> None
              | Some st' \<Rightarrow>
                  Some \<lparr>cutoffs = b_weights st', aliases = b_aliases st',
                        alias_Q = Q, alias_R = R, alias_N = N\<rparr>)"

definition aqp_alias_u64_get_sum_weights :: "aqp_alias_u64 \<Rightarrow> nat" where
  "aqp_alias_u64_get_sum_weights al = u64 (alias_R al + alias_Q al * alias_N al)"

definition aqp_alias_u64_sample_unif_u64 :: "aqp_alias_u64 \<Rightarrow> nat \<Rightarrow> nat option" where
  "aqp_alias_u64_sample_unif_u64 al x =
     (if alias_R al \<le> x \<and> alias_Q al = 0 then None
      else
        let (i, r) =
              (if x < alias_R al then (x, u64 (alias_Q al + 1))
               else ((x - alias_R al) div alias_Q al, (x - alias_R al) mod alias_Q al))
        in if length (cutoffs al) \<le> i then None
           else if cutoffs al ! i < r then Some (aliases al ! i)
           else Some (u32 i))"


section \<open>Correctness of the construction\<close>

lemma alias_sum_exact: "S + sum_list ws < 2 ^ 64 \<Longrightarrow> alias_sum ws S = S + sum_list ws"
proof (induction ws arbitrary: S)
  case (Cons w ws)
  then have "u64 (S + w) = S + w" by (intro u64_id) simp
  with Cons show ?case by (simp add: add.assoc)
qed simp

lemma alias_classify_frame [simp]:
  "b_weights (alias_classify Q R items st) = b_weights st"
  "b_aliases (alias_classify Q R items st) = b_aliases st"
  "length (b_remitems (alias_classify Q R items st)) = length (b_remitems st)"
  by (induction items arbitrary: st) (simp_all add: Let_def)

text \<open>Under-full items are collected at the front in index order, over-full ones at the back in
  reverse order.\<close>

lemma alias_classify_split:
  fixes Q R st
  defines "bw \<equiv> \<lambda>i. u32 (aqp_get_bucket_weight Q R i)"
  assumes "b_pi st + length items \<le> b_ni st" and "b_ni st \<le> length (b_remitems st)"
  shows "take (b_pi (alias_classify Q R items st)) (b_remitems (alias_classify Q R items st))
           = take (b_pi st) (b_remitems st) @ filter (\<lambda>i. b_weights st ! i < bw i) items
       \<and> drop (b_ni (alias_classify Q R items st)) (b_remitems (alias_classify Q R items st))
           = rev (filter (\<lambda>i. bw i < b_weights st ! i) items) @ drop (b_ni st) (b_remitems st)
       \<and> b_pi (alias_classify Q R items st) \<le> b_ni (alias_classify Q R items st)
       \<and> b_ni (alias_classify Q R items st) \<le> b_ni st"
  using assms(2,3)
proof (induction items arbitrary: st)
  case Nil
  then show ?case by simp
next
  case (Cons i items)
  let ?p = "b_pi st" and ?n = "b_ni st" and ?r = "b_remitems st"
  consider (under) "b_weights st ! i < bw i" | (over) "bw i < b_weights st ! i"
    | (full) "b_weights st ! i = bw i" by linarith
  then show ?case
  proof cases
    case under
    have "take (Suc ?p) (?r[?p := i]) = take ?p ?r @ [i]"
      using Cons.prems by (simp add: take_Suc_conv_app_nth)
    with under Cons.prems Cons.IH [of "st\<lparr>b_remitems := ?r[?p := i], b_pi := ?p + 1\<rparr>"]
    show ?thesis by (simp add: bw_def)
  next
    case over
    have "drop (?n - 1) (?r[?n - 1 := i]) = i # drop ?n ?r"
      using Cons.prems by (simp add: Cons_nth_drop_Suc [symmetric])
    moreover have "?p + length items \<le> ?n - 1" and "?n - 1 \<le> length ?r"
      using Cons.prems by auto
    ultimately show ?thesis
      using over Cons.IH [of "st\<lparr>b_remitems := ?r[?n - 1 := i], b_ni := ?n - 1\<rparr>"]
      by (auto simp: bw_def intro: order_trans [OF _ diff_le_self])
  next
    case full
    with Cons.prems Cons.IH [of st] show ?thesis by (simp add: bw_def)
  qed
qed

text \<open>
  The loop invariant, over the current weights \<open>W\<close>, the aliases \<open>al\<close>, the under-full items \<open>U\<close>
  and the over-full items \<open>V\<close>: an item in neither list is either exactly full or finished with a
  valid alias, and the original weight of every item is what its own bucket still holds plus what
  the buckets aliased to it have taken over.
\<close>

definition alias_parts ::
    "nat \<Rightarrow> nat \<Rightarrow> nat list \<Rightarrow> nat list \<Rightarrow> nat list \<Rightarrow> nat list \<Rightarrow> nat list \<Rightarrow> bool" where
  "alias_parts Q R w0 W al U V \<longleftrightarrow>
     (let N = length w0; bw = aqp_get_bucket_weight Q R
      in length W = N \<and> length al = N \<and> distinct (U @ V) \<and> set (U @ V) \<subseteq> {..<N}
         \<and> (\<forall>i\<in>set U. W ! i < bw i \<and> al ! i = no_alias)
         \<and> (\<forall>i\<in>set V. bw i < W ! i \<and> al ! i = no_alias)
         \<and> (\<forall>i<N. i \<notin> set (U @ V) \<longrightarrow>
               (al ! i = no_alias \<and> W ! i = bw i) \<or> (al ! i < N \<and> W ! i < bw i))
         \<and> (\<forall>j<N. w0 ! j = W ! j + (\<Sum>i<N. if al ! i = j then bw i - W ! i else 0)))"

definition alias_inv :: "nat \<Rightarrow> nat \<Rightarrow> nat list \<Rightarrow> alias_build \<Rightarrow> bool" where
  "alias_inv Q R w0 st \<longleftrightarrow>
     length (b_remitems st) = length w0 \<and> b_pi st \<le> b_ni st \<and> b_ni st \<le> length w0
     \<and> alias_parts Q R w0 (b_weights st) (b_aliases st)
         (take (b_pi st) (b_remitems st)) (drop (b_ni st) (b_remitems st))"

lemma bucket_weight_exact:
  "Q + 1 < 2 ^ 32 \<Longrightarrow> aqp_get_bucket_weight Q R i = (if i < R then Q + 1 else Q)"
  by (simp add: aqp_get_bucket_weight_def u64_id)

lemma bucket_weight_u32:
  "Q + 1 < 2 ^ 32 \<Longrightarrow> u32 (aqp_get_bucket_weight Q R i) = aqp_get_bucket_weight Q R i"
  by (simp add: bucket_weight_exact u32_id)

lemma sum_bucket_weights:
  assumes "Q + 1 < 2 ^ 32" and "R \<le> N"
  shows "(\<Sum>i<N. aqp_get_bucket_weight Q R i) = Q * N + R"
proof -
  have "(\<Sum>i<N. aqp_get_bucket_weight Q R i) = (\<Sum>i<N. Q + (if i < R then 1 else 0))"
    using assms(1) by (intro sum.cong) (auto simp: bucket_weight_exact)
  also have "\<dots> = Q * N + card {i \<in> {..<N}. i < R}"
    by (simp add: sum.distrib sum_indicator_card)
  also have "{i \<in> {..<N}. i < R} = {..<R}" using assms(2) by auto
  finally show ?thesis by simp
qed

lemma alias_inv_init:
  assumes "Q + 1 < 2 ^ 32" and "length w0 = N" and "N < 2 ^ 32"
    and st: "st = \<lparr>b_weights = w0, b_aliases = replicate N no_alias,
                   b_remitems = replicate N 0, b_pi = 0, b_ni = N\<rparr>"
  shows "alias_inv Q R w0 (alias_classify Q R [0..<N] st)"
proof -
  let ?c = "alias_classify Q R [0..<N] st" and ?bw = "aqp_get_bucket_weight Q R"
  have "take (b_pi ?c) (b_remitems ?c) = filter (\<lambda>i. w0 ! i < ?bw i) [0..<N]
     \<and> drop (b_ni ?c) (b_remitems ?c) = rev (filter (\<lambda>i. ?bw i < w0 ! i) [0..<N])
     \<and> b_pi ?c \<le> b_ni ?c \<and> b_ni ?c \<le> N"
    using alias_classify_split [of st "[0..<N]" Q R] assms(1)
    by (simp add: st bucket_weight_u32)
  moreover have "(\<Sum>i<N. if replicate N no_alias ! i = j then ?bw i - w0 ! i else 0) = 0"
    if "j < N" for j
    using that assms(3) by (intro sum.neutral) (auto simp: no_alias_def)
  moreover have "\<not> no_alias < N" using assms(3) by (simp add: no_alias_def)
  ultimately show ?thesis
    unfolding alias_inv_def alias_parts_def Let_def using assms(2) by (auto simp: st)
qed

text \<open>The total weight is the total capacity, so under-full and over-full buckets run out
  together.\<close>

lemma alias_parts_balance:
  assumes inv: "alias_parts Q R w0 W al U V"
    and cap: "sum_list w0 = (\<Sum>i<length w0. aqp_get_bucket_weight Q R i)"
    and N: "length w0 < 2 ^ 32"
  shows "U = [] \<longleftrightarrow> V = []"
proof -
  let ?N = "length w0" and ?bw = "aqp_get_bucket_weight Q R"
  let ?d = "\<lambda>i. if al ! i < ?N then ?bw i - W ! i else 0"
  note inv' = inv [unfolded alias_parts_def Let_def]
  have NA: "\<not> no_alias < ?N" using N by (simp add: no_alias_def)
  have "sum_list w0 = (\<Sum>j<?N. w0 ! j)" by (rule sum_list_conv_sum_nth)
  also have "\<dots> = (\<Sum>j<?N. W ! j + (\<Sum>i<?N. if al ! i = j then ?bw i - W ! i else 0))"
    using inv' by (intro sum.cong) auto
  also have "\<dots> = (\<Sum>j<?N. W ! j) + (\<Sum>i<?N. \<Sum>j<?N. if al ! i = j then ?bw i - W ! i else 0)"
    by (simp add: sum.distrib sum.swap)
  also have "(\<Sum>i<?N. \<Sum>j<?N. if al ! i = j then ?bw i - W ! i else 0) = (\<Sum>i<?N. ?d i)"
    by simp
  also have "(\<Sum>j<?N. W ! j) + (\<Sum>i<?N. ?d i) = (\<Sum>i<?N. W ! i + ?d i)"
    by (rule sum.distrib [symmetric])
  finally have eq: "(\<Sum>i<?N. W ! i + ?d i) = (\<Sum>i<?N. ?bw i)" using cap by simp
  have under: "i < ?N \<and> W ! i + ?d i < ?bw i" if "i \<in> set U" for i
    using inv' that NA by auto
  have over: "i < ?N \<and> ?bw i < W ! i + ?d i" if "i \<in> set V" for i
    using inv' that NA by auto
  have full: "W ! i + ?d i = ?bw i" if "i < ?N" "i \<notin> set U" "i \<notin> set V" for i
    using inv' that NA by auto
  show ?thesis
  proof (rule ccontr)
    assume "\<not> ?thesis"
    then consider u where "V = []" "u \<in> set U" | v where "U = []" "v \<in> set V"
      by (metis hd_in_set)
    then show False
    proof cases
      case 1
      have "(\<Sum>i<?N. W ! i + ?d i) < (\<Sum>i<?N. ?bw i)"
      proof (rule sum_strict_mono_ex1)
        show "\<exists>i\<in>{..<?N}. W ! i + ?d i < ?bw i" using under 1 by blast
        show "\<forall>i\<in>{..<?N}. W ! i + ?d i \<le> ?bw i"
          using under full 1 by (metis lessThan_iff less_imp_le order_refl empty_iff empty_set)
      qed simp
      with eq show False by simp
    next
      case 2
      have "(\<Sum>i<?N. ?bw i) < (\<Sum>i<?N. W ! i + ?d i)"
      proof (rule sum_strict_mono_ex1)
        show "\<exists>i\<in>{..<?N}. ?bw i < W ! i + ?d i" using over 2 by blast
        show "\<forall>i\<in>{..<?N}. ?bw i \<le> W ! i + ?d i"
          using over full 2 by (metis lessThan_iff less_imp_le order_refl empty_iff empty_set)
      qed simp
      with eq show False by simp
    qed
  qed
qed

lemma alias_parts_step:
  fixes Q R w0 W al U i j V
  defines "bw \<equiv> aqp_get_bucket_weight Q R"
  defines "wj \<equiv> W ! j - (bw i - W ! i)"
  assumes inv: "alias_parts Q R w0 W al (U @ [i]) (j # V)"
    and Q: "Q + 1 < 2 ^ 32" and N: "length w0 < 2 ^ 32"
  shows "alias_parts Q R w0 (W[j := wj]) (al[i := j])
           (if wj < bw j then U @ [j] else U) (if bw j < wj then j # V else V)"
    and "bw i - W ! i \<le> W ! j" and "i < length w0" and "j < length w0" and "i \<noteq> j"
    and "W ! i < bw i"
proof -
  let ?N = "length w0" and ?W = "W[j := wj]" and ?al = "al[i := j]"
  note inv' = inv [unfolded alias_parts_def Let_def, folded bw_def]
  show ij: "i < ?N" "j < ?N" "i \<noteq> j" and Wi: "W ! i < bw i" using inv' by auto
  have ij': "bw j < W ! j" "al ! i = no_alias" "al ! j = no_alias"
    and len: "length W = ?N" "length al = ?N" using inv' by auto
  have NA: "\<not> no_alias < ?N" using N by (simp add: no_alias_def)
  show le: "bw i - W ! i \<le> W ! j"
    using ij' Q by (auto simp: bw_def bucket_weight_exact split: if_splits)
  have other: "?W ! k = W ! k" if "k \<noteq> j" for k using that by simp
  have W'i: "?W ! i = W ! i" and W'j: "?W ! j = wj" using ij len by auto
  have cons: "w0 ! t = ?W ! t + (\<Sum>k<?N. if ?al ! k = t then bw k - ?W ! k else 0)"
    if t: "t < ?N" for t
  proof -
    let ?f = "\<lambda>k. if al ! k = t then bw k - W ! k else 0"
    let ?g = "\<lambda>k. if ?al ! k = t then bw k - ?W ! k else 0"
    have "?g k = ?f k" if "k < ?N" "k \<noteq> i" for k
      using that t ij ij' NA len by (cases "k = j") auto
    then have "(\<Sum>k<?N. ?g k) + ?f i = (\<Sum>k<?N. ?f k) + ?g i"
      by (rule sum_change_one [OF ij(1)])
    moreover have "?f i = 0" and "?g i = (if t = j then bw i - W ! i else 0)"
      using t ij ij' NA len by auto
    ultimately have "(\<Sum>k<?N. ?g k) = (\<Sum>k<?N. ?f k) + (if t = j then bw i - W ! i else 0)"
      by simp
    moreover have "w0 ! t = W ! t + (\<Sum>k<?N. ?f k)" using inv' t by simp
    ultimately show ?thesis using le W'j other by (cases "t = j") (auto simp: wj_def)
  qed
  have rest: "k = j \<or> k \<in> set U \<or> k \<in> set V \<or> (?al ! k < ?N \<and> ?W ! k < bw k)
      \<or> (?al ! k = no_alias \<and> ?W ! k = bw k)" if "k < ?N" for k
    using inv' that ij W'i len by (cases "k = i") auto
  have UV: "\<forall>k\<in>set U. ?W ! k < bw k \<and> ?al ! k = no_alias"
    "\<forall>k\<in>set V. bw k < ?W ! k \<and> ?al ! k = no_alias"
    using inv' by (auto simp: nth_list_update)
  show "alias_parts Q R w0 ?W ?al (if wj < bw j then U @ [j] else U) (if bw j < wj then j # V else V)"
    unfolding alias_parts_def Let_def bw_def [symmetric]
  proof (intro conjI allI impI cons)
    show "distinct ((if wj < bw j then U @ [j] else U) @ (if bw j < wj then j # V else V))"
      using inv' by auto
    show "set ((if wj < bw j then U @ [j] else U) @ (if bw j < wj then j # V else V)) \<subseteq> {..<?N}"
      using inv' ij by auto
    show "\<forall>k\<in>set (if wj < bw j then U @ [j] else U). ?W ! k < bw k \<and> ?al ! k = no_alias"
      and "\<forall>k\<in>set (if bw j < wj then j # V else V). bw k < ?W ! k \<and> ?al ! k = no_alias"
      using UV W'j ij ij' by auto
    show "?al ! k = no_alias \<and> ?W ! k = bw k \<or> ?al ! k < ?N \<and> ?W ! k < bw k"
      if "k < ?N" "k \<notin> set ((if wj < bw j then U @ [j] else U) @ (if bw j < wj then j # V else V))"
      for k
      using rest [OF that(1)] that(2) W'j ij ij' by (auto split: if_splits)
  qed (use len in auto)
qed


lemma alias_parts_weight_le: "alias_parts Q R w0 W al U V \<Longrightarrow> j < length w0 \<Longrightarrow> W ! j \<le> w0 ! j"
  by (simp add: alias_parts_def Let_def)

lemma alias_inv_step:
  assumes inv: "alias_inv Q R w0 st" and pi: "b_pi st \<noteq> 0" and ni: "b_ni st < length w0"
    and Q: "Q + 1 < 2 ^ 32" and N: "length w0 < 2 ^ 32" and W64: "\<forall>w\<in>set w0. w < 2 ^ 64"
  shows "alias_inv Q R w0 (alias_fill_step Q R st)"
proof -
  let ?bw = "aqp_get_bucket_weight Q R" and ?W = "b_weights st" and ?r = "b_remitems st"
  let ?p = "b_pi st" and ?n = "b_ni st"
  let ?i = "?r ! (?p - 1)" and ?j = "?r ! ?n"
  let ?U = "take (?p - 1) ?r" and ?V = "drop (Suc ?n) ?r"
  have len: "length ?r = length w0" and le: "?p \<le> ?n" using inv by (auto simp: alias_inv_def)
  have U: "take ?p ?r = ?U @ [?i]"
    using pi ni le len take_Suc_conv_app_nth [of "?p - 1" ?r] by simp
  have V: "drop ?n ?r = ?j # ?V"
    using ni len by (simp add: Cons_nth_drop_Suc)
  have parts: "alias_parts Q R w0 ?W (b_aliases st) (?U @ [?i]) (?j # ?V)"
    using inv unfolding alias_inv_def U V by simp
  note step = alias_parts_step [OF parts Q N]
  have "?W ! ?j < 2 ^ 64"
    using alias_parts_weight_le [OF parts step(4)] W64 step(4)
    by (meson le_less_trans nth_mem)
  moreover have "?bw ?i < 2 ^ 32" using Q by (simp add: bucket_weight_exact)
  ultimately have w: "u32 (sub64 (?bw ?i) (?W ! ?i)) = ?bw ?i - ?W ! ?i"
    and wj: "sub64 (?W ! ?j) (?bw ?i - ?W ! ?i) = ?W ! ?j - (?bw ?i - ?W ! ?i)"
    using step(2,6) Q by (auto simp: bucket_weight_u32 u32_id sub64_id)
  let ?wj = "?W ! ?j - (?bw ?i - ?W ! ?i)"
  have r': "drop (Suc ?n) (?r[?p - 1 := ?j]) = ?V" "take ?p (?r[?p - 1 := ?j]) = ?U @ [?j]"
    using pi ni le len take_Suc_conv_app_nth [of "?p - 1" "?r[?p - 1 := ?j]"] by auto
  note fs = alias_fill_step_def [of Q R st, unfolded Let_def bucket_weight_u32 [OF Q] w wj]
  consider "?wj < ?bw ?j" | "?wj = ?bw ?j" | "?bw ?j < ?wj" by linarith
  then show ?thesis
  proof cases
    case 1
    then have "alias_parts Q R w0 (?W[?j := ?wj]) ((b_aliases st)[?i := ?j]) (?U @ [?j]) ?V"
      using step(1) by simp
    with 1 r' pi ni le len show ?thesis unfolding fs alias_inv_def by simp
  next
    case 2
    then have "alias_parts Q R w0 (?W[?j := ?wj]) ((b_aliases st)[?i := ?j]) ?U ?V"
      using step(1) by simp
    with 2 pi ni le len show ?thesis unfolding fs alias_inv_def by simp
  next
    case 3
    then have "alias_parts Q R w0 (?W[?j := ?wj]) ((b_aliases st)[?i := ?j]) ?U (drop ?n ?r)"
      using step(1) V by simp
    with 3 pi ni le len show ?thesis unfolding fs alias_inv_def by simp
  qed
qed

lemma alias_fill_correct:
  fixes w0 Q R
  defines "N \<equiv> length w0"
  assumes "alias_inv Q R w0 st"
    and cap: "sum_list w0 = (\<Sum>i<N. aqp_get_bucket_weight Q R i)"
    and Q: "Q + 1 < 2 ^ 32" and N: "N < 2 ^ 32" and W64: "\<forall>w\<in>set w0. w < 2 ^ 64"
  shows "\<exists>st'. alias_fill Q R N st = Some st' \<and> b_pi st' = 0 \<and> alias_inv Q R w0 st'"
  using assms(2)
proof (induction "b_pi st + (N - b_ni st)" arbitrary: st rule: less_induct)
  case less
  show ?case
  proof (cases "b_pi st = 0")
    case True
    with less.prems show ?thesis by (simp add: alias_fill.simps [of Q R N st])
  next
    case False
    with less.prems have ni: "b_ni st < N"
      using alias_parts_balance [OF _ cap [unfolded N_def] N [unfolded N_def]]
      by (force simp: alias_inv_def N_def)
    have "alias_inv Q R w0 (alias_fill_step Q R st)"
      using less.prems False ni Q N W64 unfolding N_def by (rule alias_inv_step)
    with less.hyps [OF alias_fill_step_measure [OF False ni]] False ni show ?thesis
      by (simp add: alias_fill.simps [of Q R N st])
  qed
qed

text \<open>What a finished alias structure promises about the weights it was built from.\<close>

definition alias_exact :: "nat list \<Rightarrow> aqp_alias_u64 \<Rightarrow> bool" where
  "alias_exact w0 al \<longleftrightarrow>
     (let N = length w0; bw = aqp_get_bucket_weight (alias_Q al) (alias_R al)
      in alias_N al = N \<and> length (cutoffs al) = N \<and> length (aliases al) = N
         \<and> alias_Q al = sum_list w0 div N \<and> alias_R al = sum_list w0 mod N
         \<and> (\<forall>i<N. (aliases al ! i = no_alias \<and> cutoffs al ! i = bw i)
                 \<or> (aliases al ! i < N \<and> cutoffs al ! i < bw i))
         \<and> (\<forall>j<N. w0 ! j = cutoffs al ! j
                 + (\<Sum>i<N. if aliases al ! i = j then bw i - cutoffs al ! i else 0)))"

lemma alias_create_exact:
  assumes "w0 \<noteq> []" and "length w0 < 2 ^ 32" and "sum_list w0 < 2 ^ 64"
    and "sum_list w0 div length w0 + 1 < 2 ^ 32"
  shows "\<exists>al. aqp_alias_u64_create w0 = Some al \<and> alias_exact w0 al"
proof -
  let ?N = "length w0" and ?S = "sum_list w0"
  let ?Q = "?S div ?N" and ?R = "?S mod ?N"
  let ?st = "\<lparr>b_weights = w0, b_aliases = replicate ?N no_alias,
               b_remitems = replicate ?N 0, b_pi = 0, b_ni = ?N\<rparr>"
  have N: "0 < ?N" using assms(1) by simp
  then have R: "?R < ?N" by simp
  with assms(2) have R32: "u32 ?R = ?R" by (intro u32_id) linarith
  have S: "alias_sum w0 0 = ?S" using assms(3) by (simp add: alias_sum_exact)
  have W64: "\<forall>w\<in>set w0. w < 2 ^ 64"
    using assms(3) member_le_sum_list [of _ w0] by (auto intro: le_less_trans)
  have cap: "?S = (\<Sum>i<?N. aqp_get_bucket_weight ?Q ?R i)"
    using sum_bucket_weights [OF assms(4), of ?R ?N] R by (simp add: mult.commute)
  obtain st' where st': "alias_fill ?Q ?R ?N (alias_classify ?Q ?R [0..<?N] ?st) = Some st'"
    and "b_pi st' = 0" and inv: "alias_inv ?Q ?R w0 st'"
    using alias_fill_correct [OF alias_inv_init [OF assms(4) refl assms(2) refl] cap assms(4,2) W64]
    by blast
  then have noU: "take (b_pi st') (b_remitems st') = []" by simp
  have noV: "drop (b_ni st') (b_remitems st') = []"
    using inv noU alias_parts_balance [OF _ cap assms(2)] unfolding alias_inv_def by metis
  let ?al = "\<lparr>cutoffs = b_weights st', aliases = b_aliases st', alias_Q = ?Q, alias_R = ?R,
    alias_N = ?N\<rparr>"
  have "aqp_alias_u64_create w0 = Some ?al"
    using st' R32 S N by (simp add: aqp_alias_u64_create_def Let_def)
  moreover have "alias_exact w0 ?al"
    using inv noU noV unfolding alias_inv_def alias_parts_def Let_def
    by (simp add: alias_exact_def cong: if_cong)
  ultimately show ?thesis by blast
qed

section \<open>What a draw returns\<close>

lemma alias_exactD:
  assumes "alias_exact w0 al"
  shows "length (cutoffs al) = length w0" and "length (aliases al) = length w0"
    and "alias_N al = length w0"
    and "alias_Q al = sum_list w0 div length w0" and "alias_R al = sum_list w0 mod length w0"
  using assms by (simp_all only: alias_exact_def Let_def)

lemma alias_exact_R: "alias_exact w0 al \<Longrightarrow> x < alias_R al \<Longrightarrow> alias_R al < length w0"
  by (cases "w0 = []") (simp_all add: alias_exactD(5))

lemma sample_low:
  assumes "alias_exact w0 al" and "alias_Q al + 1 < 2 ^ 32" and "length w0 < 2 ^ 32"
    and "x < alias_R al"
  shows "aqp_alias_u64_sample_unif_u64 al x
    = Some (if cutoffs al ! x < alias_Q al + 1 then aliases al ! x else x)"
  using assms(2-4) alias_exact_R [OF assms(1,4)]
  by (simp add: aqp_alias_u64_sample_unif_u64_def alias_exactD(1,2) [OF assms(1)] u64_id u32_id)

lemma sample_high:
  assumes "alias_exact w0 al" and "length w0 < 2 ^ 32" and "i < length w0" and "r < alias_Q al"
  shows "aqp_alias_u64_sample_unif_u64 al (alias_R al + (i * alias_Q al + r))
    = Some (if cutoffs al ! i < r then aliases al ! i else i)"
  using assms(2-4)
  by (simp add: aqp_alias_u64_sample_unif_u64_def alias_exactD(1,2) [OF assms(1)] u32_id)

text \<open>How often bucket \<open>i\<close> answers \<open>j\<close>.\<close>

lemma bucket_answers:
  fixes al j i
  defines "c \<equiv> cutoffs al ! i" and "a \<equiv> aliases al ! i" and "Q \<equiv> alias_Q al"
  assumes ex: "alias_exact w0 al" and Q: "Q + 1 < 2 ^ 32" and "length w0 < 2 ^ 32"
    and "i < length w0" and j: "j < length w0"
  shows "(\<Sum>r<Q. of_bool (if c < r then a = j else i = j))
      + (if i < alias_R al then of_bool (if c < Q + 1 then a = j else i = j) else 0)
      + of_bool (a = j \<and> c < Q)
    = (if a = j then aqp_get_bucket_weight Q (alias_R al) i - c else 0)
      + (if i = j then c + of_bool (c < Q) else (0::nat))"
proof -
  have "a = no_alias \<and> c = aqp_get_bucket_weight Q (alias_R al) i
      \<or> c < aqp_get_bucket_weight Q (alias_R al) i"
    using ex assms(7) unfolding alias_exact_def Let_def c_def a_def Q_def by auto
  moreover have "no_alias \<noteq> j" using j assms(6) by (simp add: no_alias_def)
  ultimately show ?thesis
    unfolding sum_of_bool_threshold bucket_weight_exact [OF Q]
    by (auto simp: min_def not_less le_Suc_eq split: if_splits)
qed

lemma sample_distribution:
  assumes ex: "alias_exact w0 al" and Q: "alias_Q al + 1 < 2 ^ 32" and N: "length w0 < 2 ^ 32"
    and j: "j < length w0"
  shows "card {x. x < sum_list w0 \<and> aqp_alias_u64_sample_unif_u64 al x = Some j}
      + card {i. i < length w0 \<and> aliases al ! i = j \<and> cutoffs al ! i < alias_Q al}
    = w0 ! j + of_bool (cutoffs al ! j < alias_Q al)"
proof -
  let ?N = "length w0" and ?Q = "alias_Q al" and ?R = "alias_R al"
  let ?c = "\<lambda>i. cutoffs al ! i" and ?a = "\<lambda>i. aliases al ! i"
  let ?bw = "aqp_get_bucket_weight ?Q ?R"
  let ?f = "\<lambda>x. of_bool (aqp_alias_u64_sample_unif_u64 al x = Some j) :: nat"
  have QR: "?Q = sum_list w0 div ?N" "?R = sum_list w0 mod ?N"
    using ex by (auto simp: alias_exact_def Let_def)
  have "0 < ?N" using j by linarith
  then have R: "?R \<le> ?N" unfolding QR by (intro less_imp_le mod_less_divisor)
  have S: "sum_list w0 = ?R + ?Q * ?N" using QR by simp
  have "card {x. x < sum_list w0 \<and> aqp_alias_u64_sample_unif_u64 al x = Some j}
      = sum ?f {..<sum_list w0}"
    by (rule card_conv_sum_of_bool)
  also have "\<dots> = sum ?f {..<?R} + (\<Sum>y<?Q * ?N. ?f (?R + y))"
    by (subst S) (rule sum_lessThan_add)
  also have "(\<Sum>y<?Q * ?N. ?f (?R + y)) = (\<Sum>i<?N. \<Sum>r<?Q. ?f (?R + (i * ?Q + r)))"
    by (rule sum_lessThan_mult)
  also have "sum ?f {..<?R}
      = (\<Sum>i<?N. if i < ?R then of_bool (if ?c i < ?Q + 1 then ?a i = j else i = j) else 0)"
    unfolding sum_lessThan_extend [OF R] by (intro sum.cong) (auto simp: sample_low [OF ex Q N])
  also have "(\<Sum>i<?N. \<Sum>r<?Q. ?f (?R + (i * ?Q + r)))
      = (\<Sum>i<?N. \<Sum>r<?Q. of_bool (if ?c i < r then ?a i = j else i = j))"
    by (intro sum.cong) (auto simp: sample_high [OF ex N])
  finally have "card {x. x < sum_list w0 \<and> aqp_alias_u64_sample_unif_u64 al x = Some j}
      + card {i. i < ?N \<and> ?a i = j \<and> ?c i < ?Q}
    = (\<Sum>i<?N. (\<Sum>r<?Q. of_bool (if ?c i < r then ?a i = j else i = j))
        + (if i < ?R then of_bool (if ?c i < ?Q + 1 then ?a i = j else i = j) else 0)
        + of_bool (?a i = j \<and> ?c i < ?Q))"
    unfolding card_conv_sum_of_bool by (simp add: sum.distrib)
  also have "\<dots> = (\<Sum>i<?N. (if ?a i = j then ?bw i - ?c i else 0)
        + (if i = j then ?c i + of_bool (?c i < ?Q) else 0))"
    by (intro sum.cong refl bucket_answers [OF ex Q N _ j]) simp
  also have "\<dots> = (\<Sum>i<?N. if ?a i = j then ?bw i - ?c i else 0) + (?c j + of_bool (?c j < ?Q))"
    using j by (simp add: sum.distrib)
  also have "\<dots> = w0 ! j + of_bool (?c j < ?Q)"
    using ex j unfolding alias_exact_def Let_def by simp
  finally show ?thesis .
qed


lemma sample_in_range:
  assumes ex: "alias_exact w0 al" and Q: "alias_Q al + 1 < 2 ^ 32" and N: "length w0 < 2 ^ 32"
    and x: "x < sum_list w0"
  shows "\<exists>k<length w0. aqp_alias_u64_sample_unif_u64 al x = Some k"
proof -
  let ?N = "length w0" and ?Q = "alias_Q al" and ?R = "alias_R al"
  have S: "sum_list w0 = ?R + ?Q * ?N" using alias_exactD(4,5) [OF ex] by simp
  have ok: "aliases al ! i < ?N"
    if "i < ?N" "cutoffs al ! i < aqp_get_bucket_weight ?Q ?R i" for i
    using ex that unfolding alias_exact_def Let_def by auto
  show ?thesis
  proof (cases "x < ?R")
    case True
    with alias_exact_R [OF ex True] ok [of x] show ?thesis
      by (auto simp: sample_low [OF ex Q N True] bucket_weight_exact [OF Q])
  next
    case False
    define i r where "i = (x - ?R) div ?Q" and "r = (x - ?R) mod ?Q"
    have "x - ?R < ?Q * ?N" using x S False by simp
    then have i: "i < ?N" unfolding i_def by (simp add: less_mult_imp_div_less mult.commute)
    have "0 < ?Q" using \<open>x - ?R < ?Q * ?N\<close> by (cases ?Q) auto
    then have r: "r < ?Q" unfolding r_def by simp
    have "x = ?R + (i * ?Q + r)" using False unfolding i_def r_def by simp
    with sample_high [OF ex N i r] ok [OF i] i r show ?thesis
      by (auto simp: bucket_weight_exact [OF Q])
  qed
qed

section \<open>Properties\<close>

text \<open>
  C13. For every non-empty array of weights whose sum fits in 64 bits and whose bucket capacity
  fits in 32 bits, building the alias structure terminates without leaving its arrays, and the
  structure is exact: each item's weight is the part its own bucket keeps plus the parts of the
  buckets that name it as their alias.
\<close>

theorem aqp_alias_u64_create_exact:
  assumes "w0 \<noteq> []" and "length w0 < 2 ^ 32" and "sum_list w0 < 2 ^ 64"
    and "sum_list w0 div length w0 + 1 < 2 ^ 32"
  shows "\<exists>al. aqp_alias_u64_create w0 = Some al \<and> alias_exact w0 al
           \<and> aqp_alias_u64_get_sum_weights al = sum_list w0"
proof -
  obtain al where al: "aqp_alias_u64_create w0 = Some al" and ex: "alias_exact w0 al"
    using alias_create_exact [OF assms] by blast
  have "alias_R al + alias_Q al * alias_N al = sum_list w0"
    using alias_exactD(3-5) [OF ex] by simp
  with assms(3) have "aqp_alias_u64_get_sum_weights al = sum_list w0"
    by (simp add: aqp_alias_u64_get_sum_weights_def u64_id)
  with al ex show ?thesis by blast
qed

theorem aqp_alias_u64_create_exact_witness:
  "\<exists>al. aqp_alias_u64_create [1, 5, 0, 3, 7] = Some al \<and> alias_exact [1, 5, 0, 3, 7] al
      \<and> aqp_alias_u64_get_sum_weights al = 16"
  using aqp_alias_u64_create_exact [of "[1, 5, 0, 3, 7]"] by simp

text \<open>
  C14. The distribution of a draw, counted over all \<open>S\<close> values of the uniform number \<open>x\<close>, for fewer
  than 2^32 items whose weights sum to \<open>S\<close> below 2^64 and, a bound the header does not name, whose
  bucket capacity \<open>S / N + 1\<close> is below 2^32 (for larger capacities the lemma
  \<open>alias_draw_outside_large_weights\<close> shows that the construction goes wrong). Item \<open>j\<close> is drawn \<open>w j\<close> times, plus once if its own bucket keeps fewer than \<open>Q\<close> slots, minus once for
  every bucket that keeps fewer than \<open>Q\<close> slots and names \<open>j\<close> as its alias. (The comparison
  \<^verbatim>\<open>r > cutoffs[i]\<close> is applied to slots numbered from zero, which moves one slot of each such
  bucket from the alias to the item itself, so that the draw departs from the probability
  weight / \<open>S\<close> that the header announces by at most these slots.)
\<close>

theorem aqp_alias_u64_sample_distribution:
  assumes "w0 \<noteq> []" and "length w0 < 2 ^ 32" and "sum_list w0 < 2 ^ 64"
    and "sum_list w0 div length w0 + 1 < 2 ^ 32"
    and "aqp_alias_u64_create w0 = Some al" and "j < length w0"
  shows "card {x. x < sum_list w0 \<and> aqp_alias_u64_sample_unif_u64 al x = Some j}
      + card {i. i < length w0 \<and> aliases al ! i = j \<and> cutoffs al ! i < alias_Q al}
    = w0 ! j + of_bool (cutoffs al ! j < alias_Q al)"
proof -
  have "alias_exact w0 al" using alias_create_exact [OF assms(1-4)] assms(5) by auto
  with sample_distribution assms(2,4,6) show ?thesis by (simp add: alias_exactD(4))
qed

lemmas alias_eval = aqp_alias_u64_create_def alias_fill.simps alias_fill_step_def
  aqp_get_bucket_weight_def no_alias_def u32_def u64_def sub64_def upt_rec

lemma alias_create_0_2:
  "aqp_alias_u64_create [0, 2]
     = Some \<lparr>cutoffs = [0, 1], aliases = [1, no_alias], alias_Q = 1, alias_R = 0, alias_N = 2\<rparr>"
  by (simp add: alias_eval Let_def)

theorem aqp_alias_u64_sample_distribution_witness:
  "card {x. x < sum_list [0, 2] \<and> aqp_alias_u64_sample_unif_u64
       \<lparr>cutoffs = [0, 1], aliases = [1, no_alias], alias_Q = 1, alias_R = 0, alias_N = 2\<rparr> x = Some 0}
     + card {i. i < length [0::nat, 2] \<and> [1, no_alias] ! i = 0 \<and> [0, 1] ! i < (1::nat)} = 1"
  using aqp_alias_u64_sample_distribution [of "[0, 2]", OF _ _ _ _ alias_create_0_2, of 0] by simp

text \<open>
  C35. For fewer than 2^32 items whose weights sum to \<open>S\<close> below 2^64, with a bucket capacity
  \<open>S / N + 1\<close> below 2^32, every draw from a freshly built structure with \<open>x\<close> below \<open>S\<close> returns the
  index of one of the items: the unused alias entries and the positions outside the arrays are never
  returned. (The last bound is needed: without it an unused entry can be returned, see
  \<open>alias_draw_outside_large_weights\<close>.)
\<close>

theorem aqp_alias_u64_sample_in_range:
  assumes "w0 \<noteq> []" and "length w0 < 2 ^ 32" and "sum_list w0 < 2 ^ 64"
    and "sum_list w0 div length w0 + 1 < 2 ^ 32"
    and "aqp_alias_u64_create w0 = Some al" and "x < sum_list w0"
  shows "\<exists>k<length w0. aqp_alias_u64_sample_unif_u64 al x = Some k"
proof -
  have "alias_exact w0 al" using alias_create_exact [OF assms(1-4)] assms(5) by auto
  with sample_in_range assms(2,4,6) show ?thesis by (simp add: alias_exactD(4))
qed

theorem aqp_alias_u64_sample_in_range_witness:
  "\<exists>k<length [0::nat, 2]. aqp_alias_u64_sample_unif_u64
     \<lparr>cutoffs = [0, 1], aliases = [1, no_alias], alias_Q = 1, alias_R = 0, alias_N = 2\<rparr> 1 = Some k"
  using aqp_alias_u64_sample_in_range [of "[0, 2]", OF _ _ _ _ alias_create_0_2, of 1] by simp

text \<open>An item of weight zero can be drawn, against the documented contract of the structure.\<close>

lemma alias_draws_zero_weight_item:
  "\<exists>al. aqp_alias_u64_create [0, 2] = Some al \<and> aqp_alias_u64_sample_unif_u64 al 0 = Some 0"
  by (simp add: alias_create_0_2 aqp_alias_u64_sample_unif_u64_def u32_def)

text \<open>With bucket capacities of \<open>2^32\<close> and more, the 32-bit locals of the construction truncate the
  capacity, an under-full bucket is left without an alias, and a draw returns the unused entry.\<close>

lemma alias_large_sum: "alias_sum [0, 8589934592] 0 = 8589934592" by (simp add: u64_def)

lemma alias_large_classify:
  "alias_classify 4294967296 0 [0..<2]
      \<lparr>b_weights = [0, 8589934592], b_aliases = replicate 2 no_alias,
       b_remitems = replicate 2 0, b_pi = 0, b_ni = 2\<rparr>
    = \<lparr>b_weights = [0, 8589934592], b_aliases = replicate 2 no_alias,
       b_remitems = [0, 1], b_pi = 0, b_ni = 1\<rparr>"
proof -
  have "replicate 2 (0::nat) = [0, 0]" by (simp add: numeral_2_eq_2)
  then show ?thesis by (simp add: upt_rec aqp_get_bucket_weight_def u32_def Let_def)
qed

lemma alias_draw_outside_large_weights:
  "\<exists>al. aqp_alias_u64_create [0, 8589934592] = Some al
      \<and> aqp_alias_u64_sample_unif_u64 al 1 = Some no_alias"
proof -
  have len: "length [0, 8589934592 :: nat] = 2" and Q: "8589934592 div 2 = (4294967296 :: nat)"
    and R: "u32 (8589934592 mod 2) = 0" by (simp_all add: u32_def)
  have "aqp_alias_u64_create [0, 8589934592]
      = Some \<lparr>cutoffs = [0, 8589934592], aliases = replicate 2 no_alias,
              alias_Q = 4294967296, alias_R = 0, alias_N = 2\<rparr>"
    unfolding aqp_alias_u64_create_def Let_def alias_large_sum len Q R alias_large_classify
    by (simp add: alias_fill.simps)
  then show ?thesis
    by (simp add: aqp_alias_u64_sample_unif_u64_def numeral_2_eq_2)
qed

end
