(* ===== verification/Tuple.thy ===== *)
theory Tuple
  imports Prelude
begin

unbundle bit_operations_syntax

text \<open>
  Index tuples of the AB-tree: item pointers, the tuple header and its status bits, and the
  accessors of \<^verbatim>\<open>src/include/access/abtree.h\<close> that read and write them.

  Header fields are machine words. The variable part of a tuple is kept as the lists the code
  stores in it (key values, heap TIDs of the posting list, aggregation values, xmins); the byte
  position of each of these areas is computed by the same expression as in the source, and the
  layout lemmas show that the areas neither overlap nor leave the tuple.
\<close>

section \<open>Item pointers\<close>

type_synonym BlockNumber = "32 word"
type_synonym OffsetNumber = "16 word"
type_synonym TransactionId = "32 word"
type_synonym Datum = "64 word"

datatype ItemPointerData = ItemPointer (ip_blkid: BlockNumber) (ip_posid: OffsetNumber)

definition ItemPointerIsValid :: "ItemPointerData \<Rightarrow> bool" where
  "ItemPointerIsValid p = (ip_posid p \<noteq> 0)"

definition ItemPointerCompare :: "ItemPointerData \<Rightarrow> ItemPointerData \<Rightarrow> int" where
  "ItemPointerCompare arg1 arg2 =
     (let b1 = ip_blkid arg1; b2 = ip_blkid arg2
      in if b1 < b2 then - 1
         else if b1 > b2 then 1
         else if ip_posid arg1 < ip_posid arg2 then - 1
         else if ip_posid arg1 > ip_posid arg2 then 1
         else 0)"

text \<open>The comparison is the lexicographic order, so the library's facts about linear orders and
  sorted lists apply to arrays of heap TIDs.\<close>

instantiation ItemPointerData :: linorder
begin

definition less_eq_ItemPointerData :: "ItemPointerData \<Rightarrow> ItemPointerData \<Rightarrow> bool" where
  "less_eq_ItemPointerData p q = (ItemPointerCompare p q \<le> 0)"

definition less_ItemPointerData :: "ItemPointerData \<Rightarrow> ItemPointerData \<Rightarrow> bool" where
  "less_ItemPointerData p q = (ItemPointerCompare p q < 0)"

instance
  by standard
    (auto simp: less_eq_ItemPointerData_def less_ItemPointerData_def ItemPointerCompare_def Let_def
      ItemPointerData.expand split: if_splits)

end

lemma ItemPointerCompare_order [simp]:
  "ItemPointerCompare p q < 0 \<longleftrightarrow> p < q"
  "ItemPointerCompare p q \<le> 0 \<longleftrightarrow> p \<le> q"
  "0 < ItemPointerCompare p q \<longleftrightarrow> q < p"
  "ItemPointerCompare p q = 0 \<longleftrightarrow> p = q"
  by (auto simp: less_eq_ItemPointerData_def less_ItemPointerData_def ItemPointerCompare_def Let_def
      ItemPointerData.expand split: if_splits)

section \<open>Tuple header\<close>

record IndexTupleData =
  t_tid :: ItemPointerData
  t_info :: "16 word"
  it_attrs :: "Datum option list"
  it_htids :: "ItemPointerData list"
  it_aggs :: "Datum list"
  it_xmins :: "TransactionId list"
  it_last_update_id :: "16 word"
  it_pivot_tid :: "ItemPointerData option"

definition MAXALIGN :: "nat \<Rightarrow> nat" where
  "MAXALIGN n = (n + 7) div 8 * 8"

definition MAXALIGN_DOWN :: "nat \<Rightarrow> nat" where
  "MAXALIGN_DOWN n = n div 8 * 8"

definition INDEX_SIZE_MASK :: "16 word" where
  "INDEX_SIZE_MASK = 0x1FFF"

definition ABT_INDEX_ALT_TID_MASK :: "16 word" where
  "ABT_INDEX_ALT_TID_MASK = 0x2000"

definition ABT_OFFSET_MASK :: "16 word" where
  "ABT_OFFSET_MASK = 0x0FFF"

definition ABT_STATUS_OFFSET_MASK :: "16 word" where
  "ABT_STATUS_OFFSET_MASK = 0xF000"

definition ABT_PIVOT_HEAP_TID_ATTR :: "16 word" where
  "ABT_PIVOT_HEAP_TID_ATTR = 0x1000"

definition ABT_IS_POSTING :: "16 word" where
  "ABT_IS_POSTING = 0x2000"

lemmas tuple_mask_defs = INDEX_SIZE_MASK_def ABT_INDEX_ALT_TID_MASK_def ABT_OFFSET_MASK_def
  ABT_STATUS_OFFSET_MASK_def ABT_PIVOT_HEAP_TID_ATTR_def ABT_IS_POSTING_def

definition IndexTupleSize :: "IndexTupleData \<Rightarrow> nat" where
  "IndexTupleSize itup = unat (t_info itup AND INDEX_SIZE_MASK)"

definition set_tuple_size :: "nat \<Rightarrow> IndexTupleData \<Rightarrow> IndexTupleData" where
  "set_tuple_size newsize itup =
     itup\<lparr>t_info := (t_info itup AND NOT INDEX_SIZE_MASK) OR of_nat newsize\<rparr>"

definition clear_alt_tid :: "IndexTupleData \<Rightarrow> IndexTupleData" where
  "clear_alt_tid itup = itup\<lparr>t_info := t_info itup AND NOT ABT_INDEX_ALT_TID_MASK\<rparr>"

definition ABTreeTupleIsPivot :: "IndexTupleData \<Rightarrow> bool" where
  "ABTreeTupleIsPivot itup =
     (if t_info itup AND ABT_INDEX_ALT_TID_MASK = 0 then False
      else if ip_posid (t_tid itup) AND ABT_IS_POSTING \<noteq> 0 then False
      else True)"

definition ABTreeTupleIsPosting :: "IndexTupleData \<Rightarrow> bool" where
  "ABTreeTupleIsPosting itup =
     (if t_info itup AND ABT_INDEX_ALT_TID_MASK = 0 then False
      else if ip_posid (t_tid itup) AND ABT_IS_POSTING = 0 then False
      else True)"

definition ABTreeTupleSetPosting :: "IndexTupleData \<Rightarrow> nat \<Rightarrow> nat \<Rightarrow> IndexTupleData" where
  "ABTreeTupleSetPosting itup nhtids postingoffset =
     itup\<lparr>t_info := t_info itup OR ABT_INDEX_ALT_TID_MASK,
          t_tid := ItemPointer (of_nat postingoffset) (of_nat nhtids OR ABT_IS_POSTING)\<rparr>"

definition ABTreeTupleGetNPosting :: "IndexTupleData \<Rightarrow> nat" where
  "ABTreeTupleGetNPosting posting = unat (ip_posid (t_tid posting) AND ABT_OFFSET_MASK)"

definition ABTreeTupleGetPostingOffset :: "IndexTupleData \<Rightarrow> nat" where
  "ABTreeTupleGetPostingOffset posting = unat (ip_blkid (t_tid posting))"

definition ABTreeTupleGetPosting :: "IndexTupleData \<Rightarrow> ItemPointerData list" where
  "ABTreeTupleGetPosting posting = it_htids posting"

definition ABTreeTupleGetPostingN :: "IndexTupleData \<Rightarrow> nat \<Rightarrow> ItemPointerData" where
  "ABTreeTupleGetPostingN posting n = ABTreeTupleGetPosting posting ! n"

definition ABTreeTupleGetDownLink :: "IndexTupleData \<Rightarrow> BlockNumber" where
  "ABTreeTupleGetDownLink pivot = ip_blkid (t_tid pivot)"

definition ABTreeTupleSetDownLink :: "IndexTupleData \<Rightarrow> BlockNumber \<Rightarrow> IndexTupleData" where
  "ABTreeTupleSetDownLink pivot blkno = pivot\<lparr>t_tid := ItemPointer blkno (ip_posid (t_tid pivot))\<rparr>"

text \<open>\<open>natts\<close> is the number of attributes of the index relation.\<close>

definition ABTreeTupleGetNAtts :: "nat \<Rightarrow> IndexTupleData \<Rightarrow> nat" where
  "ABTreeTupleGetNAtts natts itup =
     (if ABTreeTupleIsPivot itup then unat (ip_posid (t_tid itup) AND ABT_OFFSET_MASK) else natts)"

definition ABTreeTupleSetNAtts :: "IndexTupleData \<Rightarrow> nat \<Rightarrow> bool \<Rightarrow> IndexTupleData" where
  "ABTreeTupleSetNAtts itup nkeyatts heaptid =
     itup\<lparr>t_info := t_info itup OR ABT_INDEX_ALT_TID_MASK,
          t_tid := ItemPointer (ip_blkid (t_tid itup))
                     (if heaptid then of_nat nkeyatts OR ABT_PIVOT_HEAP_TID_ATTR
                      else of_nat nkeyatts)\<rparr>"

definition ABTreeTupleGetTopParent :: "IndexTupleData \<Rightarrow> BlockNumber" where
  "ABTreeTupleGetTopParent leafhikey = ip_blkid (t_tid leafhikey)"

definition ABTreeTupleSetTopParent :: "IndexTupleData \<Rightarrow> BlockNumber \<Rightarrow> IndexTupleData" where
  "ABTreeTupleSetTopParent leafhikey blkno =
     ABTreeTupleSetNAtts
       (leafhikey\<lparr>t_tid := ItemPointer blkno (ip_posid (t_tid leafhikey))\<rparr>) 0 False"

definition ABTPivotTupleHasHeapTID :: "IndexTupleData \<Rightarrow> bool" where
  "ABTPivotTupleHasHeapTID itup = (ip_posid (t_tid itup) AND ABT_PIVOT_HEAP_TID_ATTR \<noteq> 0)"

definition ABTreeTupleGetHeapTID :: "IndexTupleData \<Rightarrow> ItemPointerData option" where
  "ABTreeTupleGetHeapTID itup =
     (if ABTreeTupleIsPivot itup then
        if ip_posid (t_tid itup) AND ABT_PIVOT_HEAP_TID_ATTR \<noteq> 0 then it_pivot_tid itup
        else None
      else if ABTreeTupleIsPosting itup then Some (ABTreeTupleGetPostingN itup 0)
      else Some (t_tid itup))"

definition ABTreeTupleGetMaxHeapTID :: "IndexTupleData \<Rightarrow> ItemPointerData" where
  "ABTreeTupleGetMaxHeapTID itup =
     (if ABTreeTupleIsPosting itup then
        ABTreeTupleGetPostingN itup (ABTreeTupleGetNPosting itup - 1)
      else t_tid itup)"

section \<open>Aggregation support and the layout of the variable part\<close>

text \<open>The functions of the aggregation type come from the catalog; they are fields of the record,
  as in the source. \<open>None\<close> is the error exit of such a function.\<close>

record ABTCachedAggInfo =
  agg_byval :: bool
  leaf_has_agg :: bool
  int2_to_agg_type_fn_initialized :: bool
  agg_typlen :: nat
  agg_stride :: nat
  agg_map_val :: Datum
  int2_to_agg_type_fn :: "16 word \<Rightarrow> Datum"
  agg_add_fn :: "Datum \<Rightarrow> Datum \<Rightarrow> Datum option"
  agg_mul_fn :: "Datum \<Rightarrow> Datum \<Rightarrow> Datum option"
  agg_sub_fn :: "Datum \<Rightarrow> Datum \<Rightarrow> Datum option"
  extra_space_for_nonpivot_tuple :: nat
  extra_space_when_tid_missing :: nat
  extra_space_when_tid_present :: nat

definition INTALIGN :: "nat \<Rightarrow> nat" where
  "INTALIGN n = (n + 3) div 4 * 4"

definition SHORTALIGN :: "nat \<Rightarrow> nat" where
  "SHORTALIGN n = (n + 1) div 2 * 2"

definition abt_compute_tuple_offsets :: "ABTCachedAggInfo \<Rightarrow> ABTCachedAggInfo" where
  "abt_compute_tuple_offsets agg_info =
     (let ext_space_wo_tid = MAXALIGN (INTALIGN (agg_typlen agg_info) + 2);
          ext_space_w_tid = MAXALIGN (INTALIGN (agg_typlen agg_info) + SHORTALIGN 2 + 6);
          ext_space_nonpivot =
            (if leaf_has_agg agg_info then MAXALIGN (INTALIGN (agg_typlen agg_info) + 4)
             else MAXALIGN 4)
      in agg_info\<lparr>extra_space_for_nonpivot_tuple := ext_space_nonpivot,
                  extra_space_when_tid_missing := ext_space_wo_tid,
                  extra_space_when_tid_present := ext_space_w_tid\<rparr>)"

definition ABTreeComputeProductOfAggAndInt2 :: "ABTCachedAggInfo \<Rightarrow> Datum \<Rightarrow> 16 word \<Rightarrow> Datum option" where
  "ABTreeComputeProductOfAggAndInt2 agg_info agg n =
     (let n_arg = (if int2_to_agg_type_fn_initialized agg_info then int2_to_agg_type_fn agg_info n
                   else scast n)
      in agg_mul_fn agg_info agg n_arg)"

text \<open>Byte offsets, counted from the start of the tuple.\<close>

definition ABTreeNonPivotTupleGetAggPtr :: "IndexTupleData \<Rightarrow> ABTCachedAggInfo \<Rightarrow> nat" where
  "ABTreeNonPivotTupleGetAggPtr itup agg_info =
     IndexTupleSize itup - extra_space_for_nonpivot_tuple agg_info"

definition ABTreePostingTupleGetAggPtr :: "IndexTupleData \<Rightarrow> ABTCachedAggInfo \<Rightarrow> nat" where
  "ABTreePostingTupleGetAggPtr itup agg_info =
     MAXALIGN (ABTreeTupleGetPostingOffset itup + ABTreeTupleGetNPosting itup * 6)"

definition ABTreePivotTupleGetAggPtr :: "IndexTupleData \<Rightarrow> ABTCachedAggInfo \<Rightarrow> nat" where
  "ABTreePivotTupleGetAggPtr itup agg_info =
     (if ABTPivotTupleHasHeapTID itup
      then IndexTupleSize itup - extra_space_when_tid_present agg_info
      else IndexTupleSize itup - extra_space_when_tid_missing agg_info)"

definition ABTreeTupleGetAggPtr :: "IndexTupleData \<Rightarrow> ABTCachedAggInfo \<Rightarrow> nat" where
  "ABTreeTupleGetAggPtr itup agg_info =
     (if t_info itup AND ABT_INDEX_ALT_TID_MASK = 0 then ABTreeNonPivotTupleGetAggPtr itup agg_info
      else if ip_posid (t_tid itup) AND ABT_IS_POSTING \<noteq> 0
      then ABTreePostingTupleGetAggPtr itup agg_info
      else ABTreePivotTupleGetAggPtr itup agg_info)"

definition ABTreeNonPivotTupleGetXminPtr :: "IndexTupleData \<Rightarrow> nat" where
  "ABTreeNonPivotTupleGetXminPtr itup = IndexTupleSize itup - 4"

definition ABTreePostingTupleGetXminPtr :: "IndexTupleData \<Rightarrow> nat" where
  "ABTreePostingTupleGetXminPtr itup = IndexTupleSize itup - 4 * ABTreeTupleGetNPosting itup"

definition ABTreeTupleGetXminPtr :: "IndexTupleData \<Rightarrow> nat" where
  "ABTreeTupleGetXminPtr itup =
     (if ABTreeTupleIsPosting itup then ABTreePostingTupleGetXminPtr itup
      else ABTreeNonPivotTupleGetXminPtr itup)"

definition ABTreeTupleGetLastUpdateIdPtr :: "IndexTupleData \<Rightarrow> nat" where
  "ABTreeTupleGetLastUpdateIdPtr itup =
     (if ABTPivotTupleHasHeapTID itup then IndexTupleSize itup - 2 - 6
      else IndexTupleSize itup - 2)"

section \<open>Update ids and item indexes\<close>

definition ABT_INVALID_LAST_UPDATE_ID :: "16 word" where
  "ABT_INVALID_LAST_UPDATE_ID = 0"

definition ABT_MIN_LAST_UPDATE_ID :: "16 word" where
  "ABT_MIN_LAST_UPDATE_ID = 1"

text \<open>The operand is promoted to \<^verbatim>\<open>int\<close> before the addition, and the result is stored back in 16
  bits.\<close>

definition ABTAdvanceLastUpdateId :: "16 word \<Rightarrow> 16 word" where
  "ABTAdvanceLastUpdateId last_update_id =
     (if uint last_update_id + 1 = 0 then ABT_MIN_LAST_UPDATE_ID
      else word_of_int (uint last_update_id + 1))"

definition ABT_ITEMINDEX_OFFSET_MASK :: "32 word" where
  "ABT_ITEMINDEX_OFFSET_MASK = 0xffff"

definition ABT_ITEMINDEX_POSTING_OFF_MASK :: "32 word" where
  "ABT_ITEMINDEX_POSTING_OFF_MASK = 0xffff0000"

definition ABT_ITEMINDEX_GET_OFFSET :: "32 word \<Rightarrow> 32 word" where
  "ABT_ITEMINDEX_GET_OFFSET idx = idx AND ABT_ITEMINDEX_OFFSET_MASK"

definition ABT_ITEMINDEX_GET_POSTING_OFF :: "32 word \<Rightarrow> 32 word" where
  "ABT_ITEMINDEX_GET_POSTING_OFF idx = drop_bit 16 (idx AND ABT_ITEMINDEX_POSTING_OFF_MASK)"

definition ABT_OFFSET_GET_ITEMINDEX :: "OffsetNumber \<Rightarrow> 32 word" where
  "ABT_OFFSET_GET_ITEMINDEX off = ucast off AND ABT_ITEMINDEX_OFFSET_MASK"

definition ABT_OFFSET_AND_POSTING_OFF_GET_ITEMINDEX :: "OffsetNumber \<Rightarrow> 32 word \<Rightarrow> 32 word" where
  "ABT_OFFSET_AND_POSTING_OFF_GET_ITEMINDEX off posting_off =
     ABT_OFFSET_GET_ITEMINDEX off OR push_bit 16 (posting_off AND ABT_ITEMINDEX_POSTING_OFF_MASK)"

section \<open>Bit-level facts\<close>

lemma bit_size_mask [simp]: "bit INDEX_SIZE_MASK n \<longleftrightarrow> n < 13"
proof -
  have m: "INDEX_SIZE_MASK = mask 13" by (simp add: INDEX_SIZE_MASK_def mask_eq_exp_minus_1)
  show ?thesis unfolding m by (auto simp: bit_simps)
qed

lemma bit_alt_mask [simp]: "bit ABT_INDEX_ALT_TID_MASK n \<longleftrightarrow> n = 13"
proof -
  have m: "ABT_INDEX_ALT_TID_MASK = 2 ^ 13" by (simp add: ABT_INDEX_ALT_TID_MASK_def)
  show ?thesis unfolding m bit_exp_iff by auto
qed

lemma bit_is_posting [simp]: "bit ABT_IS_POSTING n \<longleftrightarrow> n = 13"
  using bit_alt_mask by (simp add: ABT_IS_POSTING_def ABT_INDEX_ALT_TID_MASK_def)

lemma bit_heap_tid_attr [simp]: "bit ABT_PIVOT_HEAP_TID_ATTR n \<longleftrightarrow> n = 12"
proof -
  have m: "ABT_PIVOT_HEAP_TID_ATTR = 2 ^ 12" by (simp add: ABT_PIVOT_HEAP_TID_ATTR_def)
  show ?thesis unfolding m bit_exp_iff by auto
qed

lemma bit_offset_mask [simp]: "bit ABT_OFFSET_MASK n \<longleftrightarrow> n < 12"
proof -
  have m: "ABT_OFFSET_MASK = mask 12" by (simp add: ABT_OFFSET_MASK_def mask_eq_exp_minus_1)
  show ?thesis unfolding m by (auto simp: bit_simps)
qed

lemma and_alt_zero: "x AND ABT_INDEX_ALT_TID_MASK = 0 \<longleftrightarrow> \<not> bit x 13"
  by (auto simp: word_eq_bits bit_and_iff dest: spec [of _ 13])

lemma and_posting_zero: "x AND ABT_IS_POSTING = 0 \<longleftrightarrow> \<not> bit x 13"
  by (auto simp: word_eq_bits bit_and_iff dest: spec [of _ 13])

lemma and_heap_tid_zero: "x AND ABT_PIVOT_HEAP_TID_ATTR = 0 \<longleftrightarrow> \<not> bit x 12"
  by (auto simp: word_eq_bits bit_and_iff dest: spec [of _ 12])

section \<open>Alignment\<close>

lemma MAXALIGN_ge: "n \<le> MAXALIGN n"
  by (simp add: MAXALIGN_def)

lemma MAXALIGN_le: "MAXALIGN n \<le> n + 7"
  by (simp add: MAXALIGN_def)

lemma MAXALIGN_mod [simp]: "MAXALIGN n mod 8 = 0"
  by (simp add: MAXALIGN_def)

lemma MAXALIGN_add: "n mod 8 = 0 \<Longrightarrow> MAXALIGN (n + m) = n + MAXALIGN m"
proof -
  assume "n mod 8 = 0"
  then obtain k where "n = 8 * k" by auto
  then have "n + m + 7 = (m + 7) + k * 8" by simp
  then have "(n + m + 7) div 8 = k + (m + 7) div 8" by (simp only: div_mult_self1)
  then show ?thesis using \<open>n = 8 * k\<close> by (simp add: MAXALIGN_def)
qed

lemma MAXALIGN_0 [simp]: "MAXALIGN 0 = 0"
  by (simp add: MAXALIGN_def)

lemma MAXALIGN_id: "n mod 8 = 0 \<Longrightarrow> MAXALIGN n = n"
  using MAXALIGN_add [of n 0] by simp

lemma MAXALIGN_mono: "n \<le> m \<Longrightarrow> MAXALIGN n \<le> MAXALIGN m"
  by (simp add: MAXALIGN_def div_le_mono)

lemma MAXALIGN_sub: "MAXALIGN (n + m) \<le> MAXALIGN n + MAXALIGN m"
proof -
  have "MAXALIGN (n + m) \<le> MAXALIGN (MAXALIGN n + MAXALIGN m)"
    by (intro MAXALIGN_mono add_mono MAXALIGN_ge)
  also have "\<dots> = MAXALIGN n + MAXALIGN m" by (simp add: MAXALIGN_add MAXALIGN_id)
  finally show ?thesis .
qed

section \<open>Header accessors\<close>

lemma IsPivot_bits: "ABTreeTupleIsPivot itup \<longleftrightarrow> bit (t_info itup) 13 \<and> \<not> bit (ip_posid (t_tid itup)) 13"
  by (simp add: ABTreeTupleIsPivot_def and_alt_zero and_posting_zero)

lemma IsPosting_bits: "ABTreeTupleIsPosting itup \<longleftrightarrow> bit (t_info itup) 13 \<and> bit (ip_posid (t_tid itup)) 13"
  by (simp add: ABTreeTupleIsPosting_def and_alt_zero and_posting_zero)

lemma not_pivot_if_posting [simp]: "ABTreeTupleIsPosting itup \<Longrightarrow> \<not> ABTreeTupleIsPivot itup"
  by (simp add: IsPivot_bits IsPosting_bits)

lemma SetPosting_IsPosting [simp]: "ABTreeTupleIsPosting (ABTreeTupleSetPosting itup n off)"
  by (simp add: IsPosting_bits ABTreeTupleSetPosting_def bit_or_iff)

lemma SetPosting_NPosting:
  assumes "n < 2 ^ 12"
  shows "ABTreeTupleGetNPosting (ABTreeTupleSetPosting itup n off) = n"
proof -
  have "(of_nat n OR ABT_IS_POSTING) AND ABT_OFFSET_MASK = (of_nat n :: 16 word)"
    using not_bit_of_nat [OF assms, where 'a = 16] by (auto simp: word_eq_bits bit_simps not_le) (meson not_le)
  with assms show ?thesis
    by (simp add: ABTreeTupleGetNPosting_def ABTreeTupleSetPosting_def unat_of_nat_small)
qed

lemma SetPosting_PostingOffset:
  "off < 2 ^ 32 \<Longrightarrow> ABTreeTupleGetPostingOffset (ABTreeTupleSetPosting itup n off) = off"
  by (simp add: ABTreeTupleGetPostingOffset_def ABTreeTupleSetPosting_def unat_of_nat_small)

lemma SetPosting_size [simp]:
  "IndexTupleSize (ABTreeTupleSetPosting itup n off) = IndexTupleSize itup"
proof -
  have "(t_info itup OR ABT_INDEX_ALT_TID_MASK) AND INDEX_SIZE_MASK = t_info itup AND INDEX_SIZE_MASK"
    by (auto simp: word_eq_bits bit_simps)
  then show ?thesis by (simp add: IndexTupleSize_def ABTreeTupleSetPosting_def)
qed

lemma set_tuple_size_size: "n < 2 ^ 13 \<Longrightarrow> IndexTupleSize (set_tuple_size n itup) = n"
proof -
  assume n: "n < 2 ^ 13"
  have "(t_info itup AND NOT INDEX_SIZE_MASK OR of_nat n) AND INDEX_SIZE_MASK = (of_nat n :: 16 word)"
    using not_bit_of_nat [OF n, where 'a = 16] by (auto simp: word_eq_bits bit_simps not_le) (meson not_le)
  with n show ?thesis
    by (simp add: IndexTupleSize_def set_tuple_size_def unat_of_nat_small)
qed

lemma set_tuple_size_kind [simp]:
  "n < 2 ^ 13 \<Longrightarrow> bit (t_info (set_tuple_size n itup)) 13 = bit (t_info itup) 13"
  using not_bit_of_nat [of n 13 13, where 'a = 16]
  by (auto simp: set_tuple_size_def bit_simps)

lemma tuple_header_updates [simp]:
  "ABTreeTupleIsPosting (t\<lparr>it_htids := h\<rparr>) = ABTreeTupleIsPosting t"
  "ABTreeTupleIsPosting (t\<lparr>it_aggs := g\<rparr>) = ABTreeTupleIsPosting t"
  "ABTreeTupleIsPosting (t\<lparr>it_xmins := x\<rparr>) = ABTreeTupleIsPosting t"
  "ABTreeTupleIsPivot (t\<lparr>it_htids := h\<rparr>) = ABTreeTupleIsPivot t"
  "ABTreeTupleIsPivot (t\<lparr>it_aggs := g\<rparr>) = ABTreeTupleIsPivot t"
  "ABTreeTupleIsPivot (t\<lparr>it_xmins := x\<rparr>) = ABTreeTupleIsPivot t"
  "ABTreeTupleGetNPosting (t\<lparr>it_htids := h\<rparr>) = ABTreeTupleGetNPosting t"
  "ABTreeTupleGetNPosting (t\<lparr>it_aggs := g\<rparr>) = ABTreeTupleGetNPosting t"
  "ABTreeTupleGetNPosting (t\<lparr>it_xmins := x\<rparr>) = ABTreeTupleGetNPosting t"
  "ABTreeTupleGetPostingOffset (t\<lparr>it_htids := h\<rparr>) = ABTreeTupleGetPostingOffset t"
  "ABTreeTupleGetPostingOffset (t\<lparr>it_aggs := g\<rparr>) = ABTreeTupleGetPostingOffset t"
  "ABTreeTupleGetPostingOffset (t\<lparr>it_xmins := x\<rparr>) = ABTreeTupleGetPostingOffset t"
  "IndexTupleSize (t\<lparr>it_htids := h\<rparr>) = IndexTupleSize t"
  "IndexTupleSize (t\<lparr>it_aggs := g\<rparr>) = IndexTupleSize t"
  "IndexTupleSize (t\<lparr>it_xmins := x\<rparr>) = IndexTupleSize t"
  by (simp_all add: IsPosting_bits IsPivot_bits ABTreeTupleGetNPosting_def
      ABTreeTupleGetPostingOffset_def IndexTupleSize_def)

lemma tuple_content_updates [simp]:
  "it_attrs (ABTreeTupleSetPosting t n off) = it_attrs t"
  "it_htids (ABTreeTupleSetPosting t n off) = it_htids t"
  "it_aggs (ABTreeTupleSetPosting t n off) = it_aggs t"
  "it_xmins (ABTreeTupleSetPosting t n off) = it_xmins t"
  "it_attrs (set_tuple_size sz t) = it_attrs t"
  "it_htids (set_tuple_size sz t) = it_htids t"
  "it_aggs (set_tuple_size sz t) = it_aggs t"
  "it_xmins (set_tuple_size sz t) = it_xmins t"
  "t_tid (set_tuple_size sz t) = t_tid t"
  "it_attrs (clear_alt_tid t) = it_attrs t"
  "it_htids (clear_alt_tid t) = it_htids t"
  "it_aggs (clear_alt_tid t) = it_aggs t"
  "it_xmins (clear_alt_tid t) = it_xmins t"
  by (simp_all add: ABTreeTupleSetPosting_def set_tuple_size_def clear_alt_tid_def)

lemma SetNAtts_IsPivot:
  "n < 2 ^ 12 \<Longrightarrow> ABTreeTupleIsPivot (ABTreeTupleSetNAtts itup n heaptid)"
  using not_bit_of_nat [of n 12 13, where 'a = 16]
  by (auto simp: IsPivot_bits ABTreeTupleSetNAtts_def bit_or_iff)

lemma SetNAtts_GetNAtts:
  assumes "n < 2 ^ 12"
  shows "ABTreeTupleGetNAtts natts (ABTreeTupleSetNAtts itup n heaptid) = n"
proof -
  have "(of_nat n OR ABT_PIVOT_HEAP_TID_ATTR) AND ABT_OFFSET_MASK = (of_nat n :: 16 word)"
    and "of_nat n AND ABT_OFFSET_MASK = (of_nat n :: 16 word)"
    using not_bit_of_nat [OF assms, where 'a = 16]
    by (auto simp: word_eq_bits bit_simps not_le) (meson not_le)+
  with assms SetNAtts_IsPivot [OF assms, of itup heaptid] show ?thesis
    by (simp add: ABTreeTupleGetNAtts_def ABTreeTupleSetNAtts_def unat_of_nat_small)
qed

lemma SetNAtts_HasHeapTID:
  "n < 2 ^ 12 \<Longrightarrow> ABTPivotTupleHasHeapTID (ABTreeTupleSetNAtts itup n heaptid) = heaptid"
  using not_bit_of_nat [of n 12 12, where 'a = 16]
  by (simp add: ABTPivotTupleHasHeapTID_def and_heap_tid_zero ABTreeTupleSetNAtts_def bit_or_iff)

lemma mask16_bits [simp]: "bit ABT_ITEMINDEX_OFFSET_MASK n \<longleftrightarrow> n < 16"
proof -
  have m: "ABT_ITEMINDEX_OFFSET_MASK = mask 16"
    by (simp add: ABT_ITEMINDEX_OFFSET_MASK_def mask_eq_exp_minus_1)
  show ?thesis unfolding m by (auto simp: bit_simps)
qed

lemma mask_hi16_bits [simp]: "bit ABT_ITEMINDEX_POSTING_OFF_MASK n \<longleftrightarrow> 16 \<le> n \<and> n < 32"
proof -
  have m: "ABT_ITEMINDEX_POSTING_OFF_MASK = push_bit 16 (mask 16)"
    by (simp add: ABT_ITEMINDEX_POSTING_OFF_MASK_def mask_eq_exp_minus_1 push_bit_eq_mult)
  show ?thesis unfolding m by (auto simp: bit_simps)
qed

lemma itemindex_offset_roundtrip:
  "ABT_ITEMINDEX_GET_OFFSET (ABT_OFFSET_GET_ITEMINDEX off) = ucast off"
  by (auto simp: ABT_ITEMINDEX_GET_OFFSET_def ABT_OFFSET_GET_ITEMINDEX_def word_eq_bits bit_simps
      dest: bit_imp_le_length)

text \<open>The mask is applied before the shift, so the posting offset never reaches the item index.\<close>

lemma itemindex_posting_off_lost:
  "ABT_OFFSET_AND_POSTING_OFF_GET_ITEMINDEX off posting_off = ABT_OFFSET_GET_ITEMINDEX off"
  by (auto simp: ABT_OFFSET_AND_POSTING_OFF_GET_ITEMINDEX_def word_eq_bits bit_simps)

text \<open>The reset test is made on the promoted value and never holds.\<close>

lemma advance_last_update_id_eq: "ABTAdvanceLastUpdateId x = x + 1"
proof -
  have "uint x + 1 \<noteq> 0" using uint_ge_0 [of x] by linarith
  then show ?thesis by (simp add: ABTAdvanceLastUpdateId_def)
qed

lemma advance_last_update_id_wraps:
  "ABTAdvanceLastUpdateId (- 1) = ABT_INVALID_LAST_UPDATE_ID"
  by (simp add: advance_last_update_id_eq ABT_INVALID_LAST_UPDATE_ID_def)

section \<open>Layout\<close>

lemma INTALIGN_ge: "n \<le> INTALIGN n"
  by (simp add: INTALIGN_def)

text \<open>In a plain leaf tuple the aggregation value ends before the xmin, which ends the tuple; in a
  pivot tuple it ends before the update id, which ends before the heap TID, if there is one.\<close>

lemma plain_tuple_layout:
  assumes ai: "ai = abt_compute_tuple_offsets ai0" and agg: "leaf_has_agg ai"
    and sz: "extra_space_for_nonpivot_tuple ai \<le> IndexTupleSize itup"
  shows "ABTreeNonPivotTupleGetAggPtr itup ai + agg_typlen ai \<le> ABTreeNonPivotTupleGetXminPtr itup
    \<and> ABTreeNonPivotTupleGetXminPtr itup + 4 = IndexTupleSize itup"
proof -
  have "agg_typlen ai + 4 \<le> extra_space_for_nonpivot_tuple ai"
    using ai agg INTALIGN_ge [of "agg_typlen ai0"] MAXALIGN_ge [of "INTALIGN (agg_typlen ai0) + 4"]
    by (simp add: abt_compute_tuple_offsets_def Let_def)
  with sz show ?thesis
    by (simp add: ABTreeNonPivotTupleGetAggPtr_def ABTreeNonPivotTupleGetXminPtr_def)
qed

lemma pivot_tuple_layout:
  assumes ai: "ai = abt_compute_tuple_offsets ai0"
    and sz: "extra_space_when_tid_present ai \<le> IndexTupleSize itup"
  shows "ABTreePivotTupleGetAggPtr itup ai + agg_typlen ai \<le> ABTreeTupleGetLastUpdateIdPtr itup
    \<and> ABTreeTupleGetLastUpdateIdPtr itup + 2 + (if ABTPivotTupleHasHeapTID itup then 6 else 0)
        = IndexTupleSize itup"
proof -
  have "agg_typlen ai + 8 \<le> extra_space_when_tid_present ai"
    "agg_typlen ai + 2 \<le> extra_space_when_tid_missing ai"
    "extra_space_when_tid_missing ai \<le> extra_space_when_tid_present ai"
    using ai INTALIGN_ge [of "agg_typlen ai0"] MAXALIGN_ge [of "INTALIGN (agg_typlen ai0) + 2"]
      MAXALIGN_ge [of "8 + INTALIGN (agg_typlen ai0)"]
      MAXALIGN_mono [of "INTALIGN (agg_typlen ai0) + 2" "8 + INTALIGN (agg_typlen ai0)"]
    by (simp_all add: abt_compute_tuple_offsets_def Let_def SHORTALIGN_def)
  with sz show ?thesis
    unfolding ABTreePivotTupleGetAggPtr_def ABTreeTupleGetLastUpdateIdPtr_def
    by (cases "ABTPivotTupleHasHeapTID itup") (simp_all only: if_True if_False, linarith+)
qed

section \<open>Properties\<close>

text \<open>
  C37. Header round trips. Marking a tuple as a posting list tuple with fewer than 4096 heap TIDs
  and an offset that fits its 32-bit field is read back exactly (kind, count, offset, and the tuple
  size is untouched); marking it as a pivot tuple is read back exactly (kind, number of attributes,
  presence of a heap TID). No tuple is both.
\<close>

theorem tuple_header_roundtrip:
  assumes "n < 2 ^ 12" and "off < 2 ^ 32"
  shows "ABTreeTupleIsPosting (ABTreeTupleSetPosting itup n off)
    \<and> \<not> ABTreeTupleIsPivot (ABTreeTupleSetPosting itup n off)
    \<and> ABTreeTupleGetNPosting (ABTreeTupleSetPosting itup n off) = n
    \<and> ABTreeTupleGetPostingOffset (ABTreeTupleSetPosting itup n off) = off
    \<and> IndexTupleSize (ABTreeTupleSetPosting itup n off) = IndexTupleSize itup
    \<and> ABTreeTupleIsPivot (ABTreeTupleSetNAtts itup n heaptid)
    \<and> ABTreeTupleGetNAtts natts (ABTreeTupleSetNAtts itup n heaptid) = n
    \<and> ABTPivotTupleHasHeapTID (ABTreeTupleSetNAtts itup n heaptid) = heaptid
    \<and> ABTreeTupleGetDownLink (ABTreeTupleSetNAtts itup n heaptid) = ABTreeTupleGetDownLink itup"
proof -
  have "ABTreeTupleGetDownLink (ABTreeTupleSetNAtts itup n heaptid) = ABTreeTupleGetDownLink itup"
    by (simp add: ABTreeTupleGetDownLink_def ABTreeTupleSetNAtts_def)
  with assms show ?thesis
    by (simp add: SetPosting_NPosting SetPosting_PostingOffset SetNAtts_IsPivot SetNAtts_GetNAtts
        SetNAtts_HasHeapTID)
qed

theorem tuple_header_roundtrip_witness:
  "ABTreeTupleGetNPosting (ABTreeTupleSetPosting
     \<lparr>t_tid = ItemPointer 1 1, t_info = 24, it_attrs = [], it_htids = [], it_aggs = [], it_xmins = [],
      it_last_update_id = 0, it_pivot_tid = None\<rparr> 3 24) = 3"
  using tuple_header_roundtrip [of 3 24] by simp

text \<open>
  C38. The item index of an item inside a posting list does not contain its position in the list:
  it equals the item index of the whole tuple, so the position read back is always zero.
\<close>

theorem itemindex_loses_posting_off:
  "ABT_OFFSET_AND_POSTING_OFF_GET_ITEMINDEX off posting_off = ABT_OFFSET_GET_ITEMINDEX off
   \<and> ABT_ITEMINDEX_GET_OFFSET (ABT_OFFSET_AND_POSTING_OFF_GET_ITEMINDEX off posting_off) = ucast off
   \<and> ABT_ITEMINDEX_GET_POSTING_OFF (ABT_OFFSET_AND_POSTING_OFF_GET_ITEMINDEX off posting_off) = 0"
proof -
  have "ABT_ITEMINDEX_GET_POSTING_OFF (ABT_OFFSET_GET_ITEMINDEX off) = 0"
    by (auto simp: ABT_ITEMINDEX_GET_POSTING_OFF_def ABT_OFFSET_GET_ITEMINDEX_def word_eq_bits bit_simps
        dest: bit_imp_le_length)
  then show ?thesis by (simp add: itemindex_posting_off_lost itemindex_offset_roundtrip)
qed

end
