(* ===== verification/Page.thy ===== *)
theory Page
  imports Tuple
begin

unbundle bit_operations_syntax

text \<open>
  Pages of the AB-tree: the line pointer array with its tuples, the special area of
  \<^verbatim>\<open>abtree.h\<close>, and the page routines of \<^verbatim>\<open>src/backend/storage/page/bufpage.c\<close> that the tree
  calls. All routines that remove or replace items keep the storage compact, so the upper bound
  of the free space is determined by the line pointers and is computed from them.
\<close>

section \<open>Special area\<close>

record ABTPageOpaqueData =
  abtpo_prev :: BlockNumber
  abtpo_next :: BlockNumber
  abtpo_level :: "32 word"
  abtpo_flags :: "16 word"
  abtpo_cycleid :: "16 word"
  abtpo_last_update_id :: "16 word"

definition ABTP_NONE :: BlockNumber where
  "ABTP_NONE = 0"

definition ABTP_LEAF :: "16 word" where "ABTP_LEAF = 1"
definition ABTP_ROOT :: "16 word" where "ABTP_ROOT = 2"
definition ABTP_DELETED :: "16 word" where "ABTP_DELETED = 4"
definition ABTP_HALF_DEAD :: "16 word" where "ABTP_HALF_DEAD = 16"
definition ABTP_HAS_GARBAGE :: "16 word" where "ABTP_HAS_GARBAGE = 64"
definition ABTP_INCOMPLETE_SPLIT :: "16 word" where "ABTP_INCOMPLETE_SPLIT = 128"
definition ABTP_HAD_GARBAGE_REMOVED :: "16 word" where "ABTP_HAD_GARBAGE_REMOVED = 256"

definition ABT_P_LEFTMOST :: "ABTPageOpaqueData \<Rightarrow> bool" where
  "ABT_P_LEFTMOST opq = (abtpo_prev opq = ABTP_NONE)"

definition ABT_P_RIGHTMOST :: "ABTPageOpaqueData \<Rightarrow> bool" where
  "ABT_P_RIGHTMOST opq = (abtpo_next opq = ABTP_NONE)"

definition ABT_P_ISLEAF :: "ABTPageOpaqueData \<Rightarrow> bool" where
  "ABT_P_ISLEAF opq = (abtpo_flags opq AND ABTP_LEAF \<noteq> 0)"

definition ABT_P_IGNORE :: "ABTPageOpaqueData \<Rightarrow> bool" where
  "ABT_P_IGNORE opq = (abtpo_flags opq AND (ABTP_DELETED OR ABTP_HALF_DEAD) \<noteq> 0)"

definition ABT_P_HAS_GARBAGE :: "ABTPageOpaqueData \<Rightarrow> bool" where
  "ABT_P_HAS_GARBAGE opq = (abtpo_flags opq AND ABTP_HAS_GARBAGE \<noteq> 0)"

definition ABT_P_INCOMPLETE_SPLIT :: "ABTPageOpaqueData \<Rightarrow> bool" where
  "ABT_P_INCOMPLETE_SPLIT opq = (abtpo_flags opq AND ABTP_INCOMPLETE_SPLIT \<noteq> 0)"

definition ABTP_HIKEY :: nat where "ABTP_HIKEY = 1"
definition ABTP_FIRSTKEY :: nat where "ABTP_FIRSTKEY = 2"

definition ABT_P_FIRSTDATAKEY :: "ABTPageOpaqueData \<Rightarrow> nat" where
  "ABT_P_FIRSTDATAKEY opq = (if ABT_P_RIGHTMOST opq then ABTP_HIKEY else ABTP_FIRSTKEY)"

section \<open>Pages and their routines\<close>

record PageItem =
  lp_dead :: bool
  lp_len :: nat
  pi_tup :: IndexTupleData

record PageData =
  pd_linp :: "PageItem list"
  pd_special :: ABTPageOpaqueData

definition BLCKSZ :: nat where "BLCKSZ = 8192"
definition SizeOfPageHeaderData :: nat where "SizeOfPageHeaderData = 24"
definition sizeof_ItemIdData :: nat where "sizeof_ItemIdData = 4"
definition sizeof_ItemPointerData :: nat where "sizeof_ItemPointerData = 6"
definition sizeof_TransactionId :: nat where "sizeof_TransactionId = 4"
definition sizeof_ABTPageOpaqueData :: nat where "sizeof_ABTPageOpaqueData = 24"

lemmas size_defs = BLCKSZ_def SizeOfPageHeaderData_def sizeof_ItemIdData_def
  sizeof_ItemPointerData_def sizeof_TransactionId_def sizeof_ABTPageOpaqueData_def

definition PageGetMaxOffsetNumber :: "PageData \<Rightarrow> nat" where
  "PageGetMaxOffsetNumber page = length (pd_linp page)"

definition PageGetItemId :: "PageData \<Rightarrow> nat \<Rightarrow> PageItem" where
  "PageGetItemId page offnum = pd_linp page ! (offnum - 1)"

definition PageGetItem :: "PageData \<Rightarrow> nat \<Rightarrow> IndexTupleData" where
  "PageGetItem page offnum = pi_tup (PageGetItemId page offnum)"

definition pd_lower :: "PageData \<Rightarrow> int" where
  "pd_lower page = int (SizeOfPageHeaderData + length (pd_linp page) * sizeof_ItemIdData)"

definition pd_upper :: "PageData \<Rightarrow> int" where
  "pd_upper page = int (BLCKSZ - MAXALIGN sizeof_ABTPageOpaqueData)
     - int (\<Sum>it\<leftarrow>pd_linp page. MAXALIGN (lp_len it))"

lemma pd_upper_code [code]: "pd_upper page = 8168 - int (\<Sum>it\<leftarrow>pd_linp page. MAXALIGN (lp_len it))"
  by (simp add: pd_upper_def size_defs MAXALIGN_def)

definition PageGetFreeSpace :: "PageData \<Rightarrow> nat" where
  "PageGetFreeSpace page =
     (let space = pd_upper page - pd_lower page
      in if space < int sizeof_ItemIdData then 0 else nat (space - int sizeof_ItemIdData))"

definition PageGetExactFreeSpace :: "PageData \<Rightarrow> nat" where
  "PageGetExactFreeSpace page =
     (let space = pd_upper page - pd_lower page in if space < 0 then 0 else nat space)"

text \<open>Insertion at a line pointer, shifting the later ones; \<open>None\<close> when the offset is too large or
  the item does not fit. With the invalid offset 0 the item takes the first free slot, which is the
  one after the last line pointer, since the line pointers of an index page are all in use.\<close>

definition PageAddItem :: "PageData \<Rightarrow> IndexTupleData \<Rightarrow> nat \<Rightarrow> nat \<Rightarrow> PageData option" where
  "PageAddItem page item sz offsetNumber =
     (let limit = PageGetMaxOffsetNumber page + 1;
          offsetNumber = (if offsetNumber \<noteq> 0 then offsetNumber else limit)
      in if offsetNumber > limit then None
         else
           let lower = pd_lower page + int sizeof_ItemIdData;
               upper = pd_upper page - int (MAXALIGN sz)
           in if lower > upper then None
              else Some (page\<lparr>pd_linp := take (offsetNumber - 1) (pd_linp page)
                     @ [\<lparr>lp_dead = False, lp_len = sz, pi_tup = item\<rparr>]
                     @ drop (offsetNumber - 1) (pd_linp page)\<rparr>))"

definition PageIndexTupleDelete :: "PageData \<Rightarrow> nat \<Rightarrow> PageData option" where
  "PageIndexTupleDelete page offnum =
     (if offnum = 0 \<or> PageGetMaxOffsetNumber page < offnum then None
      else Some (page\<lparr>pd_linp := take (offnum - 1) (pd_linp page) @ drop offnum (pd_linp page)\<rparr>))"

text \<open>Deletion of the items with the given offset numbers: one or two of them one after the other
  from the last one, more of them in one scan, which fails when they are not in order.\<close>

fun delete_retail :: "nat list \<Rightarrow> PageData \<Rightarrow> PageData option" where
  "delete_retail [] page = Some page"
| "delete_retail (n # ns) page =
     (case delete_retail ns page of None \<Rightarrow> None | Some page' \<Rightarrow> PageIndexTupleDelete page' n)"

fun multi_delete :: "nat \<Rightarrow> PageItem list \<Rightarrow> nat list \<Rightarrow> PageItem list option" where
  "multi_delete offnum [] itemnos = (if itemnos = [] then Some [] else None)"
| "multi_delete offnum (lp # lps) itemnos =
     (case itemnos of
        [] \<Rightarrow> Some (lp # lps)
      | n # ns \<Rightarrow>
          if offnum = n then multi_delete (offnum + 1) lps ns
          else map_option (\<lambda>r. lp # r) (multi_delete (offnum + 1) lps itemnos))"

definition PageIndexMultiDelete :: "PageData \<Rightarrow> nat list \<Rightarrow> PageData option" where
  "PageIndexMultiDelete page itemnos =
     (if length itemnos \<le> 2 then delete_retail itemnos page
      else map_option (\<lambda>r. page\<lparr>pd_linp := r\<rparr>) (multi_delete 1 (pd_linp page) itemnos))"

definition PageIndexTupleOverwrite ::
  "PageData \<Rightarrow> nat \<Rightarrow> IndexTupleData \<Rightarrow> nat \<Rightarrow> PageData option" where
  "PageIndexTupleOverwrite page offnum newtup newsize =
     (if offnum = 0 \<or> PageGetMaxOffsetNumber page < offnum then None
      else
        let tupid = PageGetItemId page offnum
        in if int (MAXALIGN newsize) > int (MAXALIGN (lp_len tupid)) + (pd_upper page - pd_lower page)
           then None
           else Some (page\<lparr>pd_linp := (pd_linp page)
                  [offnum - 1 := tupid\<lparr>lp_len := newsize, pi_tup := newtup\<rparr>]\<rparr>))"

text \<open>A temporary page with the same special area and no items.\<close>

definition PageGetTempPageCopySpecial :: "PageData \<Rightarrow> PageData" where
  "PageGetTempPageCopySpecial page = page\<lparr>pd_linp := []\<rparr>"

text \<open>Limits on the size of an item.\<close>

definition ABTMaxItemSize :: "ABTCachedAggInfo \<Rightarrow> nat" where
  "ABTMaxItemSize agg_info =
     MAXALIGN_DOWN ((BLCKSZ - MAXALIGN SizeOfPageHeaderData - MAXALIGN (3 * sizeof_ItemIdData)
       - 3 * extra_space_when_tid_present agg_info - MAXALIGN sizeof_ABTPageOpaqueData) div 3)"

definition ABTMaxItemSizeNoHeapTid :: nat where
  "ABTMaxItemSizeNoHeapTid =
     MAXALIGN_DOWN ((BLCKSZ - MAXALIGN SizeOfPageHeaderData - 3 * MAXALIGN sizeof_ItemIdData
       - MAXALIGN sizeof_ABTPageOpaqueData) div 3)"

text \<open>Whether \<^verbatim>\<open>_abt_check_third_page\<close> returns, and does not raise an error.\<close>

definition abt_check_third_page :: "PageData \<Rightarrow> IndexTupleData \<Rightarrow> ABTCachedAggInfo \<Rightarrow> bool" where
  "abt_check_third_page page newtup agg_info =
     (let itemsz = MAXALIGN (IndexTupleSize newtup)
      in if \<not> ABT_P_ISLEAF (pd_special page) then itemsz \<le> ABTMaxItemSizeNoHeapTid
         else (if leaf_has_agg agg_info then MAXALIGN (sub64 itemsz (extra_space_when_tid_missing agg_info))
               else itemsz) \<le> ABTMaxItemSize agg_info)"

section \<open>Facts\<close>

lemma PageAddItem_append:
  assumes "PageAddItem page item sz (PageGetMaxOffsetNumber page + 1) = Some page'"
  shows "page' = page\<lparr>pd_linp := pd_linp page @ [\<lparr>lp_dead = False, lp_len = sz, pi_tup = item\<rparr>]\<rparr>"
  using assms by (auto simp: PageAddItem_def PageGetMaxOffsetNumber_def Let_def split: if_splits)

text \<open>Deleting the items that are marked dead leaves the others, in their order.\<close>

fun dead_offsets :: "nat \<Rightarrow> PageItem list \<Rightarrow> nat list" where
  "dead_offsets offnum [] = []"
| "dead_offsets offnum (lp # lps) =
     (if lp_dead lp then offnum # dead_offsets (offnum + 1) lps else dead_offsets (offnum + 1) lps)"

lemma dead_offsets_ge: "n \<in> set (dead_offsets offnum lps) \<Longrightarrow> offnum \<le> n"
  by (induction lps arbitrary: offnum) (auto split: if_splits dest: Suc_leD)

lemma multi_delete_nil [simp]: "multi_delete offnum lps [] = Some lps"
  by (cases lps) simp_all

lemma multi_delete_skip:
  assumes "\<And>n. n \<in> set ns \<Longrightarrow> offnum < n"
  shows "multi_delete offnum (lp # lps) ns
      = map_option (\<lambda>r. lp # r) (multi_delete (offnum + 1) lps ns)"
  using assms by (cases ns) auto

lemma multi_delete_prefix:
  assumes "\<forall>n\<in>set ns. offnum + j \<le> n" and "j \<le> length lps"
  shows "multi_delete offnum lps ns = map_option (\<lambda>r. take j lps @ r) (multi_delete (offnum + j) (drop j lps) ns)"
  using assms
proof (induction j arbitrary: offnum lps)
  case 0
  show ?case by (simp add: map_option.id [unfolded id_def])
next
  case (Suc j)
  then obtain lp lps' where lps: "lps = lp # lps'" by (cases lps) auto
  have "multi_delete offnum lps ns = map_option (\<lambda>r. lp # r) (multi_delete (offnum + 1) lps' ns)"
    unfolding lps by (rule multi_delete_skip) (use Suc.prems(1) in fastforce)
  also have "multi_delete (offnum + 1) lps' ns
      = map_option (\<lambda>r. take j lps' @ r) (multi_delete (offnum + 1 + j) (drop j lps') ns)"
    using Suc.prems by (intro Suc.IH) (simp_all add: lps)
  finally show ?case by (simp add: lps option.map_comp comp_def)
qed

lemma multi_delete_outside: "offnum + length lps \<le> n \<Longrightarrow> multi_delete offnum lps (n # ns) = None"
  by (induction lps arbitrary: offnum) simp_all

lemma delete_retail_multi:
  assumes "sorted_wrt (<) ns" and "\<forall>n\<in>set ns. 1 \<le> n"
  shows "delete_retail ns page = map_option (\<lambda>r. page\<lparr>pd_linp := r\<rparr>) (multi_delete 1 (pd_linp page) ns)"
  using assms
proof (induction ns)
  case Nil
  show ?case by simp
next
  case (Cons n ns)
  let ?lps = "pd_linp page"
  have IH: "delete_retail ns page = map_option (\<lambda>r. page\<lparr>pd_linp := r\<rparr>) (multi_delete 1 ?lps ns)"
    using Cons.prems by (intro Cons.IH) simp_all
  have n: "1 \<le> n" and ns: "\<forall>m\<in>set ns. 1 + n \<le> m" using Cons.prems by auto
  show ?case
  proof (cases "n \<le> length ?lps")
    case True
    define D where "D = multi_delete (1 + n) (drop n ?lps) ns"
    have "multi_delete 1 ?lps ns = map_option (\<lambda>r. take n ?lps @ r) D"
      unfolding D_def by (rule multi_delete_prefix [OF ns True])
    moreover have "multi_delete 1 ?lps (n # ns) = map_option (\<lambda>r. take (n - 1) ?lps @ r) D"
    proof -
      have "multi_delete 1 ?lps (n # ns)
          = map_option (\<lambda>r. take (n - 1) ?lps @ r) (multi_delete (1 + (n - 1)) (drop (n - 1) ?lps) (n # ns))"
        using n ns True by (intro multi_delete_prefix) auto
      moreover have "drop (n - 1) ?lps = ?lps ! (n - 1) # drop n ?lps"
        using Cons_nth_drop_Suc [of "n - 1" ?lps] n True by simp
      ultimately show ?thesis using n by (simp add: D_def)
    qed
    ultimately show ?thesis
      using n True IH by (cases D) (simp_all add: PageIndexTupleDelete_def PageGetMaxOffsetNumber_def min_def)
  next
    case False
    then have "multi_delete 1 ?lps (n # ns) = None" by (intro multi_delete_outside) simp
    moreover have "multi_delete 1 ?lps ns = (if ns = [] then Some ?lps else None)"
      using False ns by (cases ns) (simp_all add: multi_delete_outside)
    ultimately show ?thesis
      using False IH by (simp add: PageIndexTupleDelete_def PageGetMaxOffsetNumber_def)
  qed
qed

lemma PageIndexMultiDelete_sorted:
  assumes "sorted_wrt (<) ns" and "\<forall>n\<in>set ns. 1 \<le> n"
  shows "PageIndexMultiDelete page ns = map_option (\<lambda>r. page\<lparr>pd_linp := r\<rparr>) (multi_delete 1 (pd_linp page) ns)"
  using delete_retail_multi [OF assms] by (simp add: PageIndexMultiDelete_def)

lemma dead_offsets_sorted: "sorted_wrt (<) (dead_offsets offnum lps)"
  by (induction lps arbitrary: offnum) (auto dest: dead_offsets_ge)

lemma multi_delete_dead:
  "multi_delete offnum lps (dead_offsets offnum lps) = Some (filter (\<lambda>lp. \<not> lp_dead lp) lps)"
proof (induction lps arbitrary: offnum)
  case (Cons lp lps)
  show ?case
  proof (cases "lp_dead lp")
    case False
    have "multi_delete offnum (lp # lps) (dead_offsets (offnum + 1) lps)
        = map_option (\<lambda>r. lp # r) (multi_delete (offnum + 1) lps (dead_offsets (offnum + 1) lps))"
      by (rule multi_delete_skip) (auto dest: dead_offsets_ge)
    with False Cons.IH show ?thesis by simp
  qed (simp add: Cons.IH)
qed simp

end
