(* ===== verification/Posting.thy ===== *)
theory Posting
  imports Page
begin

unbundle bit_operations_syntax

text \<open>
  Leaf tuples and posting lists: the attribute comparison of
  \<^verbatim>\<open>src/backend/access/abtree/abtutils.c\<close> and the posting list routines of \<^verbatim>\<open>abtdedup.c\<close>
  (form, update, swap, validity). The entries of a tuple are the (key, heap TID, aggregate, xmin)
  quadruples it stands for; the routines are specified by their effect on them.
\<close>

section \<open>Comparison of attributes\<close>

definition index_getattr :: "IndexTupleData \<Rightarrow> nat \<Rightarrow> Datum option" where
  "index_getattr itup attnum =
     (if attnum = 0 \<or> length (it_attrs itup) < attnum then None else it_attrs itup ! (attnum - 1))"

fun keep_natts_fast_loop :: "IndexTupleData \<Rightarrow> IndexTupleData \<Rightarrow> nat list \<Rightarrow> nat \<Rightarrow> nat" where
  "keep_natts_fast_loop lastleft firstright [] keepnatts = keepnatts"
| "keep_natts_fast_loop lastleft firstright (attnum # attnums) keepnatts =
     (let datum1 = index_getattr lastleft attnum;
          datum2 = index_getattr firstright attnum
      in if (datum1 = None) \<noteq> (datum2 = None) then keepnatts
         else if datum1 \<noteq> None \<and> datum1 \<noteq> datum2 then keepnatts
         else keep_natts_fast_loop lastleft firstright attnums (keepnatts + 1))"

definition abt_keep_natts_fast :: "nat \<Rightarrow> IndexTupleData \<Rightarrow> IndexTupleData \<Rightarrow> nat" where
  "abt_keep_natts_fast keysz lastleft firstright =
     keep_natts_fast_loop lastleft firstright [1..<Suc keysz] 1"

section \<open>Posting lists\<close>

definition posting_size :: "ABTCachedAggInfo \<Rightarrow> nat \<Rightarrow> nat \<Rightarrow> nat" where
  "posting_size agg_info keysize nhtids =
     MAXALIGN (keysize + nhtids * sizeof_ItemPointerData)
     + (if leaf_has_agg agg_info then MAXALIGN (agg_stride agg_info * nhtids) else 0)
     + MAXALIGN (sizeof_TransactionId * nhtids)"

text \<open>Memory from \<^verbatim>\<open>palloc0\<close> is zero, so the aggregation values and xmins of the new tuple, which
  the callers fill in, are zero at first.\<close>

definition abt_form_posting ::
  "IndexTupleData \<Rightarrow> ItemPointerData list \<Rightarrow> ABTCachedAggInfo \<Rightarrow> IndexTupleData" where
  "abt_form_posting base htids agg_info =
     (let nhtids = length htids;
          keysize = (if ABTreeTupleIsPosting base then ABTreeTupleGetPostingOffset base
                     else IndexTupleSize base);
          newsize = (if nhtids > 1 then posting_size agg_info keysize nhtids
                     else keysize + extra_space_for_nonpivot_tuple agg_info);
          itup = set_tuple_size newsize
                   (base\<lparr>it_htids := [],
                         it_aggs := replicate (if leaf_has_agg agg_info then nhtids else 0) 0,
                         it_xmins := replicate nhtids 0\<rparr>)
      in if nhtids > 1 then (ABTreeTupleSetPosting itup nhtids keysize)\<lparr>it_htids := htids\<rparr>
         else (clear_alt_tid itup)\<lparr>t_tid := htids ! 0\<rparr>)"

record ABTVacuumPosting =
  vp_itup :: IndexTupleData
  vp_updatedoffset :: nat
  vp_deletetids :: "nat list"

text \<open>The loop of \<^verbatim>\<open>_abt_update_posting\<close> over the positions of the old posting list, giving the
  positions that are kept.\<close>

fun update_posting_keep :: "nat list \<Rightarrow> nat list \<Rightarrow> nat list" where
  "update_posting_keep [] deletetids = []"
| "update_posting_keep (i # is) deletetids =
     (if deletetids \<noteq> [] \<and> hd deletetids = i then update_posting_keep is (tl deletetids)
      else i # update_posting_keep is deletetids)"

definition abt_update_posting :: "ABTVacuumPosting \<Rightarrow> ABTCachedAggInfo \<Rightarrow> ABTVacuumPosting" where
  "abt_update_posting vacposting agg_info =
     (let origtuple = vp_itup vacposting;
          norig = ABTreeTupleGetNPosting origtuple;
          nhtids = norig - length (vp_deletetids vacposting);
          keysize = ABTreeTupleGetPostingOffset origtuple;
          newsize = (if nhtids > 1 then posting_size agg_info keysize nhtids
                     else keysize + extra_space_for_nonpivot_tuple agg_info);
          kept = update_posting_keep [0..<norig] (vp_deletetids vacposting);
          htids = map (\<lambda>i. ABTreeTupleGetPostingN origtuple i) kept;
          itup = set_tuple_size newsize
                   (origtuple\<lparr>it_htids := [],
                      it_aggs := (if leaf_has_agg agg_info then map (\<lambda>i. it_aggs origtuple ! i) kept
                                  else []),
                      it_xmins := map (\<lambda>i. it_xmins origtuple ! i) kept\<rparr>);
          itup' = (if nhtids > 1 then (ABTreeTupleSetPosting itup nhtids keysize)\<lparr>it_htids := htids\<rparr>
                   else (clear_alt_tid itup)\<lparr>t_tid := htids ! 0\<rparr>)
      in vacposting\<lparr>vp_itup := itup'\<rparr>)"

text \<open>\<^verbatim>\<open>memmove\<close> of the entries from \<open>pos\<close> on one place to the right, losing the last one, and the
  store of \<open>x\<close> in the gap.\<close>

definition shift_in :: "nat \<Rightarrow> 'a \<Rightarrow> 'a list \<Rightarrow> 'a list" where
  "shift_in pos x xs = take pos xs @ [x] @ take (length xs - pos - 1) (drop pos xs)"

definition abt_swap_posting ::
  "IndexTupleData \<Rightarrow> IndexTupleData \<Rightarrow> nat \<Rightarrow> ABTCachedAggInfo
     \<Rightarrow> IndexTupleData \<times> IndexTupleData" where
  "abt_swap_posting newitem oposting postingoff agg_info =
     (let nhtids = ABTreeTupleGetNPosting oposting;
          nposting = oposting\<lparr>it_htids := shift_in postingoff (t_tid newitem) (it_htids oposting)\<rparr>;
          newitem1 = newitem\<lparr>t_tid := ABTreeTupleGetMaxHeapTID oposting\<rparr>;
          (nposting2, newitem2) =
            (if leaf_has_agg agg_info then
               (nposting\<lparr>it_aggs := shift_in postingoff (it_aggs newitem1 ! 0) (it_aggs oposting)\<rparr>,
                newitem1\<lparr>it_aggs := [it_aggs oposting ! (nhtids - 1)]\<rparr>)
             else (nposting, newitem1));
          nposting3 = nposting2\<lparr>it_xmins :=
                        shift_in postingoff (it_xmins newitem2 ! 0) (it_xmins oposting)\<rparr>;
          newitem3 = newitem2\<lparr>it_xmins := [it_xmins oposting ! postingoff]\<rparr>
      in (nposting3, newitem3))"

fun posting_valid_loop :: "ItemPointerData \<Rightarrow> ItemPointerData list \<Rightarrow> bool" where
  "posting_valid_loop lasttid [] = True"
| "posting_valid_loop lasttid (htid # htids) =
     (if \<not> ItemPointerIsValid htid then False
      else if ItemPointerCompare htid lasttid \<le> 0 then False
      else posting_valid_loop htid htids)"

definition abt_posting_valid :: "IndexTupleData \<Rightarrow> bool" where
  "abt_posting_valid posting =
     (if \<not> ABTreeTupleIsPosting posting \<or> ABTreeTupleGetNPosting posting < 2 then False
      else
        let lasttid = ABTreeTupleGetPostingN posting 0
        in if \<not> ItemPointerIsValid lasttid then False
           else posting_valid_loop lasttid
                  (map (ABTreeTupleGetPostingN posting) [1..<ABTreeTupleGetNPosting posting]))"

section \<open>Entries and well-formedness\<close>

definition mk_entries ::
  "Datum option list \<Rightarrow> ItemPointerData list \<Rightarrow> Datum list \<Rightarrow> TransactionId list
     \<Rightarrow> (Datum option list \<times> ItemPointerData \<times> Datum option \<times> TransactionId) list" where
  "mk_entries attrs tids aggs xmins =
     map (\<lambda>i. (attrs, tids ! i, if aggs = [] then None else Some (aggs ! i), xmins ! i))
       [0..<length tids]"

definition tuple_tids :: "IndexTupleData \<Rightarrow> ItemPointerData list" where
  "tuple_tids itup = (if ABTreeTupleIsPosting itup then it_htids itup else [t_tid itup])"

definition tuple_entries ::
  "IndexTupleData \<Rightarrow> (Datum option list \<times> ItemPointerData \<times> Datum option \<times> TransactionId) list" where
  "tuple_entries itup = mk_entries (it_attrs itup) (tuple_tids itup) (it_aggs itup) (it_xmins itup)"

definition wf_leaf_tuple :: "nat \<Rightarrow> ABTCachedAggInfo \<Rightarrow> IndexTupleData \<Rightarrow> bool" where
  "wf_leaf_tuple nkeyatts agg_info itup =
     (\<not> ABTreeTupleIsPivot itup \<and> length (it_attrs itup) = nkeyatts
      \<and> length (it_xmins itup) = length (tuple_tids itup)
      \<and> length (it_aggs itup) = (if leaf_has_agg agg_info then length (tuple_tids itup) else 0)
      \<and> (if ABTreeTupleIsPosting itup then
           length (it_htids itup) = ABTreeTupleGetNPosting itup
           \<and> 2 \<le> ABTreeTupleGetNPosting itup
           \<and> ABTreeTupleGetPostingOffset itup mod 8 = 0
           \<and> IndexTupleSize itup
               = posting_size agg_info (ABTreeTupleGetPostingOffset itup) (ABTreeTupleGetNPosting itup)
         else
           it_htids itup = [] \<and> IndexTupleSize itup mod 8 = 0
           \<and> extra_space_for_nonpivot_tuple agg_info \<le> IndexTupleSize itup))"

lemma length_mk_entries [simp]: "length (mk_entries a t g x) = length t"
  by (simp add: mk_entries_def)

lemma mk_entries_append:
  assumes "length x1 = length t1" and "length g1 = (if b then length t1 else 0)"
    and "length g2 = (if b then length t2 else 0)"
  shows "mk_entries a (t1 @ t2) (g1 @ g2) (x1 @ x2) = mk_entries a t1 g1 x1 @ mk_entries a t2 g2 x2"
proof (rule nth_equalityI)
  fix i
  assume "i < length (mk_entries a (t1 @ t2) (g1 @ g2) (x1 @ x2))"
  with assms show "mk_entries a (t1 @ t2) (g1 @ g2) (x1 @ x2) ! i
      = (mk_entries a t1 g1 x1 @ mk_entries a t2 g2 x2) ! i"
    by (auto simp: mk_entries_def nth_append split: if_splits)
qed (simp add: mk_entries_def)

lemma wf_tuple_tids_nonempty: "wf_leaf_tuple nk ai itup \<Longrightarrow> tuple_tids itup \<noteq> []"
  by (auto simp: wf_leaf_tuple_def tuple_tids_def split: if_splits)

lemma wf_leaf_tupleD:
  assumes "wf_leaf_tuple nk ai itup"
  shows "length (it_attrs itup) = nk" "length (it_xmins itup) = length (tuple_tids itup)"
    "length (it_aggs itup) = (if leaf_has_agg ai then length (tuple_tids itup) else 0)"
    "\<not> ABTreeTupleIsPivot itup"
    "ABTreeTupleIsPosting itup \<Longrightarrow> length (tuple_tids itup) = ABTreeTupleGetNPosting itup"
    "ABTreeTupleIsPosting itup \<Longrightarrow> it_htids itup = tuple_tids itup"
    "\<not> ABTreeTupleIsPosting itup \<Longrightarrow> tuple_tids itup = [t_tid itup]"
  using assms by (auto simp: wf_leaf_tuple_def tuple_tids_def)

section \<open>Attribute comparison\<close>

lemma keep_natts_fast_loop_le: "keep_natts_fast_loop l r as n \<le> n + length as"
  by (induction l r as n rule: keep_natts_fast_loop.induct) (auto simp: Let_def split: if_splits)

lemma keep_natts_fast_loop_all:
  "n + length as \<le> keep_natts_fast_loop l r as n
     \<longleftrightarrow> (\<forall>a\<in>set as. index_getattr l a = index_getattr r a)"
proof (induction l r as n rule: keep_natts_fast_loop.induct)
  case (2 l r a as n)
  show ?case
  proof (cases "index_getattr l a = index_getattr r a")
    case True
    with 2 show ?thesis by (auto simp: Let_def)
  next
    case False
    then show ?thesis by (cases "index_getattr l a"; cases "index_getattr r a") (auto simp: Let_def)
  qed
qed simp

lemma keep_natts_fast_all:
  "keysz < abt_keep_natts_fast keysz l r
     \<longleftrightarrow> (\<forall>a\<in>{1..keysz}. index_getattr l a = index_getattr r a)"
proof -
  have "set [1..<Suc keysz] = {1..keysz}" by auto
  moreover have "length [1..<Suc keysz] = keysz" by simp
  ultimately show ?thesis
    using keep_natts_fast_loop_all [of 1 "[1..<Suc keysz]" l r]
    unfolding abt_keep_natts_fast_def by (metis Suc_eq_plus1_left Suc_le_eq)
qed

lemma keep_natts_fast_attrs:
  assumes "length (it_attrs l) = keysz" and "length (it_attrs r) = keysz"
  shows "keysz < abt_keep_natts_fast keysz l r \<longleftrightarrow> it_attrs l = it_attrs r"
proof
  assume "keysz < abt_keep_natts_fast keysz l r"
  then have eq: "index_getattr l a = index_getattr r a" if "a \<in> {1..keysz}" for a
    using that by (simp add: keep_natts_fast_all)
  show "it_attrs l = it_attrs r"
  proof (rule nth_equalityI)
    fix i
    assume "i < length (it_attrs l)"
    then show "it_attrs l ! i = it_attrs r ! i"
      using eq [of "Suc i"] assms by (simp add: index_getattr_def)
  qed (simp add: assms)
qed (simp add: keep_natts_fast_all index_getattr_def assms)

section \<open>Forming a posting list\<close>

lemma posting_size_keysize: "keysize \<le> posting_size ai keysize n"
  using MAXALIGN_ge [of "keysize + n * sizeof_ItemPointerData"] by (simp add: posting_size_def)

lemma posting_size_mod [simp]: "posting_size ai keysize n mod 8 = 0"
  by (simp add: posting_size_def mod_add_eq [symmetric])

lemma posting_size_bound:
  assumes "keysize \<le> M" "6 * n \<le> M" "4 * n \<le> M" "leaf_has_agg ai \<Longrightarrow> agg_stride ai * n \<le> M"
    and "M \<le> 2040"
  shows "posting_size ai keysize n < 2 ^ 13"
proof -
  have "MAXALIGN (keysize + n * 6) \<le> 2 * M + 7" and "MAXALIGN (4 * n) \<le> M + 7"
    using assms(1-3) MAXALIGN_le [of "keysize + n * 6"] MAXALIGN_le [of "4 * n"] by linarith+
  moreover have "leaf_has_agg ai \<Longrightarrow> MAXALIGN (agg_stride ai * n) \<le> M + 7"
    using assms(4) MAXALIGN_le [of "agg_stride ai * n"] by linarith
  ultimately show ?thesis
    using assms(5)
    by (cases "leaf_has_agg ai")
      (simp_all add: posting_size_def sizeof_ItemPointerData_def sizeof_TransactionId_def)
qed

lemma wf_form_posting:
  assumes base: "wf_leaf_tuple nk ai base"
    and n: "2 \<le> length htids" "length htids < 2 ^ 12"
    and ks: "keysize = (if ABTreeTupleIsPosting base then ABTreeTupleGetPostingOffset base
                        else IndexTupleSize base)"
    and sz: "posting_size ai keysize (length htids) < 2 ^ 13"
    and x: "length xmins = length htids"
    and g: "length aggs = (if leaf_has_agg ai then length htids else 0)"
  defines "F \<equiv> (abt_form_posting base htids ai)\<lparr>it_aggs := aggs, it_xmins := xmins\<rparr>"
  shows "wf_leaf_tuple nk ai F \<and> tuple_entries F = mk_entries (it_attrs base) htids aggs xmins
    \<and> IndexTupleSize F = posting_size ai keysize (length htids)"
proof -
  have F: "F = (ABTreeTupleSetPosting (set_tuple_size (posting_size ai keysize (length htids))
      (base\<lparr>it_htids := [], it_aggs := replicate (if leaf_has_agg ai then length htids else 0) 0,
            it_xmins := replicate (length htids) 0\<rparr>)) (length htids) keysize)
      \<lparr>it_htids := htids, it_aggs := aggs, it_xmins := xmins\<rparr>"
    using n(1) by (simp add: F_def abt_form_posting_def ks Let_def)
  have k: "keysize < 2 ^ 32" using posting_size_keysize [of keysize ai "length htids"] sz by simp
  have p: "ABTreeTupleIsPosting F" and np: "ABTreeTupleGetNPosting F = length htids"
    and po: "ABTreeTupleGetPostingOffset F = keysize"
    and size: "IndexTupleSize F = posting_size ai keysize (length htids)"
    using n(2) k sz by (simp_all add: F SetPosting_NPosting SetPosting_PostingOffset set_tuple_size_size)
  have c: "it_htids F = htids" "it_aggs F = aggs" "it_xmins F = xmins" "it_attrs F = it_attrs base"
    by (simp_all add: F)
  have tids: "tuple_tids F = htids" using p c by (simp add: tuple_tids_def)
  have "keysize mod 8 = 0" using base by (simp add: ks wf_leaf_tuple_def)
  moreover have "length (it_attrs base) = nk" using base by (simp add: wf_leaf_tuple_def)
  ultimately have "wf_leaf_tuple nk ai F"
    using p np po size c tids n(1) x g by (simp add: wf_leaf_tuple_def)
  then show ?thesis using size c tids by (simp add: tuple_entries_def)
qed

section \<open>Validity of a posting list\<close>

lemma posting_valid_loop_iff:
  "posting_valid_loop t ts \<longleftrightarrow> (\<forall>x\<in>set ts. ItemPointerIsValid x) \<and> sorted_wrt (<) (t # ts)"
proof (induction t ts rule: posting_valid_loop.induct)
  case (2 t h hs)
  then show ?case by (auto simp: not_le)
qed simp

lemma map_nth_tail:
  assumes "n = length xs" and "1 \<le> n"
  shows "xs ! 0 # map ((!) xs) [1..<n] = xs"
proof -
  have "map ((!) xs) [1..<n] = tl xs" using assms by (intro nth_equalityI) (simp_all add: nth_tl)
  then show ?thesis using assms by (cases xs) auto
qed

lemma posting_valid_iff:
  assumes "length (it_htids p) = ABTreeTupleGetNPosting p"
  shows "abt_posting_valid p \<longleftrightarrow> ABTreeTupleIsPosting p \<and> 2 \<le> ABTreeTupleGetNPosting p
    \<and> (\<forall>x\<in>set (it_htids p). ItemPointerIsValid x) \<and> sorted_wrt (<) (it_htids p)"
proof (cases "2 \<le> ABTreeTupleGetNPosting p")
  case True
  have N: "ABTreeTupleGetPostingN p = (!) (it_htids p)"
    by (rule ext) (simp add: ABTreeTupleGetPostingN_def ABTreeTupleGetPosting_def)
  have split: "it_htids p ! 0 # map ((!) (it_htids p)) [1..<ABTreeTupleGetNPosting p] = it_htids p"
    using True assms by (intro map_nth_tail) simp_all
  let ?t = "map ((!) (it_htids p)) [1..<ABTreeTupleGetNPosting p]"
  have "(\<forall>x\<in>set (it_htids p). ItemPointerIsValid x) \<longleftrightarrow>
      ItemPointerIsValid (it_htids p ! 0) \<and> (\<forall>x\<in>set ?t. ItemPointerIsValid x)"
    by (subst split [symmetric]) (simp only: list.set ball_simps)
  with True split show ?thesis
    unfolding abt_posting_valid_def N Let_def posting_valid_loop_iff by auto
qed (simp add: abt_posting_valid_def)

section \<open>Removing heap TIDs\<close>

lemma update_posting_keep_filter:
  "sorted_wrt (<) ds \<Longrightarrow> set ds \<subseteq> {i..<i + k} \<Longrightarrow>
     update_posting_keep [i..<i + k] ds = filter (\<lambda>j. j \<notin> set ds) [i..<i + k]"
proof (induction k arbitrary: i ds)
  case (Suc k)
  have up: "[i..<i + Suc k] = i # [Suc i..<Suc i + k]" by (simp add: upt_conv_Cons)
  show ?case
  proof (cases "ds \<noteq> [] \<and> hd ds = i")
    case True
    then obtain ds' where ds: "ds = i # ds'" by (cases ds) auto
    have "\<forall>x\<in>set ds'. i < x \<and> x < Suc (i + k)" using Suc.prems ds by auto
    then have "set ds' \<subseteq> {Suc i..<Suc i + k}" by (auto simp: Suc_le_eq)
    then have "update_posting_keep [Suc i..<Suc i + k] ds' = filter (\<lambda>j. j \<notin> set ds') [Suc i..<Suc i + k]"
      using Suc.IH [of ds' "Suc i"] Suc.prems(1) ds by simp
    also have "\<dots> = filter (\<lambda>j. j \<notin> set ds) [Suc i..<Suc i + k]"
      by (rule filter_cong) (auto simp: ds)
    finally show ?thesis unfolding up by (simp add: ds)
  next
    case False
    have "i \<notin> set ds" using False Suc.prems by (cases ds) auto
    moreover have "set ds \<subseteq> {Suc i..<Suc i + k}"
    proof
      fix x
      assume "x \<in> set ds"
      with \<open>i \<notin> set ds\<close> Suc.prems(2) have "x \<noteq> i" "i \<le> x" "x < i + Suc k" by auto
      then show "x \<in> {Suc i..<Suc i + k}" by auto
    qed
    ultimately show ?thesis
      using Suc.IH [of ds "Suc i"] Suc.prems(1) False unfolding up by auto
  qed
qed simp

lemma clear_alt_not_posting [simp]:
  "\<not> ABTreeTupleIsPosting (clear_alt_tid t)" "\<not> ABTreeTupleIsPivot (clear_alt_tid t)"
  by (simp_all add: IsPosting_bits IsPivot_bits clear_alt_tid_def bit_simps)

lemma clear_alt_size [simp]: "IndexTupleSize (clear_alt_tid t) = IndexTupleSize t"
proof -
  have "(t_info t AND NOT ABT_INDEX_ALT_TID_MASK) AND INDEX_SIZE_MASK = t_info t AND INDEX_SIZE_MASK"
    by (auto simp: word_eq_bits bit_simps)
  then show ?thesis by (simp add: IndexTupleSize_def clear_alt_tid_def)
qed

lemma tid_update_header [simp]:
  "IndexTupleSize (t\<lparr>t_tid := x\<rparr>) = IndexTupleSize t"
  by (simp add: IndexTupleSize_def)

lemma IndexTupleSize_bound: "IndexTupleSize t < 2 ^ 13"
proof -
  have "INDEX_SIZE_MASK = mask 13" by (simp add: INDEX_SIZE_MASK_def mask_eq_exp_minus_1)
  then have "t_info t AND INDEX_SIZE_MASK = take_bit 13 (t_info t)" by (simp add: take_bit_eq_mask)
  then show ?thesis unfolding IndexTupleSize_def by (simp only: unat_take_bit_bound)
qed

lemma NPosting_bound: "ABTreeTupleGetNPosting t < 2 ^ 12"
proof -
  have "ABT_OFFSET_MASK = mask 12" by (simp add: ABT_OFFSET_MASK_def mask_eq_exp_minus_1)
  then have "ip_posid (t_tid t) AND ABT_OFFSET_MASK = take_bit 12 (ip_posid (t_tid t))"
    by (simp add: take_bit_eq_mask)
  then show ?thesis unfolding ABTreeTupleGetNPosting_def by (simp only: unat_take_bit_bound)
qed

lemma posting_size_mono: "n \<le> m \<Longrightarrow> posting_size ai ks n \<le> posting_size ai ks m"
  by (auto simp: posting_size_def intro!: add_mono MAXALIGN_mono)

lemma mk_entries_map:
  assumes "kept \<noteq> []" and "\<forall>i\<in>set kept. i < length t"
  shows "mk_entries a (map ((!) t) kept) (if g = [] then [] else map ((!) g) kept) (map ((!) x) kept)
    = map (\<lambda>i. mk_entries a t g x ! i) kept"
  using assms by (intro nth_equalityI) (auto simp: mk_entries_def)

lemma length_kept:
  assumes "distinct ds" and "set ds \<subseteq> {..<n}"
  shows "length (filter (\<lambda>i. i \<notin> set ds) [0..<n]) = n - length ds"
proof -
  have "set (filter (\<lambda>i. i \<notin> set ds) [0..<n]) = {..<n} - set ds" by auto
  then have "length (filter (\<lambda>i. i \<notin> set ds) [0..<n]) = card ({..<n} - set ds)"
    by (metis distinct_card distinct_filter distinct_upt)
  also have "\<dots> = n - length ds" using assms by (simp add: card_Diff_subset distinct_card)
  finally show ?thesis .
qed

lemma update_posting_entries:
  fixes vp ai
  defines "orig \<equiv> vp_itup vp" and "ds \<equiv> vp_deletetids vp"
  assumes wf: "wf_leaf_tuple nk ai orig" and p: "ABTreeTupleIsPosting orig"
    and ds: "sorted_wrt (<) ds" "set ds \<subseteq> {..<ABTreeTupleGetNPosting orig}"
    and some: "length ds < ABTreeTupleGetNPosting orig"
    and ex: "extra_space_for_nonpivot_tuple ai mod 8 = 0"
      "ABTreeTupleGetPostingOffset orig + extra_space_for_nonpivot_tuple ai < 2 ^ 13"
  shows "wf_leaf_tuple nk ai (vp_itup (abt_update_posting vp ai))
    \<and> tuple_entries (vp_itup (abt_update_posting vp ai))
        = map (\<lambda>i. tuple_entries orig ! i) (filter (\<lambda>i. i \<notin> set ds) [0..<ABTreeTupleGetNPosting orig])"
proof -
  define n0 where "n0 = ABTreeTupleGetNPosting orig"
  define off where "off = ABTreeTupleGetPostingOffset orig"
  define kept where "kept = filter (\<lambda>i. i \<notin> set ds) [0..<n0]"
  have lk: "length kept = n0 - length ds"
    using ds by (simp add: kept_def n0_def length_kept strict_sorted_iff)
  have keep: "update_posting_keep [0..<n0] ds = kept"
    using update_posting_keep_filter [of ds 0 n0] ds by (simp add: kept_def n0_def atLeast0LessThan)
  have kne: "kept \<noteq> []" and kn: "\<forall>i\<in>set kept. i < n0"
    using lk some by (auto simp: n0_def kept_def)
  note D = wf_leaf_tupleD [OF wf]
  have l: "length (it_htids orig) = n0" "length (it_xmins orig) = n0" "tuple_tids orig = it_htids orig"
    "length (it_aggs orig) = (if leaf_has_agg ai then n0 else 0)"
    "length (it_attrs orig) = nk" "off mod 8 = 0"
    "IndexTupleSize orig = posting_size ai off n0"
    using wf p D by (simp_all add: n0_def off_def wf_leaf_tuple_def)
  let ?h = "map ((!) (it_htids orig)) kept" and ?x = "map ((!) (it_xmins orig)) kept"
  let ?g = "if leaf_has_agg ai then map ((!) (it_aggs orig)) kept else []"
  let ?base = "orig\<lparr>it_htids := [], it_aggs := ?g, it_xmins := ?x\<rparr>"
  have n0: "0 < n0" using some by (simp add: n0_def)
  have "?g = (if it_aggs orig = [] then [] else map ((!) (it_aggs orig)) kept)"
    using l(4) n0 by (cases "leaf_has_agg ai") auto
  then have ents: "mk_entries (it_attrs orig) ?h ?g ?x = map (\<lambda>i. tuple_entries orig ! i) kept"
    using mk_entries_map [OF kne, of "it_htids orig" "it_attrs orig" "it_aggs orig" "it_xmins orig"] kn l
    by (simp only: tuple_entries_def)
  let ?T = "vp_itup (abt_update_posting vp ai)"
  have "wf_leaf_tuple nk ai ?T \<and> tuple_entries ?T = mk_entries (it_attrs orig) ?h ?g ?x"
  proof (cases "1 < length kept")
    case True
    let ?P = "ABTreeTupleSetPosting (set_tuple_size (posting_size ai off (length kept)) ?base) (length kept) off"
    have T: "?T = ?P\<lparr>it_htids := ?h\<rparr>"
      using True lk keep
      by (simp add: abt_update_posting_def Let_def orig_def [symmetric] ds_def [symmetric]
          n0_def [symmetric] off_def [symmetric] ABTreeTupleGetPostingN_def ABTreeTupleGetPosting_def)
    have "length kept < 2 ^ 12"
      using NPosting_bound [of orig] lk by (simp add: n0_def)
    moreover have "posting_size ai off (length kept) < 2 ^ 13"
      using posting_size_mono [of "length kept" n0 ai off] IndexTupleSize_bound [of orig] l lk by linarith
    moreover have "off < 2 ^ 32" using ex(2) by (simp add: off_def)
    ultimately have "ABTreeTupleIsPosting ?T" "ABTreeTupleGetNPosting ?T = length kept"
      "ABTreeTupleGetPostingOffset ?T = off" "IndexTupleSize ?T = posting_size ai off (length kept)"
      by (simp_all add: T SetPosting_NPosting SetPosting_PostingOffset set_tuple_size_size)
    then show ?thesis
      using True l by (simp add: wf_leaf_tuple_def tuple_entries_def tuple_tids_def) (simp add: T)
  next
    case False
    then have l1: "length kept = 1" using kne by (cases kept) auto
    then obtain k where k: "kept = [k]" by (cases kept) auto
    let ?P = "clear_alt_tid (set_tuple_size (off + extra_space_for_nonpivot_tuple ai) ?base)"
    have T: "?T = ?P\<lparr>t_tid := ?h ! 0\<rparr>"
      using l1 lk keep
      by (simp add: abt_update_posting_def Let_def orig_def [symmetric] ds_def [symmetric]
          n0_def [symmetric] off_def [symmetric] ABTreeTupleGetPostingN_def ABTreeTupleGetPosting_def)
    have np: "\<not> ABTreeTupleIsPosting ?T" "\<not> ABTreeTupleIsPivot ?T"
      by (simp_all add: T IsPosting_bits IsPivot_bits clear_alt_tid_def bit_simps)
    have sz: "IndexTupleSize ?T = off + extra_space_for_nonpivot_tuple ai"
      using ex(2) by (simp add: T set_tuple_size_size off_def)
    have "(off + extra_space_for_nonpivot_tuple ai) mod 8 = 0"
      using l(6) ex(1) by (simp add: mod_add_eq [symmetric])
    with np sz show ?thesis
      using l by (simp add: wf_leaf_tuple_def tuple_entries_def tuple_tids_def) (simp add: T k)
  qed
  with ents show ?thesis by (simp add: kept_def n0_def)
qed

section \<open>Splitting a posting list\<close>

lemma shift_in_last:
  assumes "pos < length xs"
  shows "shift_in pos x xs @ [last xs] = take pos xs @ [x] @ drop pos xs"
proof -
  let ?d = "drop pos xs"
  have "take (length xs - pos - 1) ?d = butlast ?d" by (simp add: butlast_conv_take)
  moreover have "butlast ?d @ [last ?d] = ?d" using assms by (intro append_butlast_last_id) simp
  moreover have "last ?d = last xs" using assms by simp
  ultimately show ?thesis by (simp add: shift_in_def)
qed

lemma length_shift_in: "pos < length xs \<Longrightarrow> length (shift_in pos x xs) = length xs"
  by (simp add: shift_in_def)

lemma tuple_tid_update_header:
  "\<not> bit (t_info t) 13 \<Longrightarrow> \<not> ABTreeTupleIsPosting (t\<lparr>t_tid := x\<rparr>)"
  "\<not> bit (t_info t) 13 \<Longrightarrow> \<not> ABTreeTupleIsPivot (t\<lparr>t_tid := x\<rparr>)"
  by (simp_all add: IsPosting_bits IsPivot_bits)

lemma plain_tuple_bit:
  "\<not> ABTreeTupleIsPosting t \<Longrightarrow> \<not> ABTreeTupleIsPivot t \<Longrightarrow> \<not> bit (t_info t) 13"
  by (simp add: IsPosting_bits IsPivot_bits)

lemma shift_in_sorted:
  fixes xs :: "'a::linorder list"
  assumes s: "sorted_wrt (<) xs" and p: "0 < pos" "pos < length xs"
    and x: "xs ! (pos - 1) < x" "x < xs ! pos"
  shows "sorted_wrt (<) (shift_in pos x xs @ [last xs])"
proof -
  have "sorted_wrt (<) (take pos xs @ drop pos xs)" using s by simp
  then have parts: "sorted_wrt (<) (take pos xs)" "sorted_wrt (<) (drop pos xs)"
    "\<forall>a\<in>set (take pos xs). \<forall>b\<in>set (drop pos xs). a < b" unfolding sorted_wrt_append by blast+
  have "\<forall>a\<in>set (take pos xs). a < x"
  proof
    fix a
    assume "a \<in> set (take pos xs)"
    then obtain i where i: "i < pos" "a = xs ! i" using p by (auto simp: in_set_conv_nth)
    have "a \<le> xs ! (pos - 1)"
    proof (cases "i = pos - 1")
      case False
      then have "xs ! i < xs ! (pos - 1)" using s i p by (intro sorted_wrt_nth_less [OF s]) auto
      then show ?thesis using i by simp
    qed (simp add: i)
    with x show "a < x" by simp
  qed
  moreover have "\<forall>b\<in>set (drop pos xs). x < b"
  proof
    fix b
    assume "b \<in> set (drop pos xs)"
    then obtain i where "i < length (drop pos xs)" "b = drop pos xs ! i"
      by (metis in_set_conv_nth)
    then have i: "pos + i < length xs" "b = xs ! (pos + i)" by auto
    have "xs ! pos \<le> b"
    proof (cases "i = 0")
      case False
      then have "xs ! pos < xs ! (pos + i)" using i by (intro sorted_wrt_nth_less [OF s]) auto
      then show ?thesis using i by simp
    qed (simp add: i)
    with x show "x < b" by simp
  qed
  ultimately show ?thesis
    using parts unfolding shift_in_last [OF p(2)] by (auto simp: sorted_wrt_append)
qed

lemma swap_posting_correct:
  assumes wfo: "wf_leaf_tuple nk ai oposting" and p: "ABTreeTupleIsPosting oposting"
    and wfn: "wf_leaf_tuple nk ai newitem" and np: "\<not> ABTreeTupleIsPosting newitem"
    and off: "0 < postingoff" "postingoff < ABTreeTupleGetNPosting oposting"
    and swap: "abt_swap_posting newitem oposting postingoff ai = (nposting, newitem')"
  shows "wf_leaf_tuple nk ai nposting" "ABTreeTupleIsPosting nposting"
    "wf_leaf_tuple nk ai newitem'" "\<not> ABTreeTupleIsPosting newitem'"
    "IndexTupleSize nposting = IndexTupleSize oposting"
    "it_htids nposting = shift_in postingoff (t_tid newitem) (it_htids oposting)"
    "t_tid newitem' = last (it_htids oposting)"
    "it_xmins nposting = shift_in postingoff (it_xmins newitem ! 0) (it_xmins oposting)"
    "it_xmins newitem' = [it_xmins oposting ! postingoff]"
    "leaf_has_agg ai \<Longrightarrow> it_aggs nposting = shift_in postingoff (it_aggs newitem ! 0) (it_aggs oposting)
        \<and> it_aggs newitem' = [last (it_aggs oposting)]"
proof -
  let ?n = "ABTreeTupleGetNPosting oposting"
  note Do = wf_leaf_tupleD [OF wfo] and Dn = wf_leaf_tupleD [OF wfn]
  have lo: "length (it_htids oposting) = ?n" "length (it_xmins oposting) = ?n"
    "length (it_aggs oposting) = (if leaf_has_agg ai then ?n else 0)" "it_htids oposting = tuple_tids oposting"
    using Do p by auto
  have ln: "length (it_xmins newitem) = 1" "length (it_aggs newitem) = (if leaf_has_agg ai then 1 else 0)"
    using Dn np by auto
  have bit: "\<not> bit (t_info newitem) 13" using np Dn(4) by (rule plain_tuple_bit)
  have max: "ABTreeTupleGetMaxHeapTID oposting = last (it_htids oposting)"
    using p lo(1) off by (simp add: ABTreeTupleGetMaxHeapTID_def ABTreeTupleGetPostingN_def
        ABTreeTupleGetPosting_def last_conv_nth flip: length_greater_0_conv)
  have ag: "it_aggs oposting ! (?n - 1) = last (it_aggs oposting)" if "leaf_has_agg ai"
    using that lo(3) off by (simp add: last_conv_nth flip: length_greater_0_conv)
  show C: "it_htids nposting = shift_in postingoff (t_tid newitem) (it_htids oposting)"
    "t_tid newitem' = last (it_htids oposting)"
    "it_xmins nposting = shift_in postingoff (it_xmins newitem ! 0) (it_xmins oposting)"
    "it_xmins newitem' = [it_xmins oposting ! postingoff]"
    "leaf_has_agg ai \<Longrightarrow> it_aggs nposting = shift_in postingoff (it_aggs newitem ! 0) (it_aggs oposting)
        \<and> it_aggs newitem' = [last (it_aggs oposting)]"
    using swap ag by (auto simp: abt_swap_posting_def Let_def max split: if_splits)
  have H: "t_info nposting = t_info oposting" "t_tid nposting = t_tid oposting"
    "it_attrs nposting = it_attrs oposting" "t_info newitem' = t_info newitem"
    "it_attrs newitem' = it_attrs newitem" "it_htids newitem' = it_htids newitem"
    "\<not> leaf_has_agg ai \<Longrightarrow> it_aggs nposting = it_aggs oposting \<and> it_aggs newitem' = it_aggs newitem"
    using swap by (auto simp: abt_swap_posting_def Let_def split: if_splits)
  show p': "ABTreeTupleIsPosting nposting" using p H by (simp add: IsPosting_bits)
  show np': "\<not> ABTreeTupleIsPosting newitem'" using bit H by (simp add: IsPosting_bits)
  show "IndexTupleSize nposting = IndexTupleSize oposting" using H by (simp add: IndexTupleSize_def)
  have hd: "ABTreeTupleGetNPosting nposting = ?n" "\<not> ABTreeTupleIsPivot nposting"
    "ABTreeTupleGetPostingOffset nposting = ABTreeTupleGetPostingOffset oposting"
    "IndexTupleSize nposting = IndexTupleSize oposting" "\<not> ABTreeTupleIsPivot newitem'"
    "IndexTupleSize newitem' = IndexTupleSize newitem"
    using H p bit by (simp_all add: ABTreeTupleGetNPosting_def IsPivot_bits IsPosting_bits
        ABTreeTupleGetPostingOffset_def IndexTupleSize_def)
  have len: "length (it_htids nposting) = ?n" "length (it_xmins nposting) = ?n"
    "length (it_aggs nposting) = (if leaf_has_agg ai then ?n else 0)"
    "length (it_aggs newitem') = (if leaf_has_agg ai then 1 else 0)"
    using C H(7) lo ln off by (auto simp: length_shift_in)
  show "wf_leaf_tuple nk ai nposting"
    using wfo p p' hd len H(3) by (simp add: wf_leaf_tuple_def tuple_tids_def)
  show "wf_leaf_tuple nk ai newitem'"
    using wfn np np' hd len H(5,6) C(4) by (simp add: wf_leaf_tuple_def tuple_tids_def)
qed

lemma swap_posting_valid:
  assumes wfo: "wf_leaf_tuple nk ai oposting" and val: "abt_posting_valid oposting"
    and wfn: "wf_leaf_tuple nk ai newitem" and np: "\<not> ABTreeTupleIsPosting newitem"
    and off: "0 < postingoff" "postingoff < ABTreeTupleGetNPosting oposting"
    and tid: "ItemPointerIsValid (t_tid newitem)"
      "it_htids oposting ! (postingoff - 1) < t_tid newitem" "t_tid newitem < it_htids oposting ! postingoff"
    and swap: "abt_swap_posting newitem oposting postingoff ai = (nposting, newitem')"
  shows "abt_posting_valid nposting \<and> ABTreeTupleGetMaxHeapTID nposting < t_tid newitem'"
proof -
  have p: "ABTreeTupleIsPosting oposting" using val by (simp add: abt_posting_valid_def split: if_splits)
  note S = swap_posting_correct [OF wfo p wfn np off swap]
  have lo: "length (it_htids oposting) = ABTreeTupleGetNPosting oposting"
    using wfo p by (simp add: wf_leaf_tuple_def)
  have ln: "length (it_htids nposting) = ABTreeTupleGetNPosting nposting"
      "2 \<le> ABTreeTupleGetNPosting nposting"
    using S(1,2) by (simp_all add: wf_leaf_tuple_def)
  have v: "\<forall>x\<in>set (it_htids oposting). ItemPointerIsValid x" "sorted_wrt (<) (it_htids oposting)"
    using val posting_valid_iff [OF lo] by simp_all
  have "sorted_wrt (<) (it_htids nposting @ [t_tid newitem'])"
    using shift_in_sorted [OF v(2) off(1) _ tid(2,3)] off(2) lo S(6,7) by simp
  then have srt: "sorted_wrt (<) (it_htids nposting)" "\<forall>x\<in>set (it_htids nposting). x < t_tid newitem'"
    by (simp_all add: sorted_wrt_append)
  moreover have "\<forall>x\<in>set (it_htids nposting). ItemPointerIsValid x"
    using v(1) tid(1) unfolding S(6) shift_in_def by (auto dest: in_set_takeD in_set_dropD)
  ultimately have "abt_posting_valid nposting" using posting_valid_iff [OF ln(1)] S(2) ln(2) by simp
  moreover have "ABTreeTupleGetMaxHeapTID nposting \<in> set (it_htids nposting)"
    using ln S(2) by (simp add: ABTreeTupleGetMaxHeapTID_def ABTreeTupleGetPostingN_def ABTreeTupleGetPosting_def)
  ultimately show ?thesis using srt(2) by blast
qed

section \<open>Layout of a posting list tuple\<close>

lemma posting_tuple_layout:
  assumes wf: "wf_leaf_tuple nk ai itup" and p: "ABTreeTupleIsPosting itup"
  defines "n \<equiv> ABTreeTupleGetNPosting itup"
  shows "ABTreeTupleGetPostingOffset itup + n * 6 \<le> ABTreePostingTupleGetAggPtr itup ai
    \<and> (leaf_has_agg ai \<longrightarrow> ABTreePostingTupleGetAggPtr itup ai + n * agg_stride ai
         \<le> ABTreePostingTupleGetXminPtr itup)
    \<and> ABTreePostingTupleGetAggPtr itup ai \<le> ABTreePostingTupleGetXminPtr itup
    \<and> ABTreePostingTupleGetXminPtr itup + n * 4 = IndexTupleSize itup"
proof -
  let ?off = "ABTreeTupleGetPostingOffset itup"
  have sz: "IndexTupleSize itup = posting_size ai ?off n" using wf p by (simp add: wf_leaf_tuple_def n_def)
  have a: "ABTreePostingTupleGetAggPtr itup ai = MAXALIGN (?off + n * 6)"
    by (simp add: ABTreePostingTupleGetAggPtr_def n_def)
  have x: "ABTreePostingTupleGetXminPtr itup = posting_size ai ?off n - 4 * n"
    by (simp add: ABTreePostingTupleGetXminPtr_def sz n_def)
  show ?thesis
    using MAXALIGN_ge [of "?off + n * 6"] MAXALIGN_ge [of "agg_stride ai * n"] MAXALIGN_ge [of "4 * n"]
    unfolding a x sz
    by (auto simp: posting_size_def sizeof_ItemPointerData_def sizeof_TransactionId_def mult.commute)
qed

section \<open>Example tuples\<close>

definition ex_agg_info :: ABTCachedAggInfo where
  "ex_agg_info = \<lparr>agg_byval = True, leaf_has_agg = False, int2_to_agg_type_fn_initialized = False,
     agg_typlen = 8, agg_stride = 8, agg_map_val = 1, int2_to_agg_type_fn = (\<lambda>n. ucast n),
     agg_add_fn = (\<lambda>a b. Some (a + b)), agg_mul_fn = (\<lambda>a b. Some (a * b)),
     agg_sub_fn = (\<lambda>a b. Some (a - b)),
     extra_space_for_nonpivot_tuple = 8, extra_space_when_tid_missing = 16,
     extra_space_when_tid_present = 16\<rparr>"

definition ex_agg_info8 :: ABTCachedAggInfo where
  "ex_agg_info8 = abt_compute_tuple_offsets (ex_agg_info\<lparr>leaf_has_agg := True\<rparr>)"

definition ex_plain :: "Datum \<Rightarrow> OffsetNumber \<Rightarrow> IndexTupleData" where
  "ex_plain k off = \<lparr>t_tid = ItemPointer 7 off, t_info = 24, it_attrs = [Some k], it_htids = [],
     it_aggs = [], it_xmins = [3], it_last_update_id = 0, it_pivot_tid = None\<rparr>"

definition ex_plain8 :: "OffsetNumber \<Rightarrow> IndexTupleData" where
  "ex_plain8 off = (ex_plain 5 off)\<lparr>t_info := 32, it_aggs := [1]\<rparr>"

definition ex_posting8 :: IndexTupleData where
  "ex_posting8 = (abt_form_posting (ex_plain8 1) [ItemPointer 7 1, ItemPointer 7 4, ItemPointer 7 6] ex_agg_info8)
     \<lparr>it_aggs := [10, 40, 60], it_xmins := [11, 14, 16]\<rparr>"

lemma ex_posting8_wf: "wf_leaf_tuple 1 ex_agg_info8 ex_posting8" "ABTreeTupleIsPosting ex_posting8"
  "abt_posting_valid ex_posting8" "ABTreeTupleGetNPosting ex_posting8 = 3"
  "wf_leaf_tuple 1 ex_agg_info8 (ex_plain8 5)" "\<not> ABTreeTupleIsPosting (ex_plain8 5)"
  by code_simp+

section \<open>Properties\<close>

text \<open>
  C28. Removing heap TIDs from a posting list tuple. For a well-formed posting list and an ascending
  list of positions that leaves at least one heap TID, the updated tuple is well formed (a plain
  tuple when one heap TID is left) and its entries are exactly those of the other positions, each
  with its own aggregation value and xmin, in the same order.
\<close>

theorem abt_update_posting_correct:
  assumes "wf_leaf_tuple nk ai (vp_itup vp)" and "ABTreeTupleIsPosting (vp_itup vp)"
    and "sorted_wrt (<) (vp_deletetids vp)"
    and "set (vp_deletetids vp) \<subseteq> {..<ABTreeTupleGetNPosting (vp_itup vp)}"
    and "length (vp_deletetids vp) < ABTreeTupleGetNPosting (vp_itup vp)"
    and "extra_space_for_nonpivot_tuple ai mod 8 = 0"
    and "ABTreeTupleGetPostingOffset (vp_itup vp) + extra_space_for_nonpivot_tuple ai < 2 ^ 13"
  shows "wf_leaf_tuple nk ai (vp_itup (abt_update_posting vp ai))
    \<and> tuple_entries (vp_itup (abt_update_posting vp ai))
        = map (\<lambda>i. tuple_entries (vp_itup vp) ! i)
            (filter (\<lambda>i. i \<notin> set (vp_deletetids vp)) [0..<ABTreeTupleGetNPosting (vp_itup vp)])"
  using update_posting_entries [OF assms] .

theorem abt_update_posting_correct_witness:
  "tuple_entries (vp_itup (abt_update_posting
      \<lparr>vp_itup = ex_posting8, vp_updatedoffset = 2, vp_deletetids = [0, 2]\<rparr> ex_agg_info8))
    = [tuple_entries ex_posting8 ! 1]"
proof -
  have "extra_space_for_nonpivot_tuple ex_agg_info8 mod 8 = 0"
    "ABTreeTupleGetPostingOffset ex_posting8 + extra_space_for_nonpivot_tuple ex_agg_info8 < 2 ^ 13"
    by code_simp+
  then show ?thesis
    using abt_update_posting_correct
      [of 1 ex_agg_info8 "\<lparr>vp_itup = ex_posting8, vp_updatedoffset = 2, vp_deletetids = [0, 2]\<rparr>"]
      ex_posting8_wf
    by (simp add: upt_rec)
qed

text \<open>
  C29. Splitting a posting list to make room for a new heap TID that falls strictly inside it: both
  results are well formed, the new posting list is valid and of the old size, all its heap TIDs are
  below the one the new item receives, and the heap TIDs (and the aggregation values, when leaves
  store them) of the two results together are those of the old list with the new one inserted at
  its position. The xmin the new item receives is the one at the split position.
\<close>

theorem abt_swap_posting_correct:
  assumes wfo: "wf_leaf_tuple nk ai oposting" and val: "abt_posting_valid oposting"
    and wfn: "wf_leaf_tuple nk ai newitem" and np: "\<not> ABTreeTupleIsPosting newitem"
    and off: "0 < postingoff" "postingoff < ABTreeTupleGetNPosting oposting"
    and tid: "ItemPointerIsValid (t_tid newitem)"
      "it_htids oposting ! (postingoff - 1) < t_tid newitem" "t_tid newitem < it_htids oposting ! postingoff"
    and swap: "abt_swap_posting newitem oposting postingoff ai = (nposting, newitem')"
  shows "wf_leaf_tuple nk ai nposting \<and> wf_leaf_tuple nk ai newitem' \<and> abt_posting_valid nposting
    \<and> IndexTupleSize nposting = IndexTupleSize oposting
    \<and> ABTreeTupleGetMaxHeapTID nposting < t_tid newitem'
    \<and> it_htids nposting @ [t_tid newitem']
        = take postingoff (it_htids oposting) @ [t_tid newitem] @ drop postingoff (it_htids oposting)
    \<and> (leaf_has_agg ai \<longrightarrow> it_aggs nposting @ it_aggs newitem'
        = take postingoff (it_aggs oposting) @ it_aggs newitem @ drop postingoff (it_aggs oposting))
    \<and> it_xmins nposting = shift_in postingoff (it_xmins newitem ! 0) (it_xmins oposting)
    \<and> it_xmins newitem' = [it_xmins oposting ! postingoff]"
proof -
  have p: "ABTreeTupleIsPosting oposting" using val by (simp add: abt_posting_valid_def split: if_splits)
  note S = swap_posting_correct [OF wfo p wfn np off swap]
  have l: "length (it_htids oposting) = ABTreeTupleGetNPosting oposting"
    "leaf_has_agg ai \<Longrightarrow> length (it_aggs oposting) = ABTreeTupleGetNPosting oposting"
    "leaf_has_agg ai \<Longrightarrow> it_aggs newitem = [it_aggs newitem ! 0]"
    using wfo p wf_leaf_tupleD [OF wfo] wf_leaf_tupleD [OF wfn] np
    by (auto simp: wf_leaf_tuple_def length_Suc_conv)
  have "it_htids nposting @ [t_tid newitem']
      = take postingoff (it_htids oposting) @ [t_tid newitem] @ drop postingoff (it_htids oposting)"
    using shift_in_last [of postingoff "it_htids oposting" "t_tid newitem"] off(2) l(1) S(6,7) by simp
  moreover have "it_aggs nposting @ it_aggs newitem'
      = take postingoff (it_aggs oposting) @ it_aggs newitem @ drop postingoff (it_aggs oposting)"
    if "leaf_has_agg ai"
  proof -
    have "it_aggs nposting @ it_aggs newitem'
        = shift_in postingoff (it_aggs newitem ! 0) (it_aggs oposting) @ [last (it_aggs oposting)]"
      using S(10) [OF that] by simp
    also have "\<dots> = take postingoff (it_aggs oposting) @ [it_aggs newitem ! 0] @ drop postingoff (it_aggs oposting)"
      using off(2) l(2) [OF that] by (intro shift_in_last) simp
    finally show ?thesis using l(3) [OF that] by simp
  qed
  ultimately show ?thesis
    using swap_posting_valid [OF wfo val wfn np off tid swap] S by blast
qed

theorem abt_swap_posting_correct_witness:
  "it_aggs (fst (abt_swap_posting (ex_plain8 5) ex_posting8 2 ex_agg_info8)) = [10, 40, 1]
   \<and> abt_posting_valid (fst (abt_swap_posting (ex_plain8 5) ex_posting8 2 ex_agg_info8))"
proof -
  obtain np ni where s: "abt_swap_posting (ex_plain8 5) ex_posting8 2 ex_agg_info8 = (np, ni)"
    by (cases "abt_swap_posting (ex_plain8 5) ex_posting8 2 ex_agg_info8")
  have "ItemPointerIsValid (t_tid (ex_plain8 5))" "it_htids ex_posting8 ! (2 - 1) < t_tid (ex_plain8 5)"
    "t_tid (ex_plain8 5) < it_htids ex_posting8 ! 2" by code_simp+
  then have "abt_posting_valid np"
    using abt_swap_posting_correct [OF _ _ _ _ _ _ _ _ _ s, of 1] ex_posting8_wf by simp
  moreover have "it_aggs (fst (abt_swap_posting (ex_plain8 5) ex_posting8 2 ex_agg_info8)) = [10, 40, 1]"
    by code_simp
  ultimately show ?thesis using s by simp
qed

text \<open>The xmin of the rightmost heap TID is lost when the split position is not the last one.\<close>

lemma swap_posting_loses_xmin:
  "map (\<lambda>t. it_xmins t) [fst (abt_swap_posting ((ex_plain8 2)\<lparr>it_xmins := [12]\<rparr>) ex_posting8 1 ex_agg_info8),
     snd (abt_swap_posting ((ex_plain8 2)\<lparr>it_xmins := [12]\<rparr>) ex_posting8 1 ex_agg_info8)]
   = [[11, 12, 14], [14]]"
  by code_simp

text \<open>
  C30. Layout of a posting list tuple: the heap TIDs, the aggregation values and the xmins lie one
  after the other inside the tuple without overlap, and the xmins end exactly at its end.
\<close>

theorem posting_layout_disjoint:
  assumes "wf_leaf_tuple nk ai itup" and "ABTreeTupleIsPosting itup"
  shows "ABTreeTupleGetPostingOffset itup + ABTreeTupleGetNPosting itup * 6 \<le> ABTreeTupleGetAggPtr itup ai
    \<and> (leaf_has_agg ai \<longrightarrow> ABTreeTupleGetAggPtr itup ai + ABTreeTupleGetNPosting itup * agg_stride ai
         \<le> ABTreeTupleGetXminPtr itup)
    \<and> ABTreeTupleGetAggPtr itup ai \<le> ABTreeTupleGetXminPtr itup
    \<and> ABTreeTupleGetXminPtr itup + ABTreeTupleGetNPosting itup * 4 = IndexTupleSize itup"
proof -
  have "ABTreeTupleGetAggPtr itup ai = ABTreePostingTupleGetAggPtr itup ai"
    using assms(2) by (auto simp: ABTreeTupleGetAggPtr_def ABTreeTupleIsPosting_def split: if_splits)
  moreover have "ABTreeTupleGetXminPtr itup = ABTreePostingTupleGetXminPtr itup"
    using assms(2) by (simp add: ABTreeTupleGetXminPtr_def)
  ultimately show ?thesis using posting_tuple_layout [OF assms] by simp
qed

theorem posting_layout_disjoint_witness:
  "ABTreeTupleGetAggPtr ex_posting8 ex_agg_info8 + ABTreeTupleGetNPosting ex_posting8 * agg_stride ex_agg_info8
     \<le> ABTreeTupleGetXminPtr ex_posting8"
proof -
  have "leaf_has_agg ex_agg_info8" by code_simp
  then show ?thesis using posting_layout_disjoint [OF ex_posting8_wf(1,2)] by blast
qed

end
