(* ===== verification/Dedup.thy ===== *)
theory Dedup
  imports Posting
begin

unbundle bit_operations_syntax

text \<open>
  Deduplication of leaf pages (\<^verbatim>\<open>src/backend/access/abtree/abtdedup.c\<close>).

  The arrays \<^verbatim>\<open>htids\<close>, \<^verbatim>\<open>aggs\<close> and \<^verbatim>\<open>xmins\<close> of the working state are the lists of their first
  \<^verbatim>\<open>nhtids\<close> entries; setting \<^verbatim>\<open>nhtids\<close> to zero empties them. The array \<^verbatim>\<open>intervals\<close> holds the
  finished intervals. An \<^verbatim>\<open>elog(ERROR)\<close> and the use of a null pointer are the value \<open>None\<close>. The
  operations are those of a build without assertion checks; what \<^verbatim>\<open>_abt_dedup_finish_pending\<close> asserts
  is the predicate \<open>dedup_finish_asserts\<close>.
\<close>

section \<open>The working state\<close>

record ABTDedupInterval =
  iv_baseoff :: nat
  iv_nitems :: nat

record ABTDedupState =
  deduplicate :: bool
  save_extra :: bool
  nmaxitems :: nat
  maxpostingsize :: nat
  ds_base :: "IndexTupleData option"
  baseoff :: nat
  basetupsize :: nat
  ds_htids :: "ItemPointerData list"
  ds_aggs :: "Datum list"
  ds_xmins :: "TransactionId list"
  nitems :: nat
  phystupsize :: nat
  intervals :: "ABTDedupInterval list"

definition nhtids :: "ABTDedupState \<Rightarrow> nat" where
  "nhtids state = length (ds_htids state)"

definition abt_dedup_start_pending ::
  "ABTDedupState \<Rightarrow> IndexTupleData \<Rightarrow> nat \<Rightarrow> ABTCachedAggInfo \<Rightarrow> ABTDedupState" where
  "abt_dedup_start_pending state base boff agg_info =
     (let state1 =
        (if IndexTupleSize base \<le> maxpostingsize state then
           if \<not> ABTreeTupleIsPosting base then
             state\<lparr>ds_htids := [t_tid base],
                   basetupsize := IndexTupleSize base - extra_space_for_nonpivot_tuple agg_info,
                   ds_aggs := (if save_extra state \<and> leaf_has_agg agg_info
                               then take 1 (it_aggs base) else []),
                   ds_xmins := (if save_extra state then take 1 (it_xmins base) else [])\<rparr>
           else
             let nposting = ABTreeTupleGetNPosting base
             in state\<lparr>ds_htids := take nposting (ABTreeTupleGetPosting base),
                      basetupsize := ABTreeTupleGetPostingOffset base,
                      ds_aggs := (if save_extra state \<and> leaf_has_agg agg_info
                                  then take nposting (it_aggs base) else []),
                      ds_xmins := (if save_extra state then take nposting (it_xmins base) else [])\<rparr>
         else state\<lparr>ds_htids := [], ds_aggs := [], ds_xmins := []\<rparr>)
      in state1\<lparr>nitems := 1, ds_base := Some base, baseoff := boff,
                phystupsize := MAXALIGN (IndexTupleSize base) + sizeof_ItemIdData\<rparr>)"

definition abt_dedup_save_htid ::
  "ABTDedupState \<Rightarrow> IndexTupleData \<Rightarrow> ABTCachedAggInfo \<Rightarrow> bool \<times> ABTDedupState" where
  "abt_dedup_save_htid state itup agg_info =
     (if nhtids state = 0 then
        (False,
         if ABTreeTupleIsPosting itup \<and> ABTreeTupleGetNPosting itup > 50
         then state\<lparr>nmaxitems := nmaxitems state + 1\<rparr> else state)
      else
        let n = (if \<not> ABTreeTupleIsPosting itup then 1 else ABTreeTupleGetNPosting itup);
            htids = (if \<not> ABTreeTupleIsPosting itup then [t_tid itup]
                     else take n (ABTreeTupleGetPosting itup));
            mergedtupsz =
              basetupsize state
              + MAXALIGN ((nhtids state + n) * sizeof_ItemPointerData)
              + (if leaf_has_agg agg_info
                 then MAXALIGN (agg_stride agg_info * (nhtids state + n)) else 0)
              + MAXALIGN (sizeof_TransactionId * (nhtids state + n))
        in if mergedtupsz > maxpostingsize state then
             (False,
              if nhtids state > 50 then state\<lparr>nmaxitems := nmaxitems state + 1\<rparr> else state)
           else
             (True,
              state\<lparr>nitems := nitems state + 1,
                    ds_htids := ds_htids state @ htids,
                    ds_aggs := (if save_extra state \<and> leaf_has_agg agg_info
                                then ds_aggs state @ take n (it_aggs itup) else ds_aggs state),
                    ds_xmins := (if save_extra state
                                 then ds_xmins state @ take n (it_xmins itup) else ds_xmins state),
                    phystupsize := phystupsize state
                      + (MAXALIGN (IndexTupleSize itup) + sizeof_ItemIdData)\<rparr>))"

text \<open>The result is the new page, the state and the space saving, a 64-bit unsigned value.\<close>

definition abt_dedup_finish_pending ::
  "PageData \<Rightarrow> ABTDedupState \<Rightarrow> ABTCachedAggInfo \<Rightarrow> (PageData \<times> ABTDedupState \<times> nat) option" where
  "abt_dedup_finish_pending newpage state agg_info =
     (case ds_base state of
        None \<Rightarrow> None
      | Some base \<Rightarrow>
          let tupoff = PageGetMaxOffsetNumber newpage + 1;
              reset = (\<lambda>st. st\<lparr>ds_htids := [], ds_aggs := [], ds_xmins := [], nitems := 0,
                               phystupsize := 0\<rparr>)
          in if nitems state \<le> 1 then
               map_option (\<lambda>page. (page, reset state, 0))
                 (PageAddItem newpage base (IndexTupleSize base) tupoff)
             else
               let formed = abt_form_posting base (ds_htids state) agg_info;
                   final = (if save_extra state then
                              formed\<lparr>it_aggs := (if leaf_has_agg agg_info then ds_aggs state
                                                 else it_aggs formed),
                                     it_xmins := ds_xmins state\<rparr>
                            else formed);
                   tuplesz = IndexTupleSize final;
                   iv = \<lparr>iv_baseoff = baseoff state, iv_nitems = u16 (nitems state)\<rparr>
               in map_option
                    (\<lambda>page. (page, reset (state\<lparr>intervals := intervals state @ [iv]\<rparr>),
                             sub64 (phystupsize state) (tuplesz + sizeof_ItemIdData)))
                    (PageAddItem newpage final tuplesz tupoff))"

text \<open>The assertions of \<^verbatim>\<open>_abt_dedup_finish_pending\<close> on the number of items and on the size of the
  final tuple.\<close>

definition dedup_finish_asserts :: "ABTDedupState \<Rightarrow> ABTCachedAggInfo \<Rightarrow> bool" where
  "dedup_finish_asserts state agg_info =
     (nitems state > 0 \<and> nitems state \<le> nhtids state
      \<and> (nitems state \<le> 1
         \<or> (case ds_base state of
               None \<Rightarrow> False
             | Some base \<Rightarrow>
                 IndexTupleSize (abt_form_posting base (ds_htids state) agg_info) \<le> maxpostingsize state)))"

section \<open>The pass over a page\<close>

definition abt_do_singleval :: "nat \<Rightarrow> PageData \<Rightarrow> nat \<Rightarrow> IndexTupleData \<Rightarrow> bool" where
  "abt_do_singleval nkeyatts page minoff newitem =
     (if abt_keep_natts_fast nkeyatts newitem (PageGetItem page minoff) > nkeyatts then
        if abt_keep_natts_fast nkeyatts newitem
             (PageGetItem page (PageGetMaxOffsetNumber page)) > nkeyatts
        then True else False
      else False)"

definition abt_singleval_fillfactor :: "ABTDedupState \<Rightarrow> nat \<Rightarrow> ABTDedupState" where
  "abt_singleval_fillfactor state newitemsz =
     (let leftfree = BLCKSZ - SizeOfPageHeaderData - MAXALIGN sizeof_ABTPageOpaqueData;
          leftfree = sub64 leftfree (newitemsz + MAXALIGN sizeof_ItemPointerData);
          reduction = leftfree * (100 - 96) div 100
      in if maxpostingsize state > reduction
         then state\<lparr>maxpostingsize := maxpostingsize state - reduction\<rparr>
         else state\<lparr>maxpostingsize := 0\<rparr>)"

definition ABTMaxItemSizeNoAgg :: nat where
  "ABTMaxItemSizeNoAgg =
     MAXALIGN_DOWN ((BLCKSZ - MAXALIGN SizeOfPageHeaderData - MAXALIGN (3 * sizeof_ItemIdData)
       - MAXALIGN (3 * sizeof_ItemPointerData) - MAXALIGN sizeof_ABTPageOpaqueData) div 3)"

definition abt_delitems_delete :: "PageData \<Rightarrow> nat list \<Rightarrow> PageData option" where
  "abt_delitems_delete page deletable =
     map_option
       (\<lambda>p. p\<lparr>pd_special := (pd_special p)\<lparr>abtpo_flags :=
           (abtpo_flags (pd_special p) AND NOT ABTP_HAS_GARBAGE) OR ABTP_HAD_GARBAGE_REMOVED\<rparr>\<rparr>)
       (PageIndexMultiDelete page deletable)"

record dedup_run =
  dr_page :: PageData
  dr_state :: ABTDedupState
  dr_saving :: nat
  dr_singleval :: bool

text \<open>The extra steps of the single value strategy after a finished list.\<close>

definition dedup_singleval_step :: "nat \<Rightarrow> bool \<Rightarrow> ABTDedupState \<Rightarrow> ABTDedupState \<times> bool" where
  "dedup_singleval_step newitemsz singlevalstrat state =
     (if singlevalstrat then
        if nmaxitems state = 5 then (abt_singleval_fillfactor state newitemsz, True)
        else if nmaxitems state = 6 then (state\<lparr>deduplicate := False\<rparr>, False)
        else (state, True)
      else (state, False))"

text \<open>The body of the loop for an item that is not the first one.\<close>

definition dedup_close_and_start ::
  "ABTCachedAggInfo \<Rightarrow> nat \<Rightarrow> nat \<Rightarrow> IndexTupleData \<Rightarrow> dedup_run \<Rightarrow> dedup_run option" where
  "dedup_close_and_start agg_info newitemsz offnum itup run =
     (case abt_dedup_finish_pending (dr_page run) (dr_state run) agg_info of
        None \<Rightarrow> None
      | Some (page, state, saving) \<Rightarrow>
          let (state1, sv) = dedup_singleval_step newitemsz (dr_singleval run) state
          in Some \<lparr>dr_page = page,
                   dr_state = abt_dedup_start_pending state1 itup offnum agg_info,
                   dr_saving = u64 (dr_saving run + saving),
                   dr_singleval = sv\<rparr>)"

definition dedup_item ::
  "nat \<Rightarrow> ABTCachedAggInfo \<Rightarrow> nat \<Rightarrow> nat \<Rightarrow> IndexTupleData \<Rightarrow> dedup_run \<Rightarrow> dedup_run option" where
  "dedup_item nkeyatts agg_info newitemsz offnum itup run =
     (let state = dr_state run
      in if deduplicate state \<and> nhtids state > 0
            \<and> (case ds_base state of None \<Rightarrow> False
               | Some base \<Rightarrow> abt_keep_natts_fast nkeyatts base itup > nkeyatts)
         then
           let (saved, state') = abt_dedup_save_htid state itup agg_info
           in if saved then Some (run\<lparr>dr_state := state'\<rparr>)
              else dedup_close_and_start agg_info newitemsz offnum itup (run\<lparr>dr_state := state'\<rparr>)
         else dedup_close_and_start agg_info newitemsz offnum itup run)"

fun dedup_items ::
  "nat \<Rightarrow> ABTCachedAggInfo \<Rightarrow> nat \<Rightarrow> nat \<Rightarrow> IndexTupleData list \<Rightarrow> dedup_run \<Rightarrow> dedup_run option" where
  "dedup_items nkeyatts agg_info newitemsz offnum [] run = Some run"
| "dedup_items nkeyatts agg_info newitemsz offnum (itup # itups) run =
     (case dedup_item nkeyatts agg_info newitemsz offnum itup run of
        None \<Rightarrow> None
      | Some run' \<Rightarrow> dedup_items nkeyatts agg_info newitemsz (offnum + 1) itups run')"

definition dedup_copy_hikey :: "PageData \<Rightarrow> PageData option" where
  "dedup_copy_hikey page =
     (let newpage = PageGetTempPageCopySpecial page
      in if \<not> ABT_P_RIGHTMOST (pd_special page) then
           let hitemid = PageGetItemId page ABTP_HIKEY
           in PageAddItem newpage (pi_tup hitemid) (lp_len hitemid) ABTP_HIKEY
         else Some newpage)"

definition dedup_init_state :: "nat \<Rightarrow> ABTDedupState" where
  "dedup_init_state maxsz =
     \<lparr>deduplicate = True, save_extra = True, nmaxitems = 0, maxpostingsize = maxsz,
      ds_base = None, baseoff = 0, basetupsize = 0, ds_htids = [], ds_aggs = [], ds_xmins = [],
      nitems = 0, phystupsize = 0, intervals = []\<rparr>"

text \<open>The items from \<open>minoff\<close> on; without any, the code reads a line pointer that does not exist
  and finishes a pending list with no base tuple, and the result is \<open>None\<close>.\<close>

definition dedup_data_items :: "PageData \<Rightarrow> IndexTupleData list" where
  "dedup_data_items page = map pi_tup (drop (ABT_P_FIRSTDATAKEY (pd_special page) - 1) (pd_linp page))"

definition dedup_pass ::
  "nat \<Rightarrow> PageData \<Rightarrow> IndexTupleData \<Rightarrow> nat \<Rightarrow> bool \<Rightarrow> ABTCachedAggInfo
     \<Rightarrow> (PageData \<times> ABTDedupState) option" where
  "dedup_pass nkeyatts page newitem newitemsz checkingunique agg_info =
     (let minoff = ABT_P_FIRSTDATAKEY (pd_special page);
          state = dedup_init_state (min (ABTMaxItemSizeNoAgg div 2) (unat INDEX_SIZE_MASK))
      in case dedup_data_items page of
           [] \<Rightarrow> None
         | itup # itups \<Rightarrow>
             let singlevalstrat = (\<not> checkingunique \<and> abt_do_singleval nkeyatts page minoff newitem)
             in case dedup_copy_hikey page of
                  None \<Rightarrow> None
                | Some newpage \<Rightarrow>
                    case dedup_items nkeyatts agg_info newitemsz (minoff + 1) itups
                           \<lparr>dr_page = newpage,
                            dr_state = abt_dedup_start_pending state itup minoff agg_info,
                            dr_saving = 0, dr_singleval = singlevalstrat\<rparr> of
                      None \<Rightarrow> None
                    | Some run \<Rightarrow>
                        map_option (\<lambda>(p, st, _). (p, st))
                          (abt_dedup_finish_pending (dr_page run) (dr_state run) agg_info))"

text \<open>Removal of the items that are marked dead; the flag tells whether there were any.\<close>

definition dedup_remove_dead :: "PageData \<Rightarrow> (bool \<times> PageData) option" where
  "dedup_remove_dead page =
     (let minoff = ABT_P_FIRSTDATAKEY (pd_special page);
          deletable = dead_offsets minoff (drop (minoff - 1) (pd_linp page))
      in if deletable \<noteq> [] then map_option (\<lambda>p. (True, p)) (abt_delitems_delete page deletable)
         else Some (False, page))"

definition dedup_clear_garbage :: "PageData \<Rightarrow> PageData \<Rightarrow> PageData" where
  "dedup_clear_garbage page newpage =
     (if ABT_P_HAS_GARBAGE (pd_special page)
      then newpage\<lparr>pd_special := (pd_special newpage)\<lparr>abtpo_flags :=
             abtpo_flags (pd_special newpage) AND NOT ABTP_HAS_GARBAGE\<rparr>\<rparr>
      else newpage)"

text \<open>The result is the page and the intervals that are logged, if the page was deduplicated.\<close>

definition abt_dedup_one_page ::
  "nat \<Rightarrow> PageData \<Rightarrow> IndexTupleData \<Rightarrow> nat \<Rightarrow> bool \<Rightarrow> ABTCachedAggInfo
     \<Rightarrow> (PageData \<times> ABTDedupInterval list) option" where
  "abt_dedup_one_page nkeyatts page newitem newitemsz checkingunique agg_info =
     (case dedup_remove_dead page of
        None \<Rightarrow> None
      | Some (deleted, page1) \<Rightarrow>
          if deleted \<and> PageGetFreeSpace page1 \<ge> newitemsz then Some (page1, [])
          else
            case dedup_pass nkeyatts page1 newitem (newitemsz + sizeof_ItemIdData)
                   checkingunique agg_info of
              None \<Rightarrow> None
            | Some (newpage, state) \<Rightarrow>
                if intervals state = [] then Some (page1, [])
                else Some (dedup_clear_garbage page1 newpage, intervals state))"


section \<open>The pending posting list\<close>

definition pend_ok :: "nat \<Rightarrow> ABTCachedAggInfo \<Rightarrow> nat \<Rightarrow> ABTDedupState \<Rightarrow> bool" where
  "pend_ok nk ai M st =
     (case ds_base st of
        None \<Rightarrow> False
      | Some b \<Rightarrow>
          wf_leaf_tuple nk ai b \<and> save_extra st \<and> maxpostingsize st \<le> M \<and> 1 \<le> nitems st
          \<and> length (ds_xmins st) = nhtids st
          \<and> length (ds_aggs st) = (if leaf_has_agg ai then nhtids st else 0)
          \<and> (nhtids st = 0 \<longrightarrow> nitems st = 1)
          \<and> (nhtids st > 0 \<longrightarrow> IndexTupleSize b \<le> M)
          \<and> (nhtids st > 0 \<and> nitems st = 1 \<longrightarrow>
               ds_htids st = tuple_tids b \<and> ds_aggs st = it_aggs b \<and> ds_xmins st = it_xmins b)
          \<and> (1 < nitems st \<longrightarrow> 2 \<le> nhtids st \<and> 6 * nhtids st \<le> M \<and> 4 * nhtids st \<le> M
               \<and> (leaf_has_agg ai \<longrightarrow> agg_stride ai * nhtids st \<le> M)))"

definition pend_entries ::
  "ABTDedupState \<Rightarrow> (Datum option list \<times> ItemPointerData \<times> Datum option \<times> TransactionId) list" where
  "pend_entries st =
     (case ds_base st of
        None \<Rightarrow> []
      | Some b \<Rightarrow> if nitems st \<le> 1 then tuple_entries b
                  else mk_entries (it_attrs b) (ds_htids st) (ds_aggs st) (ds_xmins st))"

lemma start_pending_ok:
  fixes off
  assumes wf: "wf_leaf_tuple nk ai b" and s: "save_extra st" "maxpostingsize st \<le> M"
  defines "st' \<equiv> abt_dedup_start_pending st b off ai"
  shows "pend_ok nk ai M st' \<and> pend_entries st' = tuple_entries b"
    and "ds_base st' = Some b" "baseoff st' = off" "intervals st' = intervals st" "nitems st' = 1"
      "save_extra st' = save_extra st" "maxpostingsize st' = maxpostingsize st"
      "deduplicate st' = deduplicate st" "nmaxitems st' = nmaxitems st"
proof -
  note D = wf_leaf_tupleD [OF wf]
  show "pend_ok nk ai M st' \<and> pend_entries st' = tuple_entries b"
  proof (cases "IndexTupleSize b \<le> maxpostingsize st")
    case True
    with D s wf show ?thesis
      by (cases "ABTreeTupleIsPosting b")
        (auto simp: st'_def abt_dedup_start_pending_def Let_def pend_ok_def pend_entries_def nhtids_def
          ABTreeTupleGetPosting_def)
  next
    case False
    with s wf show ?thesis
      by (simp add: st'_def abt_dedup_start_pending_def Let_def pend_ok_def pend_entries_def nhtids_def)
  qed
qed (simp_all add: st'_def abt_dedup_start_pending_def Let_def)

lemma save_htid_True:
  assumes ok: "pend_ok nk ai M st" and n: "nhtids st > 0" and wf: "wf_leaf_tuple nk ai itup"
    and b: "ds_base st = Some b" and eq: "it_attrs b = it_attrs itup"
    and save: "abt_dedup_save_htid st itup ai = (True, st')"
  shows "pend_ok nk ai M st' \<and> pend_entries st' = pend_entries st @ tuple_entries itup"
proof -
  note D = wf_leaf_tupleD [OF wf]
  let ?t = "tuple_tids itup"
  have st': "st' = st\<lparr>nitems := nitems st + 1, ds_htids := ds_htids st @ ?t,
      ds_aggs := ds_aggs st @ it_aggs itup, ds_xmins := ds_xmins st @ it_xmins itup,
      phystupsize := phystupsize st + (MAXALIGN (IndexTupleSize itup) + sizeof_ItemIdData)\<rparr>"
    and fit: "basetupsize st + MAXALIGN ((nhtids st + length ?t) * 6)
        + (if leaf_has_agg ai then MAXALIGN (agg_stride ai * (nhtids st + length ?t)) else 0)
        + MAXALIGN (4 * (nhtids st + length ?t)) \<le> maxpostingsize st"
    using save n D ok b
    by (auto simp: abt_dedup_save_htid_def Let_def pend_ok_def ABTreeTupleGetPosting_def
        sizeof_ItemPointerData_def sizeof_TransactionId_def split: if_splits)
  let ?n = "nhtids st + length ?t"
  have "6 * ?n \<le> M" "4 * ?n \<le> M" "leaf_has_agg ai \<Longrightarrow> agg_stride ai * ?n \<le> M"
    using fit ok b MAXALIGN_ge [of "?n * 6"] MAXALIGN_ge [of "4 * ?n"]
      MAXALIGN_ge [of "agg_stride ai * ?n"]
    by (auto simp: pend_ok_def)
  moreover have "2 \<le> ?n" using n wf_tuple_tids_nonempty [OF wf] by (cases ?t) auto
  moreover have "nhtids st' = ?n" by (simp add: st' nhtids_def)
  ultimately have ok': "pend_ok nk ai M st'"
    using ok b n D(2,3) by (auto simp: pend_ok_def st')
  have "pend_entries st = mk_entries (it_attrs b) (ds_htids st) (ds_aggs st) (ds_xmins st)"
    using ok b n by (auto simp: pend_ok_def pend_entries_def tuple_entries_def)
  moreover have "pend_entries st' = mk_entries (it_attrs b) (ds_htids st @ ?t)
      (ds_aggs st @ it_aggs itup) (ds_xmins st @ it_xmins itup)"
    using ok b by (simp add: pend_ok_def pend_entries_def st')
  moreover have "mk_entries (it_attrs b) (ds_htids st @ ?t) (ds_aggs st @ it_aggs itup)
        (ds_xmins st @ it_xmins itup)
      = mk_entries (it_attrs b) (ds_htids st) (ds_aggs st) (ds_xmins st) @ tuple_entries itup"
    unfolding tuple_entries_def eq
    by (rule mk_entries_append [where b = "leaf_has_agg ai"])
      (use ok b D in \<open>simp_all add: pend_ok_def nhtids_def\<close>)
  ultimately show ?thesis using ok' by simp
qed

lemma save_htid_False:
  assumes "abt_dedup_save_htid st itup ai = (False, st')"
  shows "\<exists>k. st' = st\<lparr>nmaxitems := k\<rparr>"
  using assms by (auto simp: abt_dedup_save_htid_def Let_def split: if_splits)
    (metis ABTDedupState.surjective ABTDedupState.update_convs(3))+

lemma pend_nmaxitems [simp]:
  "pend_ok nk ai M (st\<lparr>nmaxitems := k\<rparr>) = pend_ok nk ai M st"
  "pend_entries (st\<lparr>nmaxitems := k\<rparr>) = pend_entries st"
  by (cases "ds_base st"; simp add: pend_ok_def pend_entries_def nhtids_def)+

definition new_item :: "IndexTupleData \<Rightarrow> PageItem" where
  "new_item t = \<lparr>lp_dead = False, lp_len = IndexTupleSize t, pi_tup = t\<rparr>"

lemma pend_form:
  assumes ok: "pend_ok nk ai M st" and M: "M \<le> 2040" and b: "ds_base st = Some b" and two: "1 < nitems st"
  defines "F \<equiv> (abt_form_posting b (ds_htids st) ai)\<lparr>it_aggs := ds_aggs st, it_xmins := ds_xmins st\<rparr>"
  shows "wf_leaf_tuple nk ai F" "tuple_entries F = pend_entries st"
    "IndexTupleSize F = posting_size ai (if ABTreeTupleIsPosting b then ABTreeTupleGetPostingOffset b
       else IndexTupleSize b) (nhtids st)"
    "(abt_form_posting b (ds_htids st) ai)\<lparr>it_aggs := (if leaf_has_agg ai then ds_aggs st
          else it_aggs (abt_form_posting b (ds_htids st) ai)), it_xmins := ds_xmins st\<rparr> = F"
proof -
  let ?ks = "if ABTreeTupleIsPosting b then ABTreeTupleGetPostingOffset b else IndexTupleSize b"
  let ?n = "length (ds_htids st)"
  have wfb: "wf_leaf_tuple nk ai b" using ok b by (simp add: pend_ok_def)
  have n: "2 \<le> ?n" "6 * ?n \<le> M" "4 * ?n \<le> M" "leaf_has_agg ai \<Longrightarrow> agg_stride ai * ?n \<le> M"
    and x: "length (ds_xmins st) = ?n" and g: "length (ds_aggs st) = (if leaf_has_agg ai then ?n else 0)"
    and sb: "IndexTupleSize b \<le> M"
    using ok b two by (auto simp: pend_ok_def nhtids_def)
  have "?ks \<le> M"
    using sb wfb posting_size_keysize [of "ABTreeTupleGetPostingOffset b" ai "ABTreeTupleGetNPosting b"]
    by (auto simp: wf_leaf_tuple_def split: if_splits)
  then have sz: "posting_size ai ?ks ?n < 2 ^ 13" using n(2-4) M by (rule posting_size_bound)
  have "?n < 2 ^ 12" using n M by simp
  from wf_form_posting [OF wfb n(1) this refl sz x g]
  show "wf_leaf_tuple nk ai F" "tuple_entries F = pend_entries st"
    "IndexTupleSize F = posting_size ai ?ks (nhtids st)"
    using two b by (simp_all add: pend_entries_def F_def nhtids_def)
  have "it_aggs (abt_form_posting b (ds_htids st) ai) = []" if "\<not> leaf_has_agg ai"
    using that by (simp add: abt_form_posting_def Let_def)
  with g show "(abt_form_posting b (ds_htids st) ai)\<lparr>it_aggs := (if leaf_has_agg ai then ds_aggs st
          else it_aggs (abt_form_posting b (ds_htids st) ai)), it_xmins := ds_xmins st\<rparr> = F"
    unfolding F_def by (cases "leaf_has_agg ai") simp_all
qed

lemma finish_pending:
  assumes ok: "pend_ok nk ai M st" and M: "M \<le> 2040"
    and fin: "abt_dedup_finish_pending page st ai = Some (page', st', s)"
  shows "\<exists>t. page' = page\<lparr>pd_linp := pd_linp page @ [new_item t]\<rparr> \<and> wf_leaf_tuple nk ai t
           \<and> tuple_entries t = pend_entries st"
    and "save_extra st'" "maxpostingsize st' = maxpostingsize st"
proof -
  obtain b where b: "ds_base st = Some b" using ok by (auto simp: pend_ok_def split: option.splits)
  have wfb: "wf_leaf_tuple nk ai b" and se: "save_extra st" using ok b by (simp_all add: pend_ok_def)
  show "save_extra st'" "maxpostingsize st' = maxpostingsize st"
    using fin b se by (auto simp: abt_dedup_finish_pending_def Let_def split: if_splits)
  show "\<exists>t. page' = page\<lparr>pd_linp := pd_linp page @ [new_item t]\<rparr> \<and> wf_leaf_tuple nk ai t
           \<and> tuple_entries t = pend_entries st"
  proof (cases "nitems st \<le> 1")
    case True
    with fin b have "PageAddItem page b (IndexTupleSize b) (PageGetMaxOffsetNumber page + 1) = Some page'"
      by (auto simp: abt_dedup_finish_pending_def Let_def)
    from PageAddItem_append [OF this] True wfb b show ?thesis
      by (auto simp: new_item_def pend_entries_def)
  next
    case False
    let ?F = "(abt_form_posting b (ds_htids st) ai)\<lparr>it_aggs := ds_aggs st, it_xmins := ds_xmins st\<rparr>"
    have two: "1 < nitems st" using False by simp
    note F = pend_form [OF ok M b two]
    have "PageAddItem page ?F (IndexTupleSize ?F) (PageGetMaxOffsetNumber page + 1) = Some page'"
      using fin unfolding abt_dedup_finish_pending_def b option.case Let_def
      using False se by (simp add: F(4) del: tuple_header_updates)
    from PageAddItem_append [OF this] F show ?thesis
      by (intro exI [of _ ?F]) (simp add: new_item_def)
  qed
qed

definition run_inv ::
  "nat \<Rightarrow> ABTCachedAggInfo \<Rightarrow> nat \<Rightarrow> PageData \<Rightarrow> IndexTupleData list \<Rightarrow> dedup_run \<Rightarrow> bool" where
  "run_inv nk ai M page0 seen run \<longleftrightarrow>
     pend_ok nk ai M (dr_state run)
     \<and> (\<exists>ts. dr_page run = page0\<lparr>pd_linp := pd_linp page0 @ map new_item ts\<rparr>
           \<and> (\<forall>t\<in>set ts. wf_leaf_tuple nk ai t)
           \<and> concat (map tuple_entries ts) @ pend_entries (dr_state run)
               = concat (map tuple_entries seen))"

lemma run_invE:
  assumes "run_inv nk ai M page0 seen run"
  obtains ts where "pend_ok nk ai M (dr_state run)"
    and "dr_page run = page0\<lparr>pd_linp := pd_linp page0 @ map new_item ts\<rparr>"
    and "\<forall>t\<in>set ts. wf_leaf_tuple nk ai t"
    and "concat (map tuple_entries ts) @ pend_entries (dr_state run)
               = concat (map tuple_entries seen)"
  using assms by (auto simp: run_inv_def)

lemma singleval_fillfactor_frame:
  "save_extra (abt_singleval_fillfactor st sz) = save_extra st"
  "maxpostingsize (abt_singleval_fillfactor st sz) \<le> maxpostingsize st"
  "intervals (abt_singleval_fillfactor st sz) = intervals st"
  by (simp_all add: abt_singleval_fillfactor_def Let_def)

lemma singleval_step_frame:
  assumes "dedup_singleval_step sz sv st = (st1, sv1)"
  shows "save_extra st1 = save_extra st" "maxpostingsize st1 \<le> maxpostingsize st"
    "intervals st1 = intervals st"
  using assms singleval_fillfactor_frame [of st sz]
  by (auto simp: dedup_singleval_step_def split: if_splits)

lemma close_and_start_inv:
  assumes inv: "run_inv nk ai M page0 seen run" and M: "M \<le> 2040" and wf: "wf_leaf_tuple nk ai itup"
    and run': "dedup_close_and_start ai sz offnum itup run = Some run'"
  shows "run_inv nk ai M page0 (seen @ [itup]) run'"
proof -
  obtain ts where ok: "pend_ok nk ai M (dr_state run)"
    and pg: "dr_page run = page0\<lparr>pd_linp := pd_linp page0 @ map new_item ts\<rparr>"
    and ts: "\<forall>t\<in>set ts. wf_leaf_tuple nk ai t"
    and ent: "concat (map tuple_entries ts) @ pend_entries (dr_state run)
               = concat (map tuple_entries seen)"
    using inv by (rule run_invE)
  from run' obtain page st s st1 sv where
    fin: "abt_dedup_finish_pending (dr_page run) (dr_state run) ai = Some (page, st, s)"
    and step: "dedup_singleval_step sz (dr_singleval run) st = (st1, sv)"
    and r: "dr_page run' = page" "dr_state run' = abt_dedup_start_pending st1 itup offnum ai"
    by (auto simp: dedup_close_and_start_def split: option.splits prod.splits)
  note st1 = singleval_step_frame [OF step]
  note F = finish_pending [OF ok M fin]
  obtain t where t: "page = (dr_page run)\<lparr>pd_linp := pd_linp (dr_page run) @ [new_item t]\<rparr>"
    "wf_leaf_tuple nk ai t" "tuple_entries t = pend_entries (dr_state run)" using F(1) by blast
  have mp: "maxpostingsize st1 \<le> M"
    using st1 F(3) ok by (auto simp: pend_ok_def split: option.splits)
  from start_pending_ok(1) [OF wf _ mp, of offnum] st1 F(2)
  have "pend_ok nk ai M (dr_state run')" "pend_entries (dr_state run') = tuple_entries itup"
    by (simp_all add: r)
  then show ?thesis
    unfolding run_inv_def
    using t ts pg ent by (auto simp: r intro!: exI [of _ "ts @ [t]"])
qed

lemma dedup_item_inv:
  assumes inv: "run_inv nk ai M page0 seen run" and M: "M \<le> 2040" and wf: "wf_leaf_tuple nk ai itup"
    and run': "dedup_item nk ai sz offnum itup run = Some run'"
  shows "run_inv nk ai M page0 (seen @ [itup]) run'"
proof -
  obtain b where b: "ds_base (dr_state run) = Some b" and wfb: "wf_leaf_tuple nk ai b"
    using inv by (auto simp: run_inv_def pend_ok_def split: option.splits)
  let ?merge_try = "deduplicate (dr_state run) \<and> nhtids (dr_state run) > 0 \<and> abt_keep_natts_fast nk b itup > nk"
  obtain saved st' where sv: "abt_dedup_save_htid (dr_state run) itup ai = (saved, st')"
    by (cases "abt_dedup_save_htid (dr_state run) itup ai")
  consider (merge) ?merge_try saved | (full) ?merge_try "\<not> saved" | (other) "\<not> ?merge_try" by blast
  then show ?thesis
  proof cases
    case merge
    then have eq: "it_attrs b = it_attrs itup"
      using keep_natts_fast_attrs wf_leaf_tupleD(1) [OF wf] wf_leaf_tupleD(1) [OF wfb] by blast
    have r: "run' = run\<lparr>dr_state := st'\<rparr>" using run' merge sv b by (simp add: dedup_item_def)
    show ?thesis using inv
    proof (rule run_invE)
      fix ts
      assume ok: "pend_ok nk ai M (dr_state run)"
        and pg: "dr_page run = page0\<lparr>pd_linp := pd_linp page0 @ map new_item ts\<rparr>"
        and ts: "\<forall>t\<in>set ts. wf_leaf_tuple nk ai t"
        and ent: "concat (map tuple_entries ts) @ pend_entries (dr_state run)
               = concat (map tuple_entries seen)"
      have "pend_ok nk ai M st' \<and> pend_entries st' = pend_entries (dr_state run) @ tuple_entries itup"
        using save_htid_True [OF ok _ wf b eq] merge sv by simp
      then show ?thesis using pg ts ent [symmetric] by (auto simp: run_inv_def r)
    qed
  next
    case full
    then obtain k where "st' = (dr_state run)\<lparr>nmaxitems := k\<rparr>" using save_htid_False [of "dr_state run" itup ai st'] sv by auto
    then have "run_inv nk ai M page0 seen (run\<lparr>dr_state := st'\<rparr>)"
      using inv by (simp add: run_inv_def)
    moreover have "dedup_close_and_start ai sz offnum itup (run\<lparr>dr_state := st'\<rparr>) = Some run'"
      using run' full sv b by (simp add: dedup_item_def)
    ultimately show ?thesis using close_and_start_inv M wf by blast
  next
    case other
    then have "dedup_close_and_start ai sz offnum itup run = Some run'"
      using run' b by (auto simp: dedup_item_def Let_def)
    with inv M wf show ?thesis by (rule close_and_start_inv)
  qed
qed

lemma dedup_items_inv:
  assumes "run_inv nk ai M page0 seen run" and "M \<le> 2040" and "\<forall>t\<in>set itups. wf_leaf_tuple nk ai t"
    and "dedup_items nk ai sz offnum itups run = Some run'"
  shows "run_inv nk ai M page0 (seen @ itups) run'"
  using assms
proof (induction itups arbitrary: offnum run seen)
  case (Cons itup itups)
  from Cons.prems(4) obtain run1 where
    1: "dedup_item nk ai sz offnum itup run = Some run1"
    and 2: "dedup_items nk ai sz (offnum + 1) itups run1 = Some run'"
    by (auto split: option.splits)
  have "run_inv nk ai M page0 (seen @ [itup]) run1"
    using dedup_item_inv [OF Cons.prems(1,2) _ 1] Cons.prems(3) by simp
  from Cons.IH [OF this Cons.prems(2) _ 2] Cons.prems(3) show ?case by simp
qed simp

definition page_entries ::
  "PageData \<Rightarrow> (Datum option list \<times> ItemPointerData \<times> Datum option \<times> TransactionId) list" where
  "page_entries page = concat (map tuple_entries (dedup_data_items page))"

definition wf_leaf_page :: "nat \<Rightarrow> ABTCachedAggInfo \<Rightarrow> PageData \<Rightarrow> bool" where
  "wf_leaf_page nk ai page = (\<forall>t\<in>set (dedup_data_items page). wf_leaf_tuple nk ai t)"

definition page_hikey :: "PageData \<Rightarrow> IndexTupleData option" where
  "page_hikey page =
     (if ABT_P_RIGHTMOST (pd_special page) then None
      else case pd_linp page of [] \<Rightarrow> None | lp # _ \<Rightarrow> Some (pi_tup lp))"

lemma ABTMaxItemSizeNoAgg_code [code]: "ABTMaxItemSizeNoAgg = 2696"
  by (simp add: ABTMaxItemSizeNoAgg_def MAXALIGN_DOWN_def MAXALIGN_def size_defs)

lemma dedup_maxpostingsize: "min (ABTMaxItemSizeNoAgg div 2) (unat INDEX_SIZE_MASK) = 1348"
  by (simp add: ABTMaxItemSizeNoAgg_def MAXALIGN_DOWN_def MAXALIGN_def size_defs INDEX_SIZE_MASK_def)

lemma copy_hikey:
  assumes "dedup_copy_hikey page = Some newpage" and "dedup_data_items page \<noteq> []"
  shows "pd_special newpage = pd_special page"
    and "length (pd_linp newpage) = ABT_P_FIRSTDATAKEY (pd_special page) - 1"
    and "page_hikey (newpage\<lparr>pd_linp := pd_linp newpage @ lps\<rparr>) = page_hikey page"
proof -
  show "pd_special newpage = pd_special page"
    and "length (pd_linp newpage) = ABT_P_FIRSTDATAKEY (pd_special page) - 1"
    using assms
    by (auto simp: dedup_copy_hikey_def PageGetTempPageCopySpecial_def PageAddItem_def Let_def
        PageGetMaxOffsetNumber_def ABTP_HIKEY_def ABTP_FIRSTKEY_def ABT_P_FIRSTDATAKEY_def split: if_splits)
  show "page_hikey (newpage\<lparr>pd_linp := pd_linp newpage @ lps\<rparr>) = page_hikey page"
    using assms
    by (cases "pd_linp page")
      (auto simp: dedup_copy_hikey_def PageGetTempPageCopySpecial_def PageAddItem_def Let_def
        PageGetMaxOffsetNumber_def ABTP_HIKEY_def page_hikey_def PageGetItemId_def
        dedup_data_items_def split: if_splits)
qed

lemma dedup_pass_correct:
  assumes wf: "wf_leaf_page nk ai page"
    and res: "dedup_pass nk page newitem sz cu ai = Some (newpage, st)"
  shows "page_entries newpage = page_entries page \<and> wf_leaf_page nk ai newpage
    \<and> pd_special newpage = pd_special page \<and> page_hikey newpage = page_hikey page"
proof -
  let ?minoff = "ABT_P_FIRSTDATAKEY (pd_special page)"
  from res obtain itup itups sv page0 run s where
    items: "dedup_data_items page = itup # itups"
    and hk: "dedup_copy_hikey page = Some page0"
    and loop: "dedup_items nk ai sz (?minoff + 1) itups
        \<lparr>dr_page = page0, dr_state = abt_dedup_start_pending (dedup_init_state 1348) itup ?minoff ai,
         dr_saving = 0, dr_singleval = sv\<rparr> = Some run"
    and fin: "abt_dedup_finish_pending (dr_page run) (dr_state run) ai = Some (newpage, st, s)"
    unfolding dedup_pass_def dedup_maxpostingsize
    by (auto simp: Let_def split: list.splits option.splits)
  have wf1: "wf_leaf_tuple nk ai itup" and wfs: "\<forall>t\<in>set itups. wf_leaf_tuple nk ai t"
    using wf items by (simp_all add: wf_leaf_page_def)
  have M: "(1348::nat) \<le> 2040" by simp
  have "pend_ok nk ai 1348 (abt_dedup_start_pending (dedup_init_state 1348) itup ?minoff ai)
      \<and> pend_entries (abt_dedup_start_pending (dedup_init_state 1348) itup ?minoff ai) = tuple_entries itup"
    by (rule start_pending_ok(1) [OF wf1]) (simp_all add: dedup_init_state_def)
  then have "run_inv nk ai 1348 page0 [itup]
      \<lparr>dr_page = page0, dr_state = abt_dedup_start_pending (dedup_init_state 1348) itup ?minoff ai,
         dr_saving = 0, dr_singleval = sv\<rparr>"
    by (auto simp: run_inv_def intro!: exI [of _ "[]"])
  from dedup_items_inv [OF this M wfs loop]
  obtain ts where ok: "pend_ok nk ai 1348 (dr_state run)"
    and pg: "dr_page run = page0\<lparr>pd_linp := pd_linp page0 @ map new_item ts\<rparr>"
    and ts: "\<forall>t\<in>set ts. wf_leaf_tuple nk ai t"
    and ent: "concat (map tuple_entries ts) @ pend_entries (dr_state run)
               = concat (map tuple_entries ([itup] @ itups))" by (rule run_invE)
  obtain t where t: "newpage = (dr_page run)\<lparr>pd_linp := pd_linp (dr_page run) @ [new_item t]\<rparr>"
    "wf_leaf_tuple nk ai t" "tuple_entries t = pend_entries (dr_state run)"
    using finish_pending(1) [OF ok M fin] by blast
  have np: "newpage = page0\<lparr>pd_linp := pd_linp page0 @ map new_item (ts @ [t])\<rparr>"
    using t(1) pg by simp
  have ne: "dedup_data_items page \<noteq> []" using items by simp
  note H = copy_hikey [OF hk ne]
  have hk_new: "page_hikey newpage = page_hikey page" and sp: "pd_special newpage = pd_special page"
    using H(1) H(3) [of "map new_item (ts @ [t])"] by (simp_all add: np)
  have "map (pi_tup \<circ> new_item) ts = ts" by (simp add: new_item_def comp_def)
  then have "dedup_data_items newpage = ts @ [t]"
    unfolding dedup_data_items_def sp using H(2) by (simp add: np new_item_def)
  then show ?thesis
    using ts t ent items hk_new sp by (auto simp: page_entries_def wf_leaf_page_def)
qed

definition live_entries ::
  "PageData \<Rightarrow> (Datum option list \<times> ItemPointerData \<times> Datum option \<times> TransactionId) list" where
  "live_entries page =
     concat (map (\<lambda>lp. tuple_entries (pi_tup lp))
       (filter (\<lambda>lp. \<not> lp_dead lp) (drop (ABT_P_FIRSTDATAKEY (pd_special page) - 1) (pd_linp page))))"

lemma multi_delete_dead_from:
  "m \<le> length lps \<Longrightarrow> multi_delete offnum lps (dead_offsets (offnum + m) (drop m lps))
     = Some (take m lps @ filter (\<lambda>lp. \<not> lp_dead lp) (drop m lps))"
proof (induction m arbitrary: offnum lps)
  case (Suc m)
  then obtain lp lps' where l: "lps = lp # lps'" by (cases lps) auto
  have "multi_delete offnum (lp # lps') (dead_offsets (offnum + Suc m) (drop m lps'))
      = map_option (\<lambda>r. lp # r) (multi_delete (offnum + 1) lps' (dead_offsets (offnum + Suc m) (drop m lps')))"
    by (rule multi_delete_skip) (auto dest: dead_offsets_ge)
  then show ?case using Suc.IH [of lps' "offnum + 1"] Suc.prems l by simp
qed (simp add: multi_delete_dead)

lemma delitems_delete_dead:
  fixes page
  defines "m \<equiv> ABT_P_FIRSTDATAKEY (pd_special page)"
  assumes "m - 1 \<le> length (pd_linp page)"
    and "abt_delitems_delete page (dead_offsets m (drop (m - 1) (pd_linp page))) = Some page1"
  shows "pd_linp page1 = take (m - 1) (pd_linp page)
           @ filter (\<lambda>lp. \<not> lp_dead lp) (drop (m - 1) (pd_linp page))"
    and "pd_special page1 = (pd_special page)\<lparr>abtpo_flags :=
           (abtpo_flags (pd_special page) AND NOT ABTP_HAS_GARBAGE) OR ABTP_HAD_GARBAGE_REMOVED\<rparr>"
proof -
  have "1 + (m - 1) = m"
    by (simp add: m_def ABT_P_FIRSTDATAKEY_def ABTP_HIKEY_def ABTP_FIRSTKEY_def)
  moreover from this have "PageIndexMultiDelete page (dead_offsets m (drop (m - 1) (pd_linp page)))
      = map_option (\<lambda>r. page\<lparr>pd_linp := r\<rparr>)
          (multi_delete 1 (pd_linp page) (dead_offsets m (drop (m - 1) (pd_linp page))))"
    by (intro PageIndexMultiDelete_sorted dead_offsets_sorted) (auto dest: dead_offsets_ge)
  ultimately show "pd_linp page1 = take (m - 1) (pd_linp page)
           @ filter (\<lambda>lp. \<not> lp_dead lp) (drop (m - 1) (pd_linp page))"
    and "pd_special page1 = (pd_special page)\<lparr>abtpo_flags :=
           (abtpo_flags (pd_special page) AND NOT ABTP_HAS_GARBAGE) OR ABTP_HAD_GARBAGE_REMOVED\<rparr>"
    using assms(3) multi_delete_dead_from [OF assms(2), of 1]
    by (auto simp: abt_delitems_delete_def)
qed

lemma dead_offsets_empty: "dead_offsets n lps = [] \<longleftrightarrow> (\<forall>lp\<in>set lps. \<not> lp_dead lp)"
  by (induction lps arbitrary: n) auto

text \<open>First step of the pass: the page without its dead items.\<close>

lemma dedup_first_step:
  fixes page
  defines "m \<equiv> ABT_P_FIRSTDATAKEY (pd_special page)"
  assumes wf: "wf_leaf_page nk ai page" and len: "m - 1 \<le> length (pd_linp page)"
    and step: "dedup_remove_dead page = Some (del, page1)"
  shows "wf_leaf_page nk ai page1" "page_entries page1 = live_entries page"
    "page_hikey page1 = page_hikey page"
    "abtpo_next (pd_special page1) = abtpo_next (pd_special page)"
proof -
  let ?D = "drop (m - 1) (pd_linp page)" and ?T = "take (m - 1) (pd_linp page)"
  let ?live = "filter (\<lambda>lp. \<not> lp_dead lp) ?D"
  have nx: "abtpo_next (pd_special page1) = abtpo_next (pd_special page)"
    and lp: "pd_linp page1 = ?T @ ?live"
  proof -
    have "abtpo_next (pd_special page1) = abtpo_next (pd_special page) \<and> pd_linp page1 = ?T @ ?live"
    proof (cases "dead_offsets m ?D = []")
      case True
      then have "filter (\<lambda>lp. \<not> lp_dead lp) ?D = ?D" by (simp add: dead_offsets_empty)
      with True step show ?thesis by (simp add: dedup_remove_dead_def m_def)
    next
      case False
      with step have "abt_delitems_delete page (dead_offsets m ?D) = Some page1"
        by (auto simp: dedup_remove_dead_def m_def Let_def)
      from delitems_delete_dead [OF len [unfolded m_def] this [unfolded m_def]]
      show ?thesis by (simp add: m_def)
    qed
    then show "abtpo_next (pd_special page1) = abtpo_next (pd_special page)"
      and "pd_linp page1 = ?T @ ?live" by simp_all
  qed
  have r: "ABT_P_RIGHTMOST (pd_special page1) = ABT_P_RIGHTMOST (pd_special page)"
    using nx by (simp add: ABT_P_RIGHTMOST_def)
  then have m1: "ABT_P_FIRSTDATAKEY (pd_special page1) = m" by (simp add: m_def ABT_P_FIRSTDATAKEY_def)
  have items: "dedup_data_items page1 = map pi_tup ?live"
    unfolding dedup_data_items_def m1 lp using len by simp
  show "wf_leaf_page nk ai page1"
    using wf unfolding wf_leaf_page_def items by (auto simp: dedup_data_items_def m_def)
  show "page_entries page1 = live_entries page"
    by (simp add: page_entries_def items live_entries_def m_def comp_def)
  show "page_hikey page1 = page_hikey page"
    using len by (cases "pd_linp page")
      (auto simp: page_hikey_def r lp m_def ABT_P_FIRSTDATAKEY_def ABTP_FIRSTKEY_def)
  show "abtpo_next (pd_special page1) = abtpo_next (pd_special page)" by (rule nx)
qed

lemma page_entries_flags [simp]:
  "page_entries (p\<lparr>pd_special := (pd_special p)\<lparr>abtpo_flags := f\<rparr>\<rparr>) = page_entries p"
  "wf_leaf_page nk ai (p\<lparr>pd_special := (pd_special p)\<lparr>abtpo_flags := f\<rparr>\<rparr>) = wf_leaf_page nk ai p"
  "page_hikey (p\<lparr>pd_special := (pd_special p)\<lparr>abtpo_flags := f\<rparr>\<rparr>) = page_hikey p"
  by (simp_all add: page_entries_def wf_leaf_page_def page_hikey_def dedup_data_items_def
      ABT_P_FIRSTDATAKEY_def ABT_P_RIGHTMOST_def)

lemma clear_garbage [simp]:
  "page_entries (dedup_clear_garbage p q) = page_entries q"
  "wf_leaf_page nk ai (dedup_clear_garbage p q) = wf_leaf_page nk ai q"
  "page_hikey (dedup_clear_garbage p q) = page_hikey q"
  by (simp_all add: dedup_clear_garbage_def)

lemma one_page_preserves:
  assumes wf: "wf_leaf_page nk ai page"
    and len: "ABT_P_FIRSTDATAKEY (pd_special page) - 1 \<le> length (pd_linp page)"
    and res: "abt_dedup_one_page nk page newitem sz cu ai = Some (page', ivs)"
  shows "page_entries page' = live_entries page \<and> wf_leaf_page nk ai page'
    \<and> page_hikey page' = page_hikey page"
proof -
  from res obtain del page1 where step: "dedup_remove_dead page = Some (del, page1)"
    by (auto simp: abt_dedup_one_page_def split: option.splits)
  note S = dedup_first_step [OF wf len step]
  have "page' = page1 \<or> (\<exists>newpage st. dedup_pass nk page1 newitem (sz + sizeof_ItemIdData) cu ai
      = Some (newpage, st) \<and> page' = dedup_clear_garbage page1 newpage)"
    using res step by (auto simp: abt_dedup_one_page_def split: option.splits if_splits)
  then show ?thesis
    using dedup_pass_correct [OF S(1)] S by fastforce
qed

text \<open>When equal keys are stored with ascending heap TIDs, every posting list is valid.\<close>

definition entries_ordered ::
  "(Datum option list \<times> ItemPointerData \<times> Datum option \<times> TransactionId) list \<Rightarrow> bool" where
  "entries_ordered es =
     ((\<forall>e\<in>set es. ItemPointerIsValid (fst (snd e)))
      \<and> (\<forall>i<length es - 1. fst (es ! i) = fst (es ! Suc i) \<longrightarrow> fst (snd (es ! i)) < fst (snd (es ! Suc i))))"

lemma entries_ordered_middle:
  assumes "entries_ordered (xs @ ys @ zs)"
  shows "entries_ordered ys"
  unfolding entries_ordered_def
proof (intro conjI allI impI ballI)
  fix e
  assume "e \<in> set ys"
  then show "ItemPointerIsValid (fst (snd e))" using assms by (auto simp: entries_ordered_def)
next
  fix i
  assume i: "i < length ys - 1" and eq: "fst (ys ! i) = fst (ys ! Suc i)"
  have n: "(xs @ ys @ zs) ! (length xs + i) = ys ! i" "(xs @ ys @ zs) ! Suc (length xs + i) = ys ! Suc i"
  proof -
    have "i < length ys" "Suc i < length ys" using i by simp_all
    then show "(xs @ ys @ zs) ! (length xs + i) = ys ! i" "(xs @ ys @ zs) ! Suc (length xs + i) = ys ! Suc i"
      by (simp_all add: nth_append)
  qed
  moreover have "length xs + i < length (xs @ ys @ zs) - 1" using i by simp
  ultimately show "fst (snd (ys ! i)) < fst (snd (ys ! Suc i))"
    using assms eq unfolding entries_ordered_def by metis
qed

lemma ordered_posting_valid:
  assumes wf: "wf_leaf_tuple nk ai t" and p: "ABTreeTupleIsPosting t" and ord: "entries_ordered (tuple_entries t)"
  shows "abt_posting_valid t"
proof -
  let ?h = "it_htids t"
  have l: "length ?h = ABTreeTupleGetNPosting t" "2 \<le> ABTreeTupleGetNPosting t" and tt: "tuple_tids t = ?h"
    using wf p wf_leaf_tupleD(6) [OF wf p] by (simp_all add: wf_leaf_tuple_def)
  have len: "length (tuple_entries t) = length ?h" by (simp add: tuple_entries_def tt)
  have nth: "fst (snd (tuple_entries t ! i)) = ?h ! i" "fst (tuple_entries t ! i) = it_attrs t"
    if "i < length ?h" for i
    using that by (simp_all add: tuple_entries_def mk_entries_def tt)
  have "?h ! i < ?h ! Suc i" if "Suc i < length ?h" for i
  proof -
    have i: "i < length ?h" using that by simp
    have "i < length (tuple_entries t) - 1" using that len by simp
    then have "fst (tuple_entries t ! i) = fst (tuple_entries t ! Suc i)
        \<longrightarrow> fst (snd (tuple_entries t ! i)) < fst (snd (tuple_entries t ! Suc i))"
      using ord unfolding entries_ordered_def by blast
    then show ?thesis unfolding nth [OF i] nth [OF that] by simp
  qed
  then have "sorted_wrt (<) ?h" unfolding sorted_wrt_iff_nth_Suc_transp [OF transp_on_less] by blast
  moreover have "ItemPointerIsValid x" if x: "x \<in> set ?h" for x
  proof -
    obtain i where i: "i < length ?h" "x = ?h ! i" using x unfolding in_set_conv_nth by blast
    have "tuple_entries t ! i \<in> set (tuple_entries t)" using i(1) len by (simp only: nth_mem)
    then have "ItemPointerIsValid (fst (snd (tuple_entries t ! i)))"
      using ord unfolding entries_ordered_def by (elim conjE) (rule bspec)
    then show ?thesis unfolding nth(1) [OF i(1)] i(2) .
  qed
  ultimately show ?thesis unfolding posting_valid_iff [OF l(1)] using p l(2) by blast
qed

lemma ordered_page_postings_valid:
  assumes "wf_leaf_page nk ai page" and "entries_ordered (page_entries page)"
    and "t \<in> set (dedup_data_items page)" and "ABTreeTupleIsPosting t"
  shows "abt_posting_valid t"
proof -
  obtain xs ys where "dedup_data_items page = xs @ t # ys" using assms(3) by (meson split_list)
  then have "page_entries page = concat (map tuple_entries xs) @ tuple_entries t @ concat (map tuple_entries ys)"
    by (simp add: page_entries_def)
  then have o: "entries_ordered (tuple_entries t)" using assms(2) by (metis entries_ordered_middle)
  have "wf_leaf_tuple nk ai t" using assms(1,3) by (simp add: wf_leaf_page_def)
  then show ?thesis by (rule ordered_posting_valid [OF _ assms(4) o])
qed

section \<open>Properties\<close>

definition ex_page :: PageData where
  "ex_page = \<lparr>pd_linp = [new_item (ex_plain 5 1), new_item (ex_plain 5 2), (new_item (ex_plain 5 4))\<lparr>lp_dead := True\<rparr>,
              new_item (ex_plain 6 1)],
     pd_special = \<lparr>abtpo_prev = 0, abtpo_next = 0, abtpo_level = 0, abtpo_flags = 65,
       abtpo_cycleid = 0, abtpo_last_update_id = 0\<rparr>\<rparr>"

lemma dedup_ex_page: "abt_dedup_one_page 1 ex_page (ex_plain 5 9) 8100 False ex_agg_info \<noteq> None"
  by code_simp

lemma ex_page_wf: "wf_leaf_page 1 ex_agg_info ex_page"
  "ABT_P_FIRSTDATAKEY (pd_special ex_page) - 1 \<le> length (pd_linp ex_page)"
  "entries_ordered (live_entries ex_page)"
  by code_simp+

text \<open>
  C6. A deduplication pass changes the representation of a leaf page and not its contents: the
  entries of the resulting page (key, heap TID, aggregation value and xmin, in order) are those of
  the items of the old page that were not marked dead, all tuples are well formed, and the high key
  is the old one.
\<close>

theorem abt_dedup_one_page_preserves:
  assumes "wf_leaf_page nk ai page"
    and "ABT_P_FIRSTDATAKEY (pd_special page) - 1 \<le> length (pd_linp page)"
    and "abt_dedup_one_page nk page newitem sz cu ai = Some (page', ivs)"
  shows "page_entries page' = live_entries page \<and> wf_leaf_page nk ai page'
    \<and> page_hikey page' = page_hikey page"
  using one_page_preserves [OF assms] .

theorem abt_dedup_one_page_preserves_witness:
  "\<exists>page' ivs. abt_dedup_one_page 1 ex_page (ex_plain 5 9) 8100 False ex_agg_info = Some (page', ivs)
     \<and> page_entries page' = live_entries ex_page"
proof -
  obtain page' ivs where
    r: "abt_dedup_one_page 1 ex_page (ex_plain 5 9) 8100 False ex_agg_info = Some (page', ivs)"
    using dedup_ex_page by auto
  then show ?thesis using abt_dedup_one_page_preserves [OF ex_page_wf(1,2) r] by blast
qed

text \<open>
  C25. Deduplication keeps posting lists valid: when entries with equal keys are stored with valid
  and strictly ascending heap TIDs, every posting list of the resulting page passes the validity
  check of the code.
\<close>

theorem abt_dedup_one_page_posting_valid:
  assumes wf: "wf_leaf_page nk ai page"
    and len: "ABT_P_FIRSTDATAKEY (pd_special page) - 1 \<le> length (pd_linp page)"
    and ord: "entries_ordered (live_entries page)"
    and res: "abt_dedup_one_page nk page newitem sz cu ai = Some (page', ivs)"
    and t: "t \<in> set (dedup_data_items page')" "ABTreeTupleIsPosting t"
  shows "abt_posting_valid t"
  using one_page_preserves [OF wf len res] ord t by (auto intro: ordered_page_postings_valid)

theorem abt_dedup_one_page_posting_valid_witness:
  "\<exists>page' ivs. abt_dedup_one_page 1 ex_page (ex_plain 5 9) 8100 False ex_agg_info = Some (page', ivs)
     \<and> list_all (\<lambda>t. ABTreeTupleIsPosting t \<longrightarrow> abt_posting_valid t) (dedup_data_items page')"
proof -
  obtain page' ivs where
    r: "abt_dedup_one_page 1 ex_page (ex_plain 5 9) 8100 False ex_agg_info = Some (page', ivs)"
    using dedup_ex_page by auto
  moreover have "list_all (\<lambda>t. ABTreeTupleIsPosting t \<longrightarrow> abt_posting_valid t) (dedup_data_items page')"
    unfolding list_all_iff using abt_dedup_one_page_posting_valid [OF ex_page_wf r] by blast
  ultimately show ?thesis by blast
qed

end
