(* ===== verification/Dedup_Space.thy ===== *)
theory Dedup_Space
  imports Dedup
begin

text \<open>
  Space accounting of deduplication (abtdedup.c). For an index whose leaf tuples carry no
  aggregation value, a deduplication pass never runs out of room on the temporary page and the
  resulting page occupies at most the space of the old one. The last lemma shows that leaf
  aggregation values break the accounting.
\<close>

section \<open>Space\<close>

definition tuple_space :: "IndexTupleData \<Rightarrow> nat" where
  "tuple_space t = MAXALIGN (IndexTupleSize t) + sizeof_ItemIdData"

definition page_used :: "PageData \<Rightarrow> nat" where
  "page_used page = (\<Sum>lp\<leftarrow>pd_linp page. MAXALIGN (lp_len lp) + sizeof_ItemIdData)"

lemma page_used_conv:
  "int (page_used page) = int (\<Sum>lp\<leftarrow>pd_linp page. MAXALIGN (lp_len lp)) + 4 * int (length (pd_linp page))"
proof -
  have "page_used page = (\<Sum>lp\<leftarrow>pd_linp page. MAXALIGN (lp_len lp)) + 4 * length (pd_linp page)"
    unfolding page_used_def by (induction "pd_linp page") (simp_all add: sum_list_addf sum_list_triv sizeof_ItemIdData_def mult.commute)
  then show ?thesis by simp
qed

lemma free_space_conv: "pd_upper page - pd_lower page = 8144 - int (page_used page)"
  unfolding page_used_conv
  by (simp add: pd_upper_def pd_lower_def size_defs MAXALIGN_def)

lemma PageAddItem_fits:
  "PageAddItem page t sz (PageGetMaxOffsetNumber page + 1)
     = (if page_used page + MAXALIGN sz + 4 \<le> 8144
        then Some (page\<lparr>pd_linp := pd_linp page @ [\<lparr>lp_dead = False, lp_len = sz, pi_tup = t\<rparr>]\<rparr>)
        else None)"
proof -
  have "(pd_lower page + int sizeof_ItemIdData > pd_upper page - int (MAXALIGN sz))
      \<longleftrightarrow> \<not> page_used page + MAXALIGN sz + 4 \<le> 8144"
    using free_space_conv [of page] by (simp add: sizeof_ItemIdData_def) linarith
  then show ?thesis by (simp add: PageAddItem_def PageGetMaxOffsetNumber_def Let_def)
qed

text \<open>The space that the tuples of a pending list free pays for the tuple that replaces them.\<close>

definition pend_keysize :: "ABTDedupState \<Rightarrow> nat" where
  "pend_keysize st =
     (case ds_base st of None \<Rightarrow> 0
      | Some b \<Rightarrow> if ABTreeTupleIsPosting b then ABTreeTupleGetPostingOffset b else IndexTupleSize b)"

definition space_ok :: "ABTCachedAggInfo \<Rightarrow> ABTDedupState \<Rightarrow> bool" where
  "space_ok ai st =
     (case ds_base st of None \<Rightarrow> False
      | Some b \<Rightarrow> if nitems st \<le> 1 then phystupsize st = tuple_space b
                  else posting_size ai (pend_keysize st) (nhtids st) + sizeof_ItemIdData \<le> phystupsize st)"

definition min_sized :: "IndexTupleData \<Rightarrow> bool" where
  "min_sized t = (if ABTreeTupleIsPosting t then 16 \<le> ABTreeTupleGetPostingOffset t else 24 \<le> IndexTupleSize t)"

lemma posting_size_add:
  assumes "\<not> leaf_has_agg ai" "ks mod 8 = 0"
  shows "posting_size ai ks n = ks + MAXALIGN (6 * n) + MAXALIGN (4 * n)"
  using assms by (simp add: posting_size_def sizeof_ItemPointerData_def sizeof_TransactionId_def MAXALIGN_add mult.commute)

lemma save_space:
  assumes na: "\<not> leaf_has_agg ai" and ok: "pend_ok nk ai M st" and sp: "space_ok ai st"
    and n: "nhtids st > 0" and wf: "wf_leaf_tuple nk ai itup" and ms: "min_sized itup"
    and b: "ds_base st = Some b"
    and save: "abt_dedup_save_htid st itup ai = (True, st')"
  shows "space_ok ai st' \<and> phystupsize st' = phystupsize st + tuple_space itup"
proof -
  note D = wf_leaf_tupleD [OF wf]
  let ?m = "length (tuple_tids itup)" and ?ks = "pend_keysize st"
  have st': "phystupsize st' = phystupsize st + tuple_space itup" "nhtids st' = nhtids st + ?m"
    "nitems st' = nitems st + 1" "ds_base st' = Some b"
    using save n D b
    by (auto simp: abt_dedup_save_htid_def Let_def ABTreeTupleGetPosting_def nhtids_def tuple_space_def split: if_splits)
  have wfb: "wf_leaf_tuple nk ai b" and k1: "1 \<le> nitems st" using ok b by (simp_all add: pend_ok_def)
  have ks8: "?ks mod 8 = 0" using wfb b by (simp add: pend_keysize_def wf_leaf_tuple_def)
  have ks': "pend_keysize st' = ?ks" using st' b by (simp add: pend_keysize_def)
  have item: "MAXALIGN (6 * ?m) + MAXALIGN (4 * ?m) + 20 \<le> tuple_space itup \<or> ?m = 1 \<and> 28 \<le> tuple_space itup"
  proof (cases "ABTreeTupleIsPosting itup")
    case True
    then have "IndexTupleSize itup = ABTreeTupleGetPostingOffset itup + MAXALIGN (6 * ?m) + MAXALIGN (4 * ?m)"
      using wf D(5) na by (simp add: wf_leaf_tuple_def posting_size_add)
    with True ms MAXALIGN_ge [of "IndexTupleSize itup"] show ?thesis
      by (simp add: min_sized_def tuple_space_def sizeof_ItemIdData_def)
  next
    case False
    with ms MAXALIGN_ge [of "IndexTupleSize itup"] D(7) show ?thesis
      by (simp add: min_sized_def tuple_space_def sizeof_ItemIdData_def)
  qed
  have base: "?ks + MAXALIGN (6 * nhtids st) + MAXALIGN (4 * nhtids st) + 4 \<le> phystupsize st
      \<or> nhtids st = 1 \<and> ?ks + 4 \<le> phystupsize st"
  proof (cases "nitems st \<le> 1")
    case True
    then have h: "ds_htids st = tuple_tids b" using ok b n k1 by (auto simp: pend_ok_def)
    show ?thesis
    proof (cases "ABTreeTupleIsPosting b")
      case True
      then show ?thesis
        using \<open>nitems st \<le> 1\<close> sp b wfb na ks8 h wf_leaf_tupleD(5) [OF wfb] MAXALIGN_ge [of "IndexTupleSize b"]
        by (simp add: space_ok_def pend_keysize_def tuple_space_def sizeof_ItemIdData_def nhtids_def
            wf_leaf_tuple_def posting_size_add)
    next
      case False
      then show ?thesis
        using \<open>nitems st \<le> 1\<close> sp b h wf_leaf_tupleD(7) [OF wfb] MAXALIGN_ge [of "IndexTupleSize b"]
        by (simp add: space_ok_def pend_keysize_def tuple_space_def sizeof_ItemIdData_def nhtids_def)
    qed
  next
    case False
    with sp b na ks8 show ?thesis by (simp add: space_ok_def posting_size_add sizeof_ItemIdData_def)
  qed
  have s1: "MAXALIGN (6 * (nhtids st + ?m)) \<le> MAXALIGN (6 * nhtids st) + MAXALIGN (6 * ?m)"
    "MAXALIGN (4 * (nhtids st + ?m)) \<le> MAXALIGN (4 * nhtids st) + MAXALIGN (4 * ?m)"
    by (simp_all add: add_mult_distrib2 MAXALIGN_sub)
  have c: "MAXALIGN 6 = 8" "MAXALIGN 4 = 8" "MAXALIGN 12 = 16" "MAXALIGN 8 = 8" by (simp_all add: MAXALIGN_def)
  have "?ks + MAXALIGN (6 * (nhtids st + ?m)) + MAXALIGN (4 * (nhtids st + ?m)) + 4 \<le> phystupsize st + tuple_space itup"
    using item base
  proof (elim disjE conjE)
    assume "?m = 1" "28 \<le> tuple_space itup" "nhtids st = 1" "?ks + 4 \<le> phystupsize st"
    then show ?thesis using c by simp
  qed (use s1 c in simp_all)
  then show ?thesis
    using st' k1 na ks8 by (simp add: space_ok_def ks' posting_size_add sizeof_ItemIdData_def)
qed

lemma start_space [simp]: "space_ok ai (abt_dedup_start_pending st b off ai)"
  "phystupsize (abt_dedup_start_pending st b off ai) = tuple_space b"
  by (simp_all add: space_ok_def abt_dedup_start_pending_def Let_def tuple_space_def)

lemma page_used_append:
  "page_used (page\<lparr>pd_linp := pd_linp page @ lps\<rparr>)
     = page_used page + (\<Sum>lp\<leftarrow>lps. MAXALIGN (lp_len lp) + sizeof_ItemIdData)"
  by (simp add: page_used_def)

lemma finish_space:
  assumes ok: "pend_ok nk ai M st" and M: "M \<le> 2040" and sp: "space_ok ai st"
    and fits: "page_used page + phystupsize st \<le> 8144"
  shows "\<exists>page' st' s. abt_dedup_finish_pending page st ai = Some (page', st', s)
    \<and> page_used page' \<le> page_used page + phystupsize st"
proof -
  obtain b where b: "ds_base st = Some b" using ok by (auto simp: pend_ok_def split: option.splits)
  show ?thesis
  proof (cases "nitems st \<le> 1")
    case True
    then show ?thesis using b sp fits
      by (auto simp: abt_dedup_finish_pending_def Let_def PageAddItem_fits [simplified] space_ok_def
          tuple_space_def page_used_append sizeof_ItemIdData_def)
  next
    case False
    let ?F = "(abt_form_posting b (ds_htids st) ai)\<lparr>it_aggs := ds_aggs st, it_xmins := ds_xmins st\<rparr>"
    have two: "1 < nitems st" using False by simp
    note F = pend_form [OF ok M b two]
    have size: "IndexTupleSize ?F = posting_size ai (pend_keysize st) (nhtids st)"
      using F(3) b by (simp add: pend_keysize_def)
    then have "MAXALIGN (IndexTupleSize ?F) + 4 \<le> phystupsize st"
      using sp b False by (simp add: space_ok_def MAXALIGN_id sizeof_ItemIdData_def)
    moreover have "save_extra st" using ok b by (simp add: pend_ok_def)
    ultimately show ?thesis
      unfolding abt_dedup_finish_pending_def b option.case Let_def
      using False fits
      by (simp add: F(4) PageAddItem_fits [simplified] page_used_append sizeof_ItemIdData_def
          del: tuple_header_updates)
  qed
qed

lemma space_ok_nmaxitems [simp]: "space_ok ai (st\<lparr>nmaxitems := k\<rparr>) = space_ok ai st"
  by (cases "ds_base st") (simp_all add: space_ok_def pend_keysize_def nhtids_def cong: if_cong)

lemma dedup_item_total:
  assumes inv: "run_inv nk ai M page0 seen run" and M: "M \<le> 2040" and na: "\<not> leaf_has_agg ai"
    and wf: "wf_leaf_tuple nk ai itup" and ms: "min_sized itup" and sp: "space_ok ai (dr_state run)"
    and fits: "page_used (dr_page run) + phystupsize (dr_state run) \<le> 8144"
  shows "\<exists>run'. dedup_item nk ai sz offnum itup run = Some run' \<and> space_ok ai (dr_state run')
    \<and> page_used (dr_page run') + phystupsize (dr_state run')
        \<le> page_used (dr_page run) + phystupsize (dr_state run) + tuple_space itup"
proof -
  let ?st = "dr_state run"
  have ok: "pend_ok nk ai M ?st" using inv by (simp add: run_inv_def)
  obtain b where b: "ds_base ?st = Some b" using ok by (auto simp: pend_ok_def split: option.splits)
  obtain saved st' where sv: "abt_dedup_save_htid ?st itup ai = (saved, st')"
    by (cases "abt_dedup_save_htid ?st itup ai")
  have close: "\<exists>run'. dedup_close_and_start ai sz offnum itup (run\<lparr>dr_state := ?st\<lparr>nmaxitems := k\<rparr>\<rparr>) = Some run'
      \<and> space_ok ai (dr_state run') \<and> page_used (dr_page run') + phystupsize (dr_state run')
        \<le> page_used (dr_page run) + phystupsize ?st + tuple_space itup" for k
  proof -
    obtain page' st1 s where
      "abt_dedup_finish_pending (dr_page run) (?st\<lparr>nmaxitems := k\<rparr>) ai = Some (page', st1, s)"
      "page_used page' \<le> page_used (dr_page run) + phystupsize ?st"
      using finish_space [of nk ai M "?st\<lparr>nmaxitems := k\<rparr>" "dr_page run"] ok M fits sp by auto
    then show ?thesis
      by (cases "dedup_singleval_step sz (dr_singleval run) st1") (simp add: dedup_close_and_start_def)
  qed
  let ?merge_try = "deduplicate ?st \<and> nhtids ?st > 0 \<and> abt_keep_natts_fast nk b itup > nk"
  consider (merge) ?merge_try saved | (full) ?merge_try "\<not> saved" | (other) "\<not> ?merge_try" by blast
  then show ?thesis
  proof cases
    case merge
    then have "dedup_item nk ai sz offnum itup run = Some (run\<lparr>dr_state := st'\<rparr>)"
      using sv b by (simp add: dedup_item_def)
    moreover have "space_ok ai st' \<and> phystupsize st' = phystupsize ?st + tuple_space itup"
      using save_space [OF na ok sp _ wf ms b] merge sv by simp
    ultimately show ?thesis by simp
  next
    case full
    then obtain k where "st' = ?st\<lparr>nmaxitems := k\<rparr>" using save_htid_False [of ?st itup ai st'] sv by auto
    then show ?thesis using close [of k] full sv b by (simp add: dedup_item_def)
  next
    case other
    have "run\<lparr>dr_state := ?st\<lparr>nmaxitems := nmaxitems ?st\<rparr>\<rparr> = run" by simp
    then show ?thesis using close [of "nmaxitems ?st"] other b by (auto simp: dedup_item_def Let_def)
  qed
qed

lemma dedup_items_total:
  assumes "run_inv nk ai M page0 seen run" and "M \<le> 2040" and "\<not> leaf_has_agg ai"
    and "\<forall>t\<in>set itups. wf_leaf_tuple nk ai t \<and> min_sized t" and "space_ok ai (dr_state run)"
    and "page_used (dr_page run) + phystupsize (dr_state run) + (\<Sum>t\<leftarrow>itups. tuple_space t) \<le> U" "U \<le> 8144"
  shows "\<exists>run'. dedup_items nk ai sz offnum itups run = Some run' \<and> space_ok ai (dr_state run')
    \<and> page_used (dr_page run') + phystupsize (dr_state run') \<le> U"
  using assms
proof (induction itups arbitrary: offnum run seen)
  case (Cons itup itups)
  have "\<exists>run1. dedup_item nk ai sz offnum itup run = Some run1 \<and> space_ok ai (dr_state run1)
    \<and> page_used (dr_page run1) + phystupsize (dr_state run1)
        \<le> page_used (dr_page run) + phystupsize (dr_state run) + tuple_space itup"
    using Cons.prems by (intro dedup_item_total [OF Cons.prems(1-3)]) simp_all
  then obtain run1 where
    1: "dedup_item nk ai sz offnum itup run = Some run1" "space_ok ai (dr_state run1)"
      "page_used (dr_page run1) + phystupsize (dr_state run1)
        \<le> page_used (dr_page run) + phystupsize (dr_state run) + tuple_space itup" by blast
  have "run_inv nk ai M page0 (seen @ [itup]) run1"
    using dedup_item_inv [OF Cons.prems(1,2) _ 1(1)] Cons.prems(4) by simp
  from Cons.IH [OF this Cons.prems(2,3) _ 1(2)] 1 Cons.prems show ?case by simp
qed simp

lemma page_used_split:
  assumes "m \<le> length (pd_linp page)" and "\<forall>lp\<in>set (drop m (pd_linp page)). lp_len lp = IndexTupleSize (pi_tup lp)"
  shows "page_used page = (\<Sum>lp\<leftarrow>take m (pd_linp page). MAXALIGN (lp_len lp) + sizeof_ItemIdData)
    + (\<Sum>t\<leftarrow>map pi_tup (drop m (pd_linp page)). tuple_space t)"
proof -
  have "page_used page = (\<Sum>lp\<leftarrow>take m (pd_linp page) @ drop m (pd_linp page). MAXALIGN (lp_len lp) + sizeof_ItemIdData)"
    by (simp add: page_used_def)
  also have "\<dots> = (\<Sum>lp\<leftarrow>take m (pd_linp page). MAXALIGN (lp_len lp) + sizeof_ItemIdData)
    + (\<Sum>lp\<leftarrow>drop m (pd_linp page). MAXALIGN (lp_len lp) + sizeof_ItemIdData)"
    by (simp only: map_append sum_list_append)
  also have "map (\<lambda>lp. MAXALIGN (lp_len lp) + sizeof_ItemIdData) (drop m (pd_linp page))
      = map tuple_space (map pi_tup (drop m (pd_linp page)))"
    using assms(2) by (simp add: tuple_space_def)
  finally show ?thesis .
qed

lemma pass_total:
  fixes page
  defines "m \<equiv> ABT_P_FIRSTDATAKEY (pd_special page) - 1"
  assumes wf: "wf_leaf_page nk ai page" and na: "\<not> leaf_has_agg ai"
    and ne: "dedup_data_items page \<noteq> []" and ms: "\<forall>t\<in>set (dedup_data_items page). min_sized t"
    and len: "\<forall>lp\<in>set (drop m (pd_linp page)). lp_len lp = IndexTupleSize (pi_tup lp)"
    and fits: "page_used page \<le> 8144"
  shows "\<exists>newpage st. dedup_pass nk page newitem sz cu ai = Some (newpage, st)
    \<and> page_used newpage \<le> page_used page"
proof -
  let ?minoff = "ABT_P_FIRSTDATAKEY (pd_special page)"
  obtain itup itups where items: "dedup_data_items page = itup # itups" using ne by (cases "dedup_data_items page") auto
  have m: "m \<le> length (pd_linp page)" using ne by (auto simp: dedup_data_items_def m_def)
  have wf1: "wf_leaf_tuple nk ai itup" and wfs: "\<forall>t\<in>set itups. wf_leaf_tuple nk ai t \<and> min_sized t"
    using wf items ms by (simp_all add: wf_leaf_page_def)
  have used: "page_used page = (\<Sum>lp\<leftarrow>take m (pd_linp page). MAXALIGN (lp_len lp) + sizeof_ItemIdData)
      + tuple_space itup + (\<Sum>t\<leftarrow>itups. tuple_space t)"
  proof -
    have "map pi_tup (drop m (pd_linp page)) = itup # itups"
      using items by (simp add: dedup_data_items_def m_def)
    then show ?thesis using page_used_split [OF m len] by (simp del: map_map)
  qed
  obtain page0 where hk: "dedup_copy_hikey page = Some page0"
    and u0: "page_used page0 = (\<Sum>lp\<leftarrow>take m (pd_linp page). MAXALIGN (lp_len lp) + sizeof_ItemIdData)"
  proof (cases "ABT_P_RIGHTMOST (pd_special page)")
    case True
    then show thesis
      by (intro that [of "PageGetTempPageCopySpecial page"])
        (simp_all add: dedup_copy_hikey_def PageGetTempPageCopySpecial_def page_used_def m_def
          ABT_P_FIRSTDATAKEY_def ABTP_HIKEY_def)
  next
    case False
    then have m1: "m = 1" by (simp add: m_def ABT_P_FIRSTDATAKEY_def ABTP_FIRSTKEY_def)
    with m obtain h rest where lp: "pd_linp page = h # rest" by (cases "pd_linp page") auto
    have "MAXALIGN (lp_len h) + 4 \<le> 8144"
      using fits lp by (simp add: page_used_def sizeof_ItemIdData_def)
    then show thesis
      using False PageAddItem_fits [of "PageGetTempPageCopySpecial page" "pi_tup h" "lp_len h"] that
      by (simp add: dedup_copy_hikey_def PageGetTempPageCopySpecial_def page_used_def m1 lp
          PageGetItemId_def ABTP_HIKEY_def PageGetMaxOffsetNumber_def)
  qed
  let ?st = "abt_dedup_start_pending (dedup_init_state 1348) itup ?minoff ai"
  let ?run = "\<lparr>dr_page = page0, dr_state = ?st, dr_saving = 0,
     dr_singleval = (\<not> cu \<and> abt_do_singleval nk page ?minoff newitem)\<rparr>"
  have M: "(1348::nat) \<le> 2040" by simp
  have "pend_ok nk ai 1348 ?st \<and> pend_entries ?st = tuple_entries itup"
    by (rule start_pending_ok(1) [OF wf1]) (simp_all add: dedup_init_state_def)
  then have inv: "run_inv nk ai 1348 page0 [itup] ?run"
    by (auto simp: run_inv_def intro!: exI [of _ "[]"])
  obtain run where loop: "dedup_items nk ai sz (?minoff + 1) itups ?run = Some run"
    and sp: "space_ok ai (dr_state run)" and pu: "page_used (dr_page run) + phystupsize (dr_state run) \<le> page_used page"
    using dedup_items_total [OF inv M na wfs, of "page_used page"] used u0 fits by auto
  have "pend_ok nk ai 1348 (dr_state run)"
    using dedup_items_inv [OF inv M _ loop] wfs by (simp add: run_inv_def)
  then obtain newpage st' s where "abt_dedup_finish_pending (dr_page run) (dr_state run) ai = Some (newpage, st', s)"
    "page_used newpage \<le> page_used page"
    using finish_space [of nk ai 1348 "dr_state run" "dr_page run"] M sp pu fits by auto
  then show ?thesis
    using items hk loop by (simp add: dedup_pass_def dedup_maxpostingsize Let_def)
qed

text \<open>With aggregation values in the leaves this fails: the two merged tuples free 72 bytes with
  their line pointers, and the posting list tuple that replaces them needs 76, because the copied
  key part still contains the aggregation value and xmin of the base tuple.\<close>

lemma dedup_pair_grows:
  "(case abt_dedup_save_htid (abt_dedup_start_pending (dedup_init_state 1348) (ex_plain8 1) 1 ex_agg_info8)
           (ex_plain8 2) ex_agg_info8 of
      (saved, st) \<Rightarrow>
        saved \<and> phystupsize st = 72
        \<and> IndexTupleSize (abt_form_posting (ex_plain8 1) (ds_htids st) ex_agg_info8) + sizeof_ItemIdData = 76)"
  by code_simp

section \<open>Assertions that a pass violates\<close>

text \<open>A base tuple over the size limit of the pass leaves no heap TIDs in the state, and finishing it
  violates the assertion that there are at least as many heap TIDs as items.\<close>

lemma oversized_base_violates_assert:
  assumes "maxpostingsize st < IndexTupleSize base"
  shows "\<not> dedup_finish_asserts (abt_dedup_start_pending st base off ai) ai"
  using assms by (simp add: dedup_finish_asserts_def abt_dedup_start_pending_def nhtids_def Let_def)

text \<open>A plain base tuple of 32 bytes and 131 further duplicates are merged, since the estimated size is
  1344; the final tuple has 1352 bytes, more than the limit of 1348 that is asserted.\<close>

lemma merged_size_violates_assert:
  assumes "\<not> ABTreeTupleIsPosting base" "IndexTupleSize base = 32" "\<not> leaf_has_agg ai"
    and "ds_base st = Some base" "length (ds_htids st) = 132" "nitems st = 132" "maxpostingsize st = 1348"
  shows "\<not> dedup_finish_asserts st ai"
  using assms
  by (simp add: dedup_finish_asserts_def abt_form_posting_def posting_size_def Let_def set_tuple_size_size
      sizeof_ItemPointerData_def sizeof_TransactionId_def MAXALIGN_def)

section \<open>Properties\<close>

text \<open>
  C21. Deduplication without leaf aggregates succeeds in a build without assertion checks: on every
  well-formed leaf page that fits its block, whatever the new item and the space it needs, the pass
  over the data items ends without the error "failed to add tuple to page" and the new page takes no
  more space than the old one. With assertion checks a pass can stop before, because the assertions of
  \<^verbatim>\<open>_abt_dedup_finish_pending\<close> do not hold for a base tuple over the size limit of posting lists
  (\<open>oversized_base_violates_assert\<close>) and for some lists of maximal size
  (\<open>merged_size_violates_assert\<close>).
\<close>

theorem dedup_pass_total:
  assumes "wf_leaf_page nk ai page" and "\<not> leaf_has_agg ai"
    and "dedup_data_items page \<noteq> []" and "\<forall>t\<in>set (dedup_data_items page). min_sized t"
    and "\<forall>lp\<in>set (drop (ABT_P_FIRSTDATAKEY (pd_special page) - 1) (pd_linp page)).
           lp_len lp = IndexTupleSize (pi_tup lp)"
    and "page_used page \<le> 8144"
  shows "\<exists>newpage st. dedup_pass nk page newitem sz cu ai = Some (newpage, st)
    \<and> page_used newpage \<le> page_used page"
  using pass_total [OF assms] .

theorem dedup_pass_total_witness:
  "\<exists>newpage st. dedup_pass 1 ex_page (ex_plain 5 9) 8100 False ex_agg_info = Some (newpage, st)
     \<and> page_used newpage \<le> page_used ex_page"
  by (rule dedup_pass_total [OF ex_page_wf(1)]) code_simp+

end
