(* ===== verification/Xlog.thy ===== *)
theory Xlog
  imports Dedup
begin

unbundle bit_operations_syntax

text \<open>
  Write-ahead log records of leaf page operations and their replay
  (\<^verbatim>\<open>src/backend/access/abtree/abtxlog.c\<close>, with \<^verbatim>\<open>_abt_delitems_vacuum\<close> of \<^verbatim>\<open>abtpage.c\<close>). The
  replay functions are total functions of the page they find and of the contents of the record;
  the theorems state that replaying the record of an operation on the old page gives the page the
  operation left behind.
\<close>

section \<open>Aggregation information in a record\<close>

record xl_abtree_minimal_agg_info =
  xl_agg_typlen :: nat
  xl_agg_stride :: nat

definition abt_prepare_min_agg_info :: "ABTCachedAggInfo \<Rightarrow> xl_abtree_minimal_agg_info" where
  "abt_prepare_min_agg_info agg_info =
     \<lparr>xl_agg_typlen = agg_typlen agg_info, xl_agg_stride = agg_stride agg_info\<rparr>"

definition abt_apply_min_agg_info ::
  "xl_abtree_minimal_agg_info \<Rightarrow> ABTCachedAggInfo \<Rightarrow> ABTCachedAggInfo" where
  "abt_apply_min_agg_info min_agg_info agg_info =
     abt_compute_tuple_offsets
       (agg_info\<lparr>agg_typlen := xl_agg_typlen min_agg_info,
                 agg_stride := xl_agg_stride min_agg_info\<rparr>)"

text \<open>\<^verbatim>\<open>SizeOfABtreeMinimalAggInfo\<close> is the size of the first field only, so a record carries
  \<^verbatim>\<open>agg_typlen\<close> and not \<^verbatim>\<open>agg_stride\<close>. The redo routines copy the logged bytes over the
  beginning of an uninitialised local variable, whose former contents \<open>stack\<close> is a parameter here.\<close>

definition logged_min_agg_info :: "xl_abtree_minimal_agg_info \<Rightarrow> nat" where
  "logged_min_agg_info min_agg_info = xl_agg_typlen min_agg_info"

definition copy_min_agg_info :: "nat \<Rightarrow> xl_abtree_minimal_agg_info \<Rightarrow> xl_abtree_minimal_agg_info" where
  "copy_min_agg_info logged stack = stack\<lparr>xl_agg_typlen := logged\<rparr>"

text \<open>The values of a posting list stand at multiples of the length of their type. Accesses with any
  other stride go to other addresses, and what they read and write is not modelled.\<close>

definition stride_in_step :: "ABTCachedAggInfo \<Rightarrow> bool" where
  "stride_in_step agg_info = (leaf_has_agg agg_info \<longrightarrow> agg_stride agg_info = agg_typlen agg_info)"

section \<open>Deduplication\<close>

record xl_abtree_dedup =
  xl_min_agg_info :: nat
  xl_leaf_has_agg :: bool
  xl_intervals :: "ABTDedupInterval list"

text \<open>The record that \<^verbatim>\<open>_abt_dedup_one_page\<close> writes.\<close>

definition dedup_xlog_record :: "ABTCachedAggInfo \<Rightarrow> ABTDedupInterval list \<Rightarrow> xl_abtree_dedup" where
  "dedup_xlog_record agg_info ivs =
     \<lparr>xl_min_agg_info = logged_min_agg_info (abt_prepare_min_agg_info agg_info),
      xl_leaf_has_agg = leaf_has_agg agg_info, xl_intervals = ivs\<rparr>"

text \<open>The buffers that the redo routine allocates: \<^verbatim>\<open>ABTDedupMaxNumberOfTIDs(state) * size\<close> expands to
  \<^verbatim>\<open>(maxpostingsize / 6) + 1 * size\<close> bytes. Writing \<open>n\<close> entries past their end is \<open>None\<close>.\<close>

definition redo_buffers_ok :: "ABTCachedAggInfo \<Rightarrow> nat \<Rightarrow> bool" where
  "redo_buffers_ok agg_info n =
     (let maxsz = ABTMaxItemSize agg_info
      in n * sizeof_ItemPointerData \<le> maxsz
         \<and> (leaf_has_agg agg_info \<longrightarrow>
              n * agg_stride agg_info \<le> maxsz div sizeof_ItemPointerData + 1 * agg_stride agg_info)
         \<and> n * sizeof_TransactionId \<le> maxsz div sizeof_ItemPointerData + 1 * sizeof_TransactionId)"

definition redo_start_pending ::
  "ABTDedupState \<Rightarrow> IndexTupleData \<Rightarrow> nat \<Rightarrow> ABTCachedAggInfo \<Rightarrow> ABTDedupState option" where
  "redo_start_pending state base boff agg_info =
     (let state' = abt_dedup_start_pending state base boff agg_info
      in if redo_buffers_ok agg_info (nhtids state') then Some state' else None)"

definition redo_dedup_item ::
  "ABTDedupInterval list \<Rightarrow> ABTCachedAggInfo \<Rightarrow> nat \<Rightarrow> IndexTupleData
     \<Rightarrow> PageData \<times> ABTDedupState \<Rightarrow> (PageData \<times> ABTDedupState) option" where
  "redo_dedup_item ivs agg_info offnum itup ps =
     (let (newpage, state) = ps; nintervals = length (intervals state)
      in if nintervals < length ivs \<and> baseoff state = iv_baseoff (ivs ! nintervals)
            \<and> nitems state < iv_nitems (ivs ! nintervals)
         then
           let (saved, state') = abt_dedup_save_htid state itup agg_info
           in if saved \<and> redo_buffers_ok agg_info (nhtids state') then Some (newpage, state') else None
         else
           case abt_dedup_finish_pending newpage state agg_info of
             None \<Rightarrow> None
           | Some (page, st, _) \<Rightarrow> map_option (Pair page) (redo_start_pending st itup offnum agg_info))"

fun redo_dedup_items ::
  "ABTDedupInterval list \<Rightarrow> ABTCachedAggInfo \<Rightarrow> nat \<Rightarrow> IndexTupleData list
     \<Rightarrow> PageData \<times> ABTDedupState \<Rightarrow> (PageData \<times> ABTDedupState) option" where
  "redo_dedup_items ivs agg_info offnum [] ps = Some ps"
| "redo_dedup_items ivs agg_info offnum (itup # itups) ps =
     (case redo_dedup_item ivs agg_info offnum itup ps of
        None \<Rightarrow> None
      | Some ps' \<Rightarrow> redo_dedup_items ivs agg_info (offnum + 1) itups ps')"

definition abtree_xlog_dedup ::
  "xl_abtree_minimal_agg_info \<Rightarrow> ABTCachedAggInfo \<Rightarrow> xl_abtree_dedup \<Rightarrow> PageData \<Rightarrow> PageData option" where
  "abtree_xlog_dedup stack agg_info_data xlrec page =
     (let min_agg_info = copy_min_agg_info (xl_min_agg_info xlrec) stack;
          agg_info = abt_apply_min_agg_info min_agg_info (agg_info_data\<lparr>leaf_has_agg := xl_leaf_has_agg xlrec\<rparr>);
          state = dedup_init_state (ABTMaxItemSize agg_info);
          minoff = ABT_P_FIRSTDATAKEY (pd_special page)
      in if \<not> stride_in_step agg_info then None
         else case (dedup_copy_hikey page, dedup_data_items page) of
           (Some newpage, itup # itups) \<Rightarrow>
             (case redo_start_pending state itup minoff agg_info of
                None \<Rightarrow> None
              | Some state0 \<Rightarrow>
                  case redo_dedup_items (xl_intervals xlrec) agg_info (minoff + 1) itups (newpage, state0) of
                    None \<Rightarrow> None
                  | Some (page1, state1) \<Rightarrow>
                      map_option (\<lambda>(p, st, _). dedup_clear_garbage page p)
                        (abt_dedup_finish_pending page1 state1 agg_info))
         | _ \<Rightarrow> None)"

section \<open>Vacuum and deletion\<close>

record xl_abtree_vacuum =
  xv_min_agg_info :: "nat option"
  xv_deletable :: "nat list"
  xv_updates :: "(nat \<times> nat list) list"

fun overwrite_updated :: "ABTVacuumPosting list \<Rightarrow> PageData \<Rightarrow> PageData option" where
  "overwrite_updated [] page = Some page"
| "overwrite_updated (vp # vps) page =
     (case PageIndexTupleOverwrite page (vp_updatedoffset vp) (vp_itup vp)
             (MAXALIGN (IndexTupleSize (vp_itup vp))) of
        None \<Rightarrow> None
      | Some page' \<Rightarrow> overwrite_updated vps page')"

text \<open>The page after the update and deletion, and the logged record.\<close>

definition abt_delitems_vacuum ::
  "PageData \<Rightarrow> nat list \<Rightarrow> ABTVacuumPosting list \<Rightarrow> ABTCachedAggInfo
     \<Rightarrow> (PageData \<times> xl_abtree_vacuum) option" where
  "abt_delitems_vacuum page deletable updatable agg_info =
     (case overwrite_updated (map (\<lambda>vp. abt_update_posting vp agg_info) updatable) page of
        None \<Rightarrow> None
      | Some page1 \<Rightarrow>
          case (if deletable \<noteq> [] then PageIndexMultiDelete page1 deletable else Some page1) of
            None \<Rightarrow> None
          | Some page2 \<Rightarrow>
              Some (page2\<lparr>pd_special := (pd_special page2)
                      \<lparr>abtpo_cycleid := 0,
                       abtpo_flags := abtpo_flags (pd_special page2) AND NOT ABTP_HAS_GARBAGE\<rparr>\<rparr>,
                    \<lparr>xv_min_agg_info = (if leaf_has_agg agg_info \<and> updatable \<noteq> []
                                        then Some (logged_min_agg_info (abt_prepare_min_agg_info agg_info)) else None),
                     xv_deletable = deletable,
                     xv_updates = map (\<lambda>vp. (vp_updatedoffset vp, vp_deletetids vp)) updatable\<rparr>))"

fun redo_updates :: "ABTCachedAggInfo option \<Rightarrow> (nat \<times> nat list) list \<Rightarrow> PageData \<Rightarrow> PageData option" where
  "redo_updates agg_info [] page = Some page"
| "redo_updates agg_info ((off, deletetids) # updates) page =
     (case agg_info of
        None \<Rightarrow> None
      | Some ai \<Rightarrow>
          if \<not> stride_in_step ai then None
          else
          let vp = abt_update_posting
                     \<lparr>vp_itup = PageGetItem page off, vp_updatedoffset = off,
                      vp_deletetids = deletetids\<rparr> ai
          in case PageIndexTupleOverwrite page off (vp_itup vp) (MAXALIGN (IndexTupleSize (vp_itup vp))) of
               None \<Rightarrow> None
             | Some page' \<Rightarrow> redo_updates agg_info updates page')"

text \<open>\<^verbatim>\<open>agg_info\<close> is a null pointer unless the record carries the aggregation information.\<close>

definition abtree_xlog_vacuum ::
  "xl_abtree_minimal_agg_info \<Rightarrow> ABTCachedAggInfo \<Rightarrow> xl_abtree_vacuum \<Rightarrow> PageData \<Rightarrow> PageData option" where
  "abtree_xlog_vacuum stack agg_info_data xlrec page =
     (let agg_info = map_option
            (\<lambda>logged. abt_apply_min_agg_info (copy_min_agg_info logged stack) (agg_info_data\<lparr>leaf_has_agg := True\<rparr>))
            (xv_min_agg_info xlrec)
      in case redo_updates agg_info (xv_updates xlrec) page of
           None \<Rightarrow> None
         | Some page1 \<Rightarrow>
             case (if xv_deletable xlrec \<noteq> [] then PageIndexMultiDelete page1 (xv_deletable xlrec)
                   else Some page1) of
               None \<Rightarrow> None
             | Some page2 \<Rightarrow>
                 Some (page2\<lparr>pd_special := (pd_special page2)
                   \<lparr>abtpo_flags := abtpo_flags (pd_special page2) AND NOT ABTP_HAS_GARBAGE\<rparr>\<rparr>))"

definition abtree_xlog_delete :: "nat list \<Rightarrow> PageData \<Rightarrow> PageData option" where
  "abtree_xlog_delete itemnos page =
     map_option
       (\<lambda>p. p\<lparr>pd_special := (pd_special p)\<lparr>abtpo_flags :=
           (abtpo_flags (pd_special p) AND NOT ABTP_HAS_GARBAGE) OR ABTP_HAD_GARBAGE_REMOVED\<rparr>\<rparr>)
       (PageIndexMultiDelete page itemnos)"

section \<open>The aggregation information after replay\<close>

definition agg_layout_eq :: "ABTCachedAggInfo \<Rightarrow> ABTCachedAggInfo \<Rightarrow> bool" where
  "agg_layout_eq ai ai' =
     (leaf_has_agg ai = leaf_has_agg ai' \<and> (leaf_has_agg ai \<longrightarrow> agg_stride ai = agg_stride ai')
      \<and> extra_space_for_nonpivot_tuple ai = extra_space_for_nonpivot_tuple ai'
      \<and> extra_space_when_tid_present ai = extra_space_when_tid_present ai')"

lemma agg_layout_eqD:
  assumes "agg_layout_eq ai ai'"
  shows "leaf_has_agg ai' = leaf_has_agg ai" "leaf_has_agg ai \<Longrightarrow> agg_stride ai' = agg_stride ai"
    "extra_space_for_nonpivot_tuple ai' = extra_space_for_nonpivot_tuple ai"
    "ABTMaxItemSize ai' = ABTMaxItemSize ai"
  using assms by (simp_all add: agg_layout_eq_def ABTMaxItemSize_def)

lemma posting_size_layout: "agg_layout_eq ai ai' \<Longrightarrow> posting_size ai' = posting_size ai"
  by (intro ext) (simp add: posting_size_def agg_layout_eq_def)

lemma form_posting_layout:
  assumes L: "agg_layout_eq ai ai'"
  shows "abt_form_posting b h ai' = abt_form_posting b h ai"
  unfolding abt_form_posting_def agg_layout_eqD(1,3) [OF L] posting_size_layout [OF L] ..

lemma update_posting_layout:
  assumes L: "agg_layout_eq ai ai'"
  shows "abt_update_posting vp ai' = abt_update_posting vp ai"
  unfolding abt_update_posting_def agg_layout_eqD(1,3) [OF L] posting_size_layout [OF L] ..

lemma start_pending_layout:
  assumes L: "agg_layout_eq ai ai'"
  shows "abt_dedup_start_pending st b off ai' = abt_dedup_start_pending st b off ai"
  unfolding abt_dedup_start_pending_def agg_layout_eqD(1,3) [OF L]  ..

lemma save_htid_layout:
  assumes L: "agg_layout_eq ai ai'"
  shows "abt_dedup_save_htid st b ai' = abt_dedup_save_htid st b ai"
proof -
  have "(if leaf_has_agg ai then MAXALIGN (agg_stride ai' * n) else 0)
      = (if leaf_has_agg ai then MAXALIGN (agg_stride ai * n) else 0)" for n
    using agg_layout_eqD(2) [OF L] by simp
  then show ?thesis unfolding abt_dedup_save_htid_def agg_layout_eqD(1) [OF L] by simp
qed

lemma finish_pending_layout:
  assumes L: "agg_layout_eq ai ai'"
  shows "abt_dedup_finish_pending p st ai' = abt_dedup_finish_pending p st ai"
  unfolding abt_dedup_finish_pending_def agg_layout_eqD(1) [OF L] form_posting_layout [OF L] ..

lemma redo_buffers_layout:
  assumes L: "agg_layout_eq ai ai'"
  shows "redo_buffers_ok ai' n = redo_buffers_ok ai n"
  using agg_layout_eqD(2) [OF L]
  unfolding redo_buffers_ok_def agg_layout_eqD(1,4) [OF L] by (cases "leaf_has_agg ai") simp_all

lemma redo_start_layout:
  assumes L: "agg_layout_eq ai ai'"
  shows "redo_start_pending st b off ai' = redo_start_pending st b off ai"
  unfolding redo_start_pending_def start_pending_layout [OF L] redo_buffers_layout [OF L] ..

lemmas layout_eqs = save_htid_layout finish_pending_layout redo_buffers_layout redo_start_layout

lemma redo_dedup_items_layout:
  assumes "agg_layout_eq ai ai'"
  shows "redo_dedup_items ivs ai' offnum itups ps = redo_dedup_items ivs ai offnum itups ps"
proof -
  have "redo_dedup_item ivs ai' = redo_dedup_item ivs ai"
    unfolding redo_dedup_item_def layout_eqs [OF assms] ..
  then show ?thesis
    by (induction ivs ai offnum itups ps rule: redo_dedup_items.induct) (simp_all split: option.splits)
qed

lemma min_agg_info_layout:
  assumes "ai = abt_compute_tuple_offsets ai0" and "l = leaf_has_agg ai"
    and "leaf_has_agg ai \<longrightarrow> xl_agg_stride stack = agg_stride ai"
  shows "agg_layout_eq ai (abt_apply_min_agg_info
    (copy_min_agg_info (logged_min_agg_info (abt_prepare_min_agg_info ai)) stack) (d\<lparr>leaf_has_agg := l\<rparr>))"
  using assms
  by (auto simp: agg_layout_eq_def abt_apply_min_agg_info_def abt_prepare_min_agg_info_def
      copy_min_agg_info_def logged_min_agg_info_def abt_compute_tuple_offsets_def Let_def)

section \<open>Replay of a deduplication\<close>

text \<open>What is known of the final intervals at a point of the pass: they start with the finished
  ones, and the next one, if any, is that of the pending list or starts at a later item.\<close>

definition future_ok :: "ABTDedupInterval list \<Rightarrow> nat \<Rightarrow> ABTDedupState \<Rightarrow> bool" where
  "future_ok I offnum st \<longleftrightarrow>
     (I = intervals st \<and> nitems st \<le> 1)
     \<or> (\<exists>v rest. I = intervals st @ v # rest
          \<and> (iv_baseoff v = baseoff st \<and> nitems st \<le> iv_nitems v \<and> 1 < iv_nitems v
             \<or> nitems st \<le> 1 \<and> offnum \<le> iv_baseoff v))"

lemma finish_pending_intervals:
  assumes "abt_dedup_finish_pending page st ai = Some (page', st', s)"
  shows "intervals st' = intervals st @ (if nitems st \<le> 1 then []
      else [\<lparr>iv_baseoff = baseoff st, iv_nitems = u16 (nitems st)\<rparr>])"
  using assms by (auto simp: abt_dedup_finish_pending_def Let_def split: option.splits if_splits)

lemma close_and_start_state:
  assumes "dedup_close_and_start ai sz offnum itup run = Some run'"
  obtains page st s st1 sv where
    "abt_dedup_finish_pending (dr_page run) (dr_state run) ai = Some (page, st, s)"
    "dedup_singleval_step sz (dr_singleval run) st = (st1, sv)"
    "dr_page run' = page" "dr_state run' = abt_dedup_start_pending st1 itup offnum ai"
  using assms by (auto simp: dedup_close_and_start_def split: option.splits prod.splits)

lemma start_pending_fields [simp]:
  "ds_base (abt_dedup_start_pending st b off ai) = Some b"
  "baseoff (abt_dedup_start_pending st b off ai) = off"
  "intervals (abt_dedup_start_pending st b off ai) = intervals st"
  "nitems (abt_dedup_start_pending st b off ai) = 1"
  "save_extra (abt_dedup_start_pending st b off ai) = save_extra st"
  "maxpostingsize (abt_dedup_start_pending st b off ai) = maxpostingsize st"
  by (simp_all add: abt_dedup_start_pending_def Let_def)

lemma save_htid_fields:
  assumes "abt_dedup_save_htid st itup ai = (saved, st')"
  shows "intervals st' = intervals st" "baseoff st' = baseoff st" "ds_base st' = ds_base st"
    "save_extra st' = save_extra st" "maxpostingsize st' = maxpostingsize st"
    "nitems st' = (if saved then nitems st + 1 else nitems st)"
  using assms by (auto simp: abt_dedup_save_htid_def Let_def split: if_splits)

text \<open>Each item is either merged into the pending list or closes it.\<close>

lemma dedup_item_cases:
  assumes "dedup_item nk ai sz offnum itup run = Some run'"
  obtains (merge) st' where "nhtids (dr_state run) > 0"
      "abt_dedup_save_htid (dr_state run) itup ai = (True, st')" "run' = run\<lparr>dr_state := st'\<rparr>"
  | (close) k where "dedup_close_and_start ai sz offnum itup
        (run\<lparr>dr_state := (dr_state run)\<lparr>nmaxitems := k\<rparr>\<rparr>) = Some run'"
proof -
  let ?st = "dr_state run"
  obtain saved st' where sv: "abt_dedup_save_htid ?st itup ai = (saved, st')"
    by (cases "abt_dedup_save_htid ?st itup ai")
  have same: "run\<lparr>dr_state := ?st\<lparr>nmaxitems := nmaxitems ?st\<rparr>\<rparr> = run" by simp
  let ?merge_try = "deduplicate ?st \<and> nhtids ?st > 0 \<and> (case ds_base ?st of None \<Rightarrow> False
      | Some base \<Rightarrow> abt_keep_natts_fast nk base itup > nk)"
  consider "?merge_try" "saved" | "?merge_try" "\<not> saved" | "\<not> ?merge_try" by blast
  then show thesis
  proof cases
    case 1
    with assms sv have "run' = run\<lparr>dr_state := st'\<rparr>" by (simp add: dedup_item_def)
    with 1 sv show thesis by (intro merge) auto
  next
    case 2
    then obtain k where k: "st' = ?st\<lparr>nmaxitems := k\<rparr>"
      using save_htid_False [of ?st itup ai st'] sv by auto
    have "dedup_close_and_start ai sz offnum itup (run\<lparr>dr_state := st'\<rparr>) = Some run'"
      using assms 2 sv by (simp add: dedup_item_def)
    then show thesis unfolding k by (rule close)
  next
    case 3
    then have "dedup_close_and_start ai sz offnum itup run = Some run'"
      using assms by (simp add: dedup_item_def Let_def split: if_splits)
    then show thesis using close [of "nmaxitems ?st"] same by simp
  qed
qed

lemma dedup_future:
  assumes "dedup_items nk ai sz offnum itups run = Some e"
    and "abt_dedup_finish_pending (dr_page e) (dr_state e) ai = Some (np, stf, s)"
    and "1 \<le> nitems (dr_state run)" and "baseoff (dr_state run) + nitems (dr_state run) \<le> offnum"
    and "offnum + length itups < 2 ^ 16"
  shows "future_ok (intervals stf) offnum (dr_state run)"
  using assms
proof (induction itups arbitrary: offnum run)
  case Nil
  then have "u16 (nitems (dr_state run)) = nitems (dr_state run)" by (intro u16_id) simp
  with Nil finish_pending_intervals [OF Nil(2)] show ?case by (auto simp: future_ok_def)
next
  case (Cons itup itups)
  from Cons.prems(1) obtain run1 where
    1: "dedup_item nk ai sz offnum itup run = Some run1"
    and 2: "dedup_items nk ai sz (offnum + 1) itups run1 = Some e"
    by (auto split: option.splits)
  from 1 show ?case
  proof (cases rule: dedup_item_cases)
    case (merge st')
    note F = save_htid_fields [OF merge(2)]
    have "future_ok (intervals stf) (offnum + 1) (dr_state run1)"
      using Cons.prems F merge by (intro Cons.IH [OF 2 Cons.prems(2)]) simp_all
    then show ?thesis using merge F Cons.prems(3)
      by (auto simp: future_ok_def) 
  next
    case (close k)
    then obtain page st s' st1 sv where
      fin: "abt_dedup_finish_pending (dr_page run) ((dr_state run)\<lparr>nmaxitems := k\<rparr>) ai = Some (page, st, s')"
      and step: "dedup_singleval_step sz (dr_singleval run) st = (st1, sv)"
      and r: "dr_page run1 = page" "dr_state run1 = abt_dedup_start_pending st1 itup offnum ai"
      by (auto elim: close_and_start_state)
    have "future_ok (intervals stf) (offnum + 1) (dr_state run1)"
      using Cons.prems r by (intro Cons.IH [OF 2 Cons.prems(2)]) simp_all
    moreover have "u16 (nitems (dr_state run)) = nitems (dr_state run)"
      using Cons.prems(4,5) by (intro u16_id) simp
    ultimately show ?thesis
      using finish_pending_intervals [OF fin] singleval_step_frame(3) [OF step]
      by (auto simp: future_ok_def r split: if_splits)
  qed
qed

text \<open>The number of heap TIDs of a tuple, and of the tuple that a pending list becomes at least.\<close>

definition item_tids :: "IndexTupleData \<Rightarrow> nat" where
  "item_tids t = max 1 (length (it_htids t))"

definition pend_count :: "ABTDedupState \<Rightarrow> nat" where
  "pend_count st =
     (if nhtids st = 0 then case ds_base st of None \<Rightarrow> 0 | Some b \<Rightarrow> item_tids b else nhtids st)"

definition count_ok :: "ABTDedupState \<Rightarrow> bool" where
  "count_ok st \<longleftrightarrow> (nhtids st = 0 \<longrightarrow> nitems st \<le> 1)
     \<and> (\<forall>b. ds_base st = Some b \<longrightarrow> nitems st \<le> 1 \<longrightarrow> nhtids st \<le> item_tids b)"

lemma redo_buffers_mono: "redo_buffers_ok ai n \<Longrightarrow> m \<le> n \<Longrightarrow> redo_buffers_ok ai m"
  unfolding redo_buffers_ok_def Let_def by (meson mult_le_mono1 order_trans)

lemma start_pending_count: "nhtids (abt_dedup_start_pending st b off ai) \<le> item_tids b"
  by (auto simp: abt_dedup_start_pending_def Let_def nhtids_def item_tids_def ABTreeTupleGetPosting_def)

lemma start_pending_count_ok: "count_ok (abt_dedup_start_pending st b off ai)"
  using start_pending_count [of st b off ai] by (simp add: count_ok_def abt_dedup_start_pending_def Let_def nhtids_def)

lemma count_nmaxitems [simp]:
  "count_ok (st\<lparr>nmaxitems := k\<rparr>) = count_ok st" "pend_count (st\<lparr>nmaxitems := k\<rparr>) = pend_count st"
  by (simp_all add: count_ok_def pend_count_def nhtids_def)

lemma form_posting_count: "length h \<le> item_tids (abt_form_posting b h ai)"
  by (simp add: abt_form_posting_def item_tids_def Let_def)

lemma finish_pending_count:
  assumes "abt_dedup_finish_pending page st ai = Some (page', st', s)" and "count_ok st"
  shows "\<exists>lp. pd_linp page' = pd_linp page @ [lp] \<and> pend_count st \<le> item_tids (pi_tup lp)"
proof -
  obtain b where b: "ds_base st = Some b" using assms(1) by (auto simp: abt_dedup_finish_pending_def split: option.splits)
  show ?thesis
  proof (cases "nitems st \<le> 1")
    case True
    then obtain lp where "pd_linp page' = pd_linp page @ [lp]" "pi_tup lp = b"
      using assms(1) b by (auto simp: abt_dedup_finish_pending_def Let_def dest!: PageAddItem_append [simplified])
    moreover have "pend_count st \<le> item_tids b" using assms(2) True b by (simp add: count_ok_def pend_count_def)
    ultimately show ?thesis by auto
  next
    case False
    then obtain lp x y where "pd_linp page' = pd_linp page @ [lp]"
      "it_htids (pi_tup lp) = it_htids (abt_form_posting b (ds_htids st) ai)"
      using assms(1) b by (auto simp: abt_dedup_finish_pending_def Let_def dest!: PageAddItem_append [simplified] split: if_splits)
    moreover have "pend_count st \<le> length (ds_htids st)"
      using assms(2) False by (auto simp: count_ok_def pend_count_def nhtids_def)
    ultimately show ?thesis using form_posting_count [of "ds_htids st" b ai] by (auto simp: item_tids_def)
  qed
qed

lemma close_count:
  assumes "dedup_close_and_start ai sz offnum itup run = Some run'" and "count_ok (dr_state run)"
  shows "\<exists>lp. pd_linp (dr_page run') = pd_linp (dr_page run) @ [lp] \<and> pend_count (dr_state run) \<le> item_tids (pi_tup lp)"
    "count_ok (dr_state run')"
  using assms finish_pending_count start_pending_count_ok by (auto elim!: close_and_start_state)

text \<open>Every pending list of the pass ends in a tuple of the final page with at least as many heap TIDs.\<close>

lemma dedup_item_count:
  assumes "dedup_item nk ai sz offnum itup run = Some run'" and "count_ok (dr_state run)" "1 \<le> nitems (dr_state run)"
  shows "count_ok (dr_state run') \<and> 1 \<le> nitems (dr_state run')
    \<and> (\<exists>ys. pd_linp (dr_page run') = pd_linp (dr_page run) @ ys
        \<and> (pend_count (dr_state run) \<le> pend_count (dr_state run')
            \<or> (\<exists>lp\<in>set ys. pend_count (dr_state run) \<le> item_tids (pi_tup lp))))"
  using assms(1)
proof (cases rule: dedup_item_cases)
  case (merge st')
  have "nhtids (dr_state run) \<le> nhtids st'" using merge(2) by (auto simp: abt_dedup_save_htid_def nhtids_def Let_def split: if_splits)
  then show ?thesis
    using merge save_htid_fields(6) [OF merge(2)] assms(3) by (simp add: count_ok_def pend_count_def)
next
  case (close k)
  have "1 \<le> nitems (dr_state run')" using close by (auto elim!: close_and_start_state)
  with close_count [OF close] assms(2) show ?thesis by auto
qed

lemma dedup_items_count:
  assumes "dedup_items nk ai sz offnum itups run = Some e"
    and "abt_dedup_finish_pending (dr_page e) (dr_state e) ai = Some (np, stf, s)"
    and "count_ok (dr_state run)" "1 \<le> nitems (dr_state run)"
  shows "\<exists>ys. pd_linp np = pd_linp (dr_page run) @ ys \<and> (\<exists>lp\<in>set ys. pend_count (dr_state run) \<le> item_tids (pi_tup lp))"
  using assms
proof (induction itups arbitrary: offnum run)
  case Nil
  then show ?case using finish_pending_count [OF Nil(2)] by auto
next
  case (Cons itup itups)
  from Cons.prems(1) obtain run1 where
    1: "dedup_item nk ai sz offnum itup run = Some run1"
    and 2: "dedup_items nk ai sz (offnum + 1) itups run1 = Some e"
    by (auto split: option.splits)
  obtain ys where ys: "pd_linp (dr_page run1) = pd_linp (dr_page run) @ ys"
      "pend_count (dr_state run) \<le> pend_count (dr_state run1)
        \<or> (\<exists>lp\<in>set ys. pend_count (dr_state run) \<le> item_tids (pi_tup lp))"
    and c: "count_ok (dr_state run1)" "1 \<le> nitems (dr_state run1)"
    using dedup_item_count [OF 1 Cons.prems(3,4)] by blast
  obtain zs lp where zs: "pd_linp np = pd_linp (dr_page run1) @ zs" "lp \<in> set zs"
      "pend_count (dr_state run1) \<le> item_tids (pi_tup lp)"
    using Cons.IH [OF 2 Cons.prems(2) c] by blast
  show ?case
    by (rule exI [of _ "ys @ zs"]) (use ys zs in \<open>auto intro: order_trans\<close>)
qed

text \<open>The states of the pass and of the replay: the same pending list, except that the pass does
  not collect the heap TIDs of a base tuple over its smaller size limit.\<close>

definition redo_sim :: "ABTDedupState \<Rightarrow> ABTDedupState \<Rightarrow> bool" where
  "redo_sim stp str \<longleftrightarrow>
     intervals str = intervals stp \<and> ds_base str = ds_base stp \<and> baseoff str = baseoff stp
     \<and> nitems str = nitems stp \<and> save_extra str = save_extra stp
     \<and> maxpostingsize stp \<le> maxpostingsize str \<and> count_ok stp
     \<and> (nhtids stp = 0 \<longrightarrow> (case ds_base stp of None \<Rightarrow> False | Some b \<Rightarrow> nhtids str \<le> item_tids b))
     \<and> (nhtids stp > 0 \<longrightarrow> ds_htids str = ds_htids stp \<and> ds_aggs str = ds_aggs stp
          \<and> ds_xmins str = ds_xmins stp \<and> basetupsize str = basetupsize stp)"

lemma redo_sim_count: "redo_sim stp str \<Longrightarrow> nhtids str \<le> pend_count stp"
  by (auto simp: redo_sim_def pend_count_def nhtids_def split: option.splits)

lemma redo_sim_save:
  assumes "redo_sim stp str" and "1 \<le> nitems stp" and "nhtids stp > 0" and "abt_dedup_save_htid stp itup ai = (True, stp')"
  shows "\<exists>str'. abt_dedup_save_htid str itup ai = (True, str') \<and> redo_sim stp' str'"
proof -
  have n: "nhtids str = nhtids stp" using assms by (simp add: redo_sim_def nhtids_def)
  have fit: "\<not> maxpostingsize str < sz" if "\<not> maxpostingsize stp < sz" for sz
    using that assms(1) by (simp add: redo_sim_def)
  show ?thesis
    using assms fit n
    by (auto simp: abt_dedup_save_htid_def Let_def redo_sim_def nhtids_def count_ok_def split: if_splits)
qed

lemma redo_sim_finish:
  assumes sim: "redo_sim stp str" and fin: "abt_dedup_finish_pending page stp ai = Some (page', stp', s)"
  shows "\<exists>str' s'. abt_dedup_finish_pending page str ai = Some (page', str', s')
    \<and> intervals str' = intervals stp' \<and> save_extra str' = save_extra stp'
    \<and> maxpostingsize stp' \<le> maxpostingsize str'"
proof -
  obtain b where b: "ds_base stp = Some b" using fin by (auto simp: abt_dedup_finish_pending_def split: option.splits)
  show ?thesis
  proof (cases "nitems stp \<le> 1")
    case True
    with b sim fin show ?thesis
      by (auto simp: abt_dedup_finish_pending_def redo_sim_def Let_def)
  next
    case False
    with sim have "nhtids stp > 0" by (auto simp: redo_sim_def count_ok_def)
    with False b sim fin show ?thesis
      by (auto simp: abt_dedup_finish_pending_def redo_sim_def Let_def)
  qed
qed

lemma redo_sim_start:
  assumes "intervals str = intervals stp" "save_extra str = save_extra stp"
    and "maxpostingsize stp \<le> maxpostingsize str"
  shows "redo_sim (abt_dedup_start_pending stp b off ai) (abt_dedup_start_pending str b off ai)"
  using assms start_pending_count [of str b off ai] start_pending_count_ok [of stp b off ai]
  unfolding redo_sim_def
  by (auto simp: abt_dedup_start_pending_def Let_def nhtids_def)

lemma redo_sim_nmaxitems [simp]: "redo_sim (stp\<lparr>nmaxitems := k\<rparr>) str = redo_sim stp str"
  by (simp add: redo_sim_def nhtids_def)

lemma redo_sim_capacity:
  assumes "redo_sim (dr_state run) str" and "1 \<le> nitems (dr_state run)"
    and "dedup_items nk ai sz offnum itups run = Some e"
    and "abt_dedup_finish_pending (dr_page e) (dr_state e) ai = Some (np, stf, s)"
    and "\<forall>lp\<in>set (drop (length (pd_linp (dr_page run))) (pd_linp np)). redo_buffers_ok ai (item_tids (pi_tup lp))"
  shows "redo_buffers_ok ai (nhtids str)"
proof -
  have "count_ok (dr_state run)" using assms(1) by (simp add: redo_sim_def)
  then obtain ys lp where "pd_linp np = pd_linp (dr_page run) @ ys" "lp \<in> set ys"
      "pend_count (dr_state run) \<le> item_tids (pi_tup lp)"
    using dedup_items_count [OF assms(3,4) _ assms(2)] by auto
  then show ?thesis
    using assms(5) redo_sim_count [OF assms(1)] by (auto intro: redo_buffers_mono order_trans)
qed

text \<open>The replay of one item does what the pass did, unless the pending list outgrows its buffers.\<close>

lemma redo_dedup_item_sim:
  assumes 1: "dedup_item nk ai sz offnum itup run = Some run1"
    and 2: "dedup_items nk ai sz (offnum + 1) itups run1 = Some e"
    and 3: "abt_dedup_finish_pending (dr_page e) (dr_state e) ai = Some (np, stf, s)"
    and ni: "1 \<le> nitems (dr_state run)" and bo: "baseoff (dr_state run) + nitems (dr_state run) \<le> offnum"
    and len: "offnum + 1 + length itups < 2 ^ 16" and sim: "redo_sim (dr_state run) str"
  shows "\<exists>str'. redo_sim (dr_state run1) str' \<and> 1 \<le> nitems (dr_state run1)
      \<and> baseoff (dr_state run1) + nitems (dr_state run1) \<le> offnum + 1
      \<and> redo_dedup_item (intervals stf) ai offnum itup (dr_page run, str)
          = (if redo_buffers_ok ai (nhtids str') then Some (dr_page run1, str') else None)
      \<and> (dr_page run1 = dr_page run \<and> abt_dedup_save_htid str itup ai = (True, str')
         \<or> (\<exists>str1 s1. abt_dedup_finish_pending (dr_page run) str ai = Some (dr_page run1, str1, s1)
              \<and> str' = abt_dedup_start_pending str1 itup offnum ai))"
proof -
  let ?st = "dr_state run" and ?I = "intervals stf"
  have iv: "intervals str = intervals ?st" "baseoff str = baseoff ?st" "nitems str = nitems ?st"
    using sim by (simp_all add: redo_sim_def)
  from 1 show ?thesis
  proof (cases rule: dedup_item_cases)
    case (merge st')
    note F = save_htid_fields [OF merge(2)]
    obtain str' where s': "abt_dedup_save_htid str itup ai = (True, str')" "redo_sim st' str'"
      using redo_sim_save [OF sim ni merge(1,2)] by blast
    have "future_ok ?I (offnum + 1) (dr_state run1)"
      using ni bo len F merge by (intro dedup_future [OF 2 3]) simp_all
    then obtain v rest where "?I = intervals ?st @ v # rest" "iv_baseoff v = baseoff ?st" "nitems ?st < iv_nitems v"
      using merge F ni by (auto simp: future_ok_def)
    then have "redo_dedup_item ?I ai offnum itup (dr_page run, str)
        = (if redo_buffers_ok ai (nhtids str') then Some (dr_page run, str') else None)"
      using s' iv by (simp add: redo_dedup_item_def)
    then show ?thesis using merge s' F ni bo by (intro exI [of _ str']) simp
  next
    case (close k)
    then obtain page st s' st1 sv where
      fin: "abt_dedup_finish_pending (dr_page run) (?st\<lparr>nmaxitems := k\<rparr>) ai = Some (page, st, s')"
      and step: "dedup_singleval_step sz (dr_singleval run) st = (st1, sv)"
      and r: "dr_page run1 = page" "dr_state run1 = abt_dedup_start_pending st1 itup offnum ai"
      by (auto elim: close_and_start_state)
    have fut: "future_ok ?I (offnum + 1) (dr_state run1)"
      using len r by (intro dedup_future [OF 2 3]) simp_all
    have u: "u16 (nitems ?st) = nitems ?st" using bo len by (intro u16_id) simp
    have ivs: "intervals (dr_state run1) = intervals ?st @ (if nitems ?st \<le> 1 then []
        else [\<lparr>iv_baseoff = baseoff ?st, iv_nitems = nitems ?st\<rparr>])"
      using finish_pending_intervals [OF fin] singleval_step_frame(3) [OF step] r u by simp
    have no: "\<not> (length (intervals str) < length ?I \<and> baseoff str = iv_baseoff (?I ! length (intervals str))
        \<and> nitems str < iv_nitems (?I ! length (intervals str)))"
    proof (cases "nitems ?st \<le> 1")
      case True
      then have eq: "intervals (dr_state run1) = intervals ?st" using ivs by simp
      have b: "baseoff ?st < offnum" using ni bo by simp
      have bo1: "baseoff (dr_state run1) = offnum" by (simp add: r)
      from fut consider "?I = intervals ?st"
        | v rest where "?I = intervals ?st @ v # rest" "offnum \<le> iv_baseoff v"
        unfolding future_ok_def eq bo1 by force
      then show ?thesis using b iv by cases simp_all
    next
      case False
      then obtain rest where "?I = intervals ?st @ \<lparr>iv_baseoff = baseoff ?st, iv_nitems = nitems ?st\<rparr> # rest"
        using fut ivs by (auto simp: future_ok_def)
      then show ?thesis using iv by simp
    qed
    obtain str1 s1 where f: "abt_dedup_finish_pending (dr_page run) str ai = Some (page, str1, s1)"
      "intervals str1 = intervals st" "save_extra str1 = save_extra st" "maxpostingsize st \<le> maxpostingsize str1"
      using redo_sim_finish [OF _ fin, of str] sim by auto
    let ?str' = "abt_dedup_start_pending str1 itup offnum ai"
    have "redo_sim (dr_state run1) ?str'"
      unfolding r using f singleval_step_frame [OF step] by (intro redo_sim_start) simp_all
    moreover have "redo_dedup_item ?I ai offnum itup (dr_page run, str)
        = (if redo_buffers_ok ai (nhtids ?str') then Some (page, ?str') else None)"
      unfolding redo_dedup_item_def Let_def prod.case if_not_P [OF no] f(1) by (simp add: redo_start_pending_def)
    ultimately show ?thesis using f(1) r by (intro exI [of _ ?str']) simp
  qed
qed

lemma redo_dedup_items_sim:
  assumes "dedup_items nk ai sz offnum itups run = Some e"
    and "abt_dedup_finish_pending (dr_page e) (dr_state e) ai = Some (np, stf, s)"
    and "1 \<le> nitems (dr_state run)" and "baseoff (dr_state run) + nitems (dr_state run) \<le> offnum"
    and "offnum + length itups < 2 ^ 16" and "redo_sim (dr_state run) str"
    and "\<forall>lp\<in>set (drop (length (pd_linp (dr_page run))) (pd_linp np)). redo_buffers_ok ai (item_tids (pi_tup lp))"
  shows "\<exists>pe ste str' s'. redo_dedup_items (intervals stf) ai offnum itups (dr_page run, str) = Some (pe, ste)
    \<and> abt_dedup_finish_pending pe ste ai = Some (np, str', s')"
  using assms
proof (induction itups arbitrary: offnum run str)
  case Nil
  then show ?case using redo_sim_finish [OF Nil(6)] by fastforce
next
  case (Cons itup itups)
  from Cons.prems(1) obtain run1 where
    1: "dedup_item nk ai sz offnum itup run = Some run1"
    and 2: "dedup_items nk ai sz (offnum + 1) itups run1 = Some e"
    by (auto split: option.splits)
  have len: "offnum + 1 + length itups < 2 ^ 16" using Cons.prems(5) by simp
  obtain str' where sim: "redo_sim (dr_state run1) str'" "1 \<le> nitems (dr_state run1)"
      "baseoff (dr_state run1) + nitems (dr_state run1) \<le> offnum + 1"
    and step: "redo_dedup_item (intervals stf) ai offnum itup (dr_page run, str)
          = (if redo_buffers_ok ai (nhtids str') then Some (dr_page run1, str') else None)"
    using redo_dedup_item_sim [OF 1 2 Cons.prems(2-4) len Cons.prems(6)] by blast
  obtain ys where "pd_linp (dr_page run1) = pd_linp (dr_page run) @ ys"
    using dedup_item_count [OF 1 _ Cons.prems(3)] Cons.prems(6) by (auto simp: redo_sim_def)
  then have room: "\<forall>lp\<in>set (drop (length (pd_linp (dr_page run1))) (pd_linp np)). redo_buffers_ok ai (item_tids (pi_tup lp))"
    using Cons.prems(7) set_drop_subset_set_drop [of "length (pd_linp (dr_page run))" "length (pd_linp (dr_page run1))" "pd_linp np"]
    by auto
  have "redo_buffers_ok ai (nhtids str')" by (rule redo_sim_capacity [OF sim(1,2) 2 Cons.prems(2) room])
  then show ?case using Cons.IH [OF 2 Cons.prems(2) sim(2,3) len sim(1) room] step by simp
qed

text \<open>What the replay has collected is exactly what the tuple it becomes will hold.\<close>

definition redo_exact :: "nat \<Rightarrow> ABTDedupState \<Rightarrow> bool" where
  "redo_exact M st \<longleftrightarrow> 1 \<le> nhtids st \<and> maxpostingsize st = M
     \<and> (\<forall>b. ds_base st = Some b \<longrightarrow> nitems st \<le> 1 \<longrightarrow> nhtids st = item_tids b)"

lemma redo_exact_start:
  assumes "wf_leaf_tuple nk ai t" and "IndexTupleSize t \<le> M" and "maxpostingsize st = M"
  shows "redo_exact M (abt_dedup_start_pending st t off ai)"
  using assms
  by (auto simp: redo_exact_def abt_dedup_start_pending_def wf_leaf_tuple_def tuple_tids_def Let_def nhtids_def
      item_tids_def ABTreeTupleGetPosting_def)

lemma redo_exact_save:
  assumes "redo_exact M st" and "1 \<le> nitems st" and "abt_dedup_save_htid st t ai = (True, st')"
  shows "redo_exact M st'"
proof -
  have "nhtids st \<le> nhtids st'" using assms(3) by (auto simp: abt_dedup_save_htid_def nhtids_def Let_def split: if_splits)
  then show ?thesis using assms save_htid_fields [OF assms(3)] by (simp add: redo_exact_def)
qed

lemma form_posting_exact: "1 \<le> length h \<Longrightarrow> item_tids (abt_form_posting b h ai) = length h"
  by (simp add: abt_form_posting_def item_tids_def Let_def)

lemma redo_exact_finish:
  assumes "abt_dedup_finish_pending page st ai = Some (page', st', s)" and "redo_exact M st"
  shows "\<exists>lp. pd_linp page' = pd_linp page @ [lp] \<and> item_tids (pi_tup lp) = nhtids st" "maxpostingsize st' = M"
proof -
  obtain b where b: "ds_base st = Some b" using assms(1) by (auto simp: abt_dedup_finish_pending_def split: option.splits)
  show "maxpostingsize st' = M"
    using assms b by (auto simp: abt_dedup_finish_pending_def redo_exact_def Let_def split: if_splits)
  show "\<exists>lp. pd_linp page' = pd_linp page @ [lp] \<and> item_tids (pi_tup lp) = nhtids st"
  proof (cases "nitems st \<le> 1")
    case True
    then obtain lp where "pd_linp page' = pd_linp page @ [lp]" "pi_tup lp = b"
      using assms(1) b by (auto simp: abt_dedup_finish_pending_def Let_def dest!: PageAddItem_append [simplified])
    then show ?thesis using assms(2) True b by (auto simp: redo_exact_def)
  next
    case False
    then obtain lp where "pd_linp page' = pd_linp page @ [lp]"
      "it_htids (pi_tup lp) = it_htids (abt_form_posting b (ds_htids st) ai)"
      using assms(1) b by (auto simp: abt_dedup_finish_pending_def Let_def dest!: PageAddItem_append [simplified] split: if_splits)
    then show ?thesis
      using form_posting_exact [of "ds_htids st" b ai] assms(2) by (auto simp: redo_exact_def item_tids_def nhtids_def)
  qed
qed

text \<open>A replay that ends has kept within its buffers, and so every tuple of the page fits them.\<close>

lemma redo_dedup_items_room:
  assumes "dedup_items nk ai sz offnum itups run = Some e"
    and "abt_dedup_finish_pending (dr_page e) (dr_state e) ai = Some (np, stf, s)"
    and "1 \<le> nitems (dr_state run)" and "baseoff (dr_state run) + nitems (dr_state run) \<le> offnum"
    and "offnum + length itups < 2 ^ 16" and "redo_sim (dr_state run) str"
    and "redo_exact M str" and "redo_buffers_ok ai (nhtids str)"
    and "\<forall>t\<in>set itups. wf_leaf_tuple nk ai t \<and> IndexTupleSize t \<le> M"
    and "redo_dedup_items (intervals stf) ai offnum itups (dr_page run, str) = Some (pe, ste)"
  shows "\<exists>ys. pd_linp np = pd_linp (dr_page run) @ ys \<and> (\<forall>lp\<in>set ys. redo_buffers_ok ai (item_tids (pi_tup lp)))"
  using assms
proof (induction itups arbitrary: offnum run str)
  case Nil
  from Nil.prems(1) have e: "e = run" by simp
  obtain str' s' where "abt_dedup_finish_pending (dr_page run) str ai = Some (np, str', s')"
    using redo_sim_finish [OF Nil.prems(6) Nil.prems(2) [unfolded e]] by blast
  from redo_exact_finish(1) [OF this Nil.prems(7)] Nil.prems(8) show ?case by auto
next
  case (Cons itup itups)
  from Cons.prems(1) obtain run1 where
    1: "dedup_item nk ai sz offnum itup run = Some run1"
    and 2: "dedup_items nk ai sz (offnum + 1) itups run1 = Some e"
    by (auto split: option.splits)
  have len: "offnum + 1 + length itups < 2 ^ 16" using Cons.prems(5) by simp
  obtain str' where sim: "redo_sim (dr_state run1) str'" "1 \<le> nitems (dr_state run1)"
      "baseoff (dr_state run1) + nitems (dr_state run1) \<le> offnum + 1"
    and step: "redo_dedup_item (intervals stf) ai offnum itup (dr_page run, str)
          = (if redo_buffers_ok ai (nhtids str') then Some (dr_page run1, str') else None)"
    and how: "dr_page run1 = dr_page run \<and> abt_dedup_save_htid str itup ai = (True, str')
         \<or> (\<exists>str1 s1. abt_dedup_finish_pending (dr_page run) str ai = Some (dr_page run1, str1, s1)
              \<and> str' = abt_dedup_start_pending str1 itup offnum ai)"
    using redo_dedup_item_sim [OF 1 2 Cons.prems(2-4) len Cons.prems(6)] by blast
  have ok: "redo_buffers_ok ai (nhtids str')"
    and rest: "redo_dedup_items (intervals stf) ai (offnum + 1) itups (dr_page run1, str') = Some (pe, ste)"
    using Cons.prems(10) step by (auto split: if_splits)
  have ex: "redo_exact M str' \<and> (\<exists>zs. pd_linp (dr_page run1) = pd_linp (dr_page run) @ zs
      \<and> (\<forall>lp\<in>set zs. redo_buffers_ok ai (item_tids (pi_tup lp))))"
    using how
  proof (elim disjE exE conjE)
    assume "dr_page run1 = dr_page run" "abt_dedup_save_htid str itup ai = (True, str')"
    moreover have "1 \<le> nitems str" using Cons.prems(3,6) by (simp add: redo_sim_def)
    ultimately show ?thesis using redo_exact_save [OF Cons.prems(7)] by auto
  next
    fix str1 s1
    assume f: "abt_dedup_finish_pending (dr_page run) str ai = Some (dr_page run1, str1, s1)"
      and s': "str' = abt_dedup_start_pending str1 itup offnum ai"
    have "redo_exact M str'"
      unfolding s' using Cons.prems(9) redo_exact_finish(2) [OF f Cons.prems(7)] by (intro redo_exact_start [of nk]) simp_all
    then show ?thesis using redo_exact_finish(1) [OF f Cons.prems(7)] Cons.prems(8) by auto
  qed
  then obtain zs where zs: "pd_linp (dr_page run1) = pd_linp (dr_page run) @ zs"
    "\<forall>lp\<in>set zs. redo_buffers_ok ai (item_tids (pi_tup lp))" by blast
  obtain ys where "pd_linp np = pd_linp (dr_page run1) @ ys" "\<forall>lp\<in>set ys. redo_buffers_ok ai (item_tids (pi_tup lp))"
    using Cons.IH [OF 2 Cons.prems(2) sim(2,3) len sim(1) _ ok _ rest] ex Cons.prems(9) by auto
  with zs show ?case by auto
qed

lemma ABTMaxItemSize_ge: "agg_typlen ai \<le> 8 \<Longrightarrow> extra_space_when_tid_present ai = extra_space_when_tid_present
    (abt_compute_tuple_offsets ai) \<Longrightarrow> 1348 \<le> ABTMaxItemSize ai"
proof -
  assume t: "agg_typlen ai \<le> 8"
    and e: "extra_space_when_tid_present ai = extra_space_when_tid_present (abt_compute_tuple_offsets ai)"
  have "INTALIGN (agg_typlen ai) \<le> 8"
    using t div_le_mono [of "agg_typlen ai + 3" 11 4] by (simp add: INTALIGN_def)
  then have "extra_space_when_tid_present ai \<le> 16"
    unfolding e using MAXALIGN_mono [of "INTALIGN (agg_typlen ai) + SHORTALIGN 2 + 6" 16]
    by (simp add: abt_compute_tuple_offsets_def Let_def SHORTALIGN_def MAXALIGN_def)
  then have "8056 \<le> BLCKSZ - MAXALIGN SizeOfPageHeaderData - MAXALIGN (3 * sizeof_ItemIdData)
       - 3 * extra_space_when_tid_present ai - MAXALIGN sizeof_ABTPageOpaqueData" (is "_ \<le> ?sp")
    by (simp add: size_defs MAXALIGN_def)
  then have "2685 \<le> ?sp div 3" using div_le_mono [of 8056 ?sp 3] by simp
  then have "335 \<le> ?sp div 3 div 8" using div_le_mono [of 2685 "?sp div 3" 8] by simp
  then show ?thesis by (simp add: ABTMaxItemSize_def MAXALIGN_DOWN_def)
qed

lemma xlog_dedup_replays_pass:
  assumes ai: "ai = abt_compute_tuple_offsets ai0" and tl: "agg_typlen ai \<le> 8" and step: "stride_in_step ai"
    and stack: "leaf_has_agg ai \<longrightarrow> xl_agg_stride stack = agg_stride ai"
    and len: "length (pd_linp page) < 2 ^ 16 - 2"
    and wf: "\<forall>t\<in>set (dedup_data_items page). wf_leaf_tuple nk ai t \<and> IndexTupleSize t \<le> ABTMaxItemSize ai"
    and pass: "dedup_pass nk page newitem sz cu ai = Some (newpage, st)"
  shows "abtree_xlog_dedup stack d (dedup_xlog_record ai (intervals st)) page
    = (if \<forall>lp\<in>set (drop (ABT_P_FIRSTDATAKEY (pd_special page) - 1) (pd_linp newpage)).
            redo_buffers_ok ai (item_tids (pi_tup lp))
       then Some (dedup_clear_garbage page newpage) else None)" (is "_ = (if ?room then _ else _)")
proof -
  let ?minoff = "ABT_P_FIRSTDATAKEY (pd_special page)"
  define ai' where "ai' = abt_apply_min_agg_info
    (copy_min_agg_info (logged_min_agg_info (abt_prepare_min_agg_info ai)) stack) (d\<lparr>leaf_has_agg := leaf_has_agg ai\<rparr>)"
  have L: "agg_layout_eq ai ai'" unfolding ai'_def by (rule min_agg_info_layout [OF ai refl stack])
  have step': "stride_in_step ai'"
    using step stack by (simp add: ai'_def stride_in_step_def abt_apply_min_agg_info_def copy_min_agg_info_def
        logged_min_agg_info_def abt_prepare_min_agg_info_def abt_compute_tuple_offsets_def Let_def)
  have "extra_space_when_tid_present ai = extra_space_when_tid_present (abt_compute_tuple_offsets ai)"
    by (simp add: ai abt_compute_tuple_offsets_def Let_def)
  then have max: "1348 \<le> ABTMaxItemSize ai" by (intro ABTMaxItemSize_ge [OF tl])
  from pass obtain itup itups sv page0 run s where
    items: "dedup_data_items page = itup # itups"
    and hk: "dedup_copy_hikey page = Some page0"
    and loop: "dedup_items nk ai sz (?minoff + 1) itups
        \<lparr>dr_page = page0, dr_state = abt_dedup_start_pending (dedup_init_state 1348) itup ?minoff ai,
         dr_saving = 0, dr_singleval = sv\<rparr> = Some run" (is "dedup_items _ _ _ _ _ ?run = _")
    and fin: "abt_dedup_finish_pending (dr_page run) (dr_state run) ai = Some (newpage, st, s)"
    unfolding dedup_pass_def dedup_maxpostingsize
    by (auto simp: Let_def split: list.splits option.splits)
  let ?sr = "abt_dedup_start_pending (dedup_init_state (ABTMaxItemSize ai)) itup ?minoff ai"
  have sim: "redo_sim (dr_state ?run) ?sr"
    using max by (simp, intro redo_sim_start) (simp_all add: dedup_init_state_def)
  have run: "1 \<le> nitems (dr_state ?run)" "baseoff (dr_state ?run) + nitems (dr_state ?run) \<le> ?minoff + 1" by simp_all
  have page0: "length (pd_linp (dr_page ?run)) = ?minoff - 1" using copy_hikey(2) [OF hk] items by simp
  have "length itups < length (pd_linp page)"
    using arg_cong [OF items, of length] by (simp add: dedup_data_items_def)
  then have offs: "?minoff + 1 + length itups < 2 ^ 16"
    using len by (simp add: ABT_P_FIRSTDATAKEY_def ABTP_HIKEY_def ABTP_FIRSTKEY_def)
  have start: "redo_start_pending (dedup_init_state (ABTMaxItemSize ai')) itup ?minoff ai'
      = (if redo_buffers_ok ai (nhtids ?sr) then Some ?sr else None)"
    unfolding redo_start_layout [OF L] agg_layout_eqD(4) [OF L] by (simp add: redo_start_pending_def Let_def)
  have redo: "abtree_xlog_dedup stack d (dedup_xlog_record ai (intervals st)) page
      = (if redo_buffers_ok ai (nhtids ?sr)
         then case redo_dedup_items (intervals st) ai (?minoff + 1) itups (page0, ?sr) of
                None \<Rightarrow> None
              | Some (page1, state1) \<Rightarrow>
                  map_option (\<lambda>(p, st, _). dedup_clear_garbage page p) (abt_dedup_finish_pending page1 state1 ai)
         else None)"
    unfolding abtree_xlog_dedup_def dedup_xlog_record_def Let_def xl_abtree_dedup.select_convs
      ai'_def [symmetric] redo_dedup_items_layout [OF L] finish_pending_layout [OF L]
    using hk items step' start by simp
  show ?thesis
  proof (cases ?room)
    case True
    then have room: "\<forall>lp\<in>set (drop (length (pd_linp (dr_page ?run))) (pd_linp newpage)). redo_buffers_ok ai (item_tids (pi_tup lp))"
      unfolding page0 .
    have "redo_buffers_ok ai (nhtids ?sr)" by (rule redo_sim_capacity [OF sim run(1) loop fin room])
    then show ?thesis
      unfolding redo using redo_dedup_items_sim [OF loop fin run offs sim room] True by auto
  next
    case False
    have ex: "redo_exact (ABTMaxItemSize ai) ?sr"
      using wf items by (intro redo_exact_start [of nk]) (simp_all add: dedup_init_state_def)
    have wfs: "\<forall>t\<in>set itups. wf_leaf_tuple nk ai t \<and> IndexTupleSize t \<le> ABTMaxItemSize ai" using wf items by simp
    have "redo_dedup_items (intervals st) ai (?minoff + 1) itups (page0, ?sr) = None" if ok: "redo_buffers_ok ai (nhtids ?sr)"
    proof (rule ccontr)
      assume "redo_dedup_items (intervals st) ai (?minoff + 1) itups (page0, ?sr) \<noteq> None"
      then obtain pe ste where "redo_dedup_items (intervals st) ai (?minoff + 1) itups (dr_page ?run, ?sr) = Some (pe, ste)" by auto
      then obtain ys where "pd_linp newpage = pd_linp (dr_page ?run) @ ys" "\<forall>lp\<in>set ys. redo_buffers_ok ai (item_tids (pi_tup lp))"
        using redo_dedup_items_room [OF loop fin run offs sim ex ok wfs] by blast
      then show False using False page0 by simp
    qed
    then show ?thesis unfolding redo using False by simp
  qed
qed

text \<open>How many heap TIDs the buffers of the replay hold for bigint aggregates, stored in the leaves or
  not. A list of the maximal size of a pass has up to 73 and 133 heap TIDs.\<close>

lemma redo_capacity_int8:
  "leaf_has_agg ai \<Longrightarrow> agg_stride ai = 8 \<Longrightarrow> extra_space_when_tid_present ai = 16 \<Longrightarrow> redo_buffers_ok ai n \<longleftrightarrow> n \<le> 57"
  "\<not> leaf_has_agg ai \<Longrightarrow> extra_space_when_tid_present ai = 16 \<Longrightarrow> redo_buffers_ok ai n \<longleftrightarrow> n \<le> 113"
  by (auto simp: redo_buffers_ok_def ABTMaxItemSize_def MAXALIGN_def MAXALIGN_DOWN_def size_defs)

section \<open>Replay of a vacuum\<close>

lemma overwrite_other_item:
  assumes "PageIndexTupleOverwrite page off t sz = Some page'" and "off' \<noteq> off" "1 \<le> off'"
  shows "PageGetItem page' off' = PageGetItem page off'"
proof -
  have off: "1 \<le> off" and p: "pd_linp page' = (pd_linp page)[off - 1 := (PageGetItemId page off)\<lparr>lp_len := sz, pi_tup := t\<rparr>]"
    using assms(1) by (auto simp: PageIndexTupleOverwrite_def Let_def split: if_splits)
  have "off - 1 \<noteq> off' - 1" using assms(2,3) off by linarith
  then show ?thesis by (simp add: PageGetItem_def PageGetItemId_def p)
qed

lemma redo_updates_eq:
  assumes "agg_layout_eq ai ai'" and "stride_in_step ai'" and "distinct (map vp_updatedoffset vps)"
    and "\<forall>vp\<in>set vps. 1 \<le> vp_updatedoffset vp \<and> vp_itup vp = PageGetItem page (vp_updatedoffset vp)"
  shows "redo_updates (Some ai') (map (\<lambda>vp. (vp_updatedoffset vp, vp_deletetids vp)) vps) page
    = overwrite_updated (map (\<lambda>vp. abt_update_posting vp ai) vps) page"
  using assms(3,4)
proof (induction vps arbitrary: page)
  case (Cons vp vps)
  let ?off = "vp_updatedoffset vp"
  let ?t = "vp_itup (abt_update_posting vp ai)"
  have vp: "\<lparr>vp_itup = PageGetItem page ?off, vp_updatedoffset = ?off, vp_deletetids = vp_deletetids vp\<rparr> = vp"
    using Cons.prems(2) by (cases vp) simp
  have o: "vp_updatedoffset (abt_update_posting vp ai) = ?off" by (simp add: abt_update_posting_def Let_def)
  show ?case
  proof (cases "PageIndexTupleOverwrite page ?off ?t (MAXALIGN (IndexTupleSize ?t))")
    case None
    then show ?thesis by (simp add: vp update_posting_layout [OF assms(1)] o assms(2))
  next
    case (Some page')
    have "redo_updates (Some ai') (map (\<lambda>vp. (vp_updatedoffset vp, vp_deletetids vp)) vps) page'
        = overwrite_updated (map (\<lambda>vp. abt_update_posting vp ai) vps) page'"
    proof (rule Cons.IH)
      show "\<forall>v\<in>set vps. 1 \<le> vp_updatedoffset v \<and> vp_itup v = PageGetItem page' (vp_updatedoffset v)"
      proof
        fix v
        assume v: "v \<in> set vps"
        then have "vp_updatedoffset v \<noteq> ?off" using Cons.prems(1) by (force simp: image_iff)
        with v Cons.prems(2) show "1 \<le> vp_updatedoffset v \<and> vp_itup v = PageGetItem page' (vp_updatedoffset v)"
          using overwrite_other_item [OF Some, of "vp_updatedoffset v"] by simp
      qed
    qed (use Cons.prems in simp)
    with Some show ?thesis by (simp add: vp update_posting_layout [OF assms(1)] o assms(2))
  qed
qed simp

lemma xlog_vacuum_replays:
  assumes ai: "ai = abt_compute_tuple_offsets aj"
    and agg: "updatable = [] \<or> leaf_has_agg ai \<and> stride_in_step ai \<and> xl_agg_stride stack = agg_stride ai"
    and upd: "distinct (map vp_updatedoffset updatable)"
      "\<forall>vp\<in>set updatable. 1 \<le> vp_updatedoffset vp \<and> vp_itup vp = PageGetItem page (vp_updatedoffset vp)"
    and vac: "abt_delitems_vacuum page deletable updatable ai = Some (page', xlrec)"
  shows "\<exists>page''. abtree_xlog_vacuum stack d xlrec page = Some page''
    \<and> page' = page''\<lparr>pd_special := (pd_special page'')\<lparr>abtpo_cycleid := 0\<rparr>\<rparr>"
proof -
  let ?copy = "\<lambda>logged. abt_apply_min_agg_info (copy_min_agg_info logged stack) (d\<lparr>leaf_has_agg := True\<rparr>)"
  let ?ai' = "?copy (logged_min_agg_info (abt_prepare_min_agg_info ai))"
  have rec: "xv_deletable xlrec = deletable"
    "xv_updates xlrec = map (\<lambda>vp. (vp_updatedoffset vp, vp_deletetids vp)) updatable"
    "xv_min_agg_info xlrec = (if leaf_has_agg ai \<and> updatable \<noteq> [] then Some (logged_min_agg_info (abt_prepare_min_agg_info ai)) else None)"
    using vac by (auto simp: abt_delitems_vacuum_def split: option.splits)
  have same: "redo_updates (map_option ?copy (xv_min_agg_info xlrec))
      (xv_updates xlrec) page = overwrite_updated (map (\<lambda>vp. abt_update_posting vp ai) updatable) page"
  proof (cases "updatable = []")
    case False
    then have a: "leaf_has_agg ai" "stride_in_step ai" "xl_agg_stride stack = agg_stride ai" using agg by simp_all
    have "agg_layout_eq ai ?ai'" using min_agg_info_layout [OF ai, of True stack d] a by simp
    moreover have "stride_in_step ?ai'"
      using a by (simp add: stride_in_step_def abt_apply_min_agg_info_def copy_min_agg_info_def
        logged_min_agg_info_def abt_prepare_min_agg_info_def abt_compute_tuple_offsets_def Let_def)
    ultimately show ?thesis using redo_updates_eq [of ai ?ai'] upd False a(1) by (simp add: rec)
  qed (simp add: rec)
  show ?thesis
    using vac unfolding abtree_xlog_vacuum_def Let_def same rec(1)
    by (auto simp: abt_delitems_vacuum_def split: option.splits)
qed

text \<open>When the leaves store no aggregation values, the record carries no aggregation information,
  and the replay of an update uses a null pointer.\<close>

lemma xlog_vacuum_null_agg_info:
  assumes "\<not> leaf_has_agg ai" and "updatable \<noteq> []"
    and "abt_delitems_vacuum page deletable updatable ai = Some (page', xlrec)"
  shows "abtree_xlog_vacuum stack d xlrec page = None"
proof -
  have rec: "xv_updates xlrec = map (\<lambda>vp. (vp_updatedoffset vp, vp_deletetids vp)) updatable"
    "xv_min_agg_info xlrec = None"
    using assms by (auto simp: abt_delitems_vacuum_def split: option.splits)
  obtain vp vps where "updatable = vp # vps" using assms(2) by (cases updatable) auto
  then show ?thesis by (simp add: abtree_xlog_vacuum_def rec)
qed

section \<open>Properties\<close>

lemma ex_agg_info_offsets: "ex_agg_info = abt_compute_tuple_offsets ex_agg_info"
  by (simp add: ex_agg_info_def abt_compute_tuple_offsets_def Let_def SHORTALIGN_def MAXALIGN_def INTALIGN_def)

definition ex_dedup_result :: "PageData \<times> ABTDedupState" where
  "ex_dedup_result = the (dedup_pass 1 ex_page (ex_plain 5 9) 8100 False ex_agg_info)"

lemma ex_dedup_pass: "dedup_pass 1 ex_page (ex_plain 5 9) 8100 False ex_agg_info = Some ex_dedup_result"
proof -
  have "dedup_pass 1 ex_page (ex_plain 5 9) 8100 False ex_agg_info \<noteq> None" by code_simp
  then show ?thesis unfolding ex_dedup_result_def by simp
qed

definition ex_stack :: xl_abtree_minimal_agg_info where
  "ex_stack = \<lparr>xl_agg_typlen = 3, xl_agg_stride = 17\<rparr>"

text \<open>
  C8. The replay of the log record of a deduplication pass. The record carries the length of the
  aggregation type but not the stride, which the redo routine takes from uninitialised memory
  (\<open>stack\<close>). For an index without leaf aggregates, and for one with leaf aggregates if that memory
  happens to hold the right stride, the redo routine does on the page as it was before the pass what
  the pass did, although it knows neither the keys nor the new item and bounds posting lists by
  another maximum size: if the heap TIDs of every tuple of the new page fit the buffers it allocates,
  it ends without error with exactly the page that the pass produced; otherwise it writes past the end
  of a buffer. The data items of the page are well formed and at most a third of a page.
\<close>

theorem abtree_xlog_dedup_replays:
  assumes "ai = abt_compute_tuple_offsets ai0" and "agg_typlen ai \<le> 8" and "stride_in_step ai"
    and "leaf_has_agg ai \<longrightarrow> xl_agg_stride stack = agg_stride ai"
    and "length (pd_linp page) < 2 ^ 16 - 2"
    and "\<forall>t\<in>set (dedup_data_items page). wf_leaf_tuple nk ai t \<and> IndexTupleSize t \<le> ABTMaxItemSize ai"
    and "dedup_pass nk page newitem sz cu ai = Some (newpage, st)"
  shows "abtree_xlog_dedup stack d (dedup_xlog_record ai (intervals st)) page
    = (if \<forall>lp\<in>set (drop (ABT_P_FIRSTDATAKEY (pd_special page) - 1) (pd_linp newpage)).
            redo_buffers_ok ai (item_tids (pi_tup lp))
       then Some (dedup_clear_garbage page newpage) else None)"
  using xlog_dedup_replays_pass [OF assms] .

theorem abtree_xlog_dedup_replays_witness:
  "abtree_xlog_dedup ex_stack ex_agg_info8 (dedup_xlog_record ex_agg_info (intervals (snd ex_dedup_result))) ex_page
     = Some (dedup_clear_garbage ex_page (fst ex_dedup_result))
   \<and> intervals (snd ex_dedup_result) \<noteq> []"
proof -
  have h: "agg_typlen ex_agg_info \<le> 8" "stride_in_step ex_agg_info" "length (pd_linp ex_page) < 2 ^ 16 - 2"
    "leaf_has_agg ex_agg_info \<longrightarrow> xl_agg_stride ex_stack = agg_stride ex_agg_info"
    by (simp_all add: ex_agg_info_def ex_page_def stride_in_step_def)
  have wf: "\<forall>t\<in>set (dedup_data_items ex_page). wf_leaf_tuple 1 ex_agg_info t \<and> IndexTupleSize t \<le> ABTMaxItemSize ex_agg_info"
    by code_simp
  have room: "\<forall>lp\<in>set (drop (ABT_P_FIRSTDATAKEY (pd_special ex_page) - 1) (pd_linp (fst ex_dedup_result))).
            redo_buffers_ok ex_agg_info (item_tids (pi_tup lp))"
    by code_simp
  have "abtree_xlog_dedup ex_stack ex_agg_info8 (dedup_xlog_record ex_agg_info (intervals (snd ex_dedup_result))) ex_page
     = Some (dedup_clear_garbage ex_page (fst ex_dedup_result))"
    using abtree_xlog_dedup_replays [OF ex_agg_info_offsets h(1,2,4,3) wf, of "ex_plain 5 9" 8100 False
        "fst ex_dedup_result" "snd ex_dedup_result"] ex_dedup_pass room by simp
  moreover have "intervals (snd ex_dedup_result) \<noteq> []" by code_simp
  ultimately show ?thesis ..
qed

definition ex_vacuum_page :: PageData where
  "ex_vacuum_page = ex_page\<lparr>pd_linp := [new_item (ex_plain8 1), new_item ex_posting8]\<rparr>"

definition ex_vacuum :: "ABTVacuumPosting list" where
  "ex_vacuum = [\<lparr>vp_itup = ex_posting8, vp_updatedoffset = 2, vp_deletetids = [1]\<rparr>]"

lemma ex_vacuum_ok:
  "abt_delitems_vacuum ex_vacuum_page [1] ex_vacuum ex_agg_info8 \<noteq> None"
  "abt_delitems_vacuum ex_vacuum_page [1] ex_vacuum ex_agg_info \<noteq> None"
  "distinct (map vp_updatedoffset ex_vacuum)"
  "\<forall>vp\<in>set ex_vacuum. 1 \<le> vp_updatedoffset vp \<and> vp_itup vp = PageGetItem ex_vacuum_page (vp_updatedoffset vp)"
  by code_simp+

text \<open>
  C26. The log record of a vacuum of a leaf page replays it, for a vacuum that only deletes whole items,
  and for one that also shortens posting lists of an index with leaf aggregates if the uninitialised
  memory from which the redo routine takes the stride (\<open>stack\<close>; the record does not carry it)
  happens to hold the right one: the redo routine rebuilds every updated posting list from the page
  and the logged TID indexes, deletes the same items and yields the page that vacuum left, except for
  the vacuum cycle id, which only vacuum itself resets.
\<close>

theorem abtree_xlog_vacuum_replays:
  assumes "ai = abt_compute_tuple_offsets aj"
    and "updatable = [] \<or> leaf_has_agg ai \<and> stride_in_step ai \<and> xl_agg_stride stack = agg_stride ai"
    and "distinct (map vp_updatedoffset updatable)"
    and "\<forall>vp\<in>set updatable. 1 \<le> vp_updatedoffset vp \<and> vp_itup vp = PageGetItem page (vp_updatedoffset vp)"
    and "abt_delitems_vacuum page deletable updatable ai = Some (page', xlrec)"
  shows "\<exists>page''. abtree_xlog_vacuum stack d xlrec page = Some page''
    \<and> page' = page''\<lparr>pd_special := (pd_special page'')\<lparr>abtpo_cycleid := 0\<rparr>\<rparr>"
  using xlog_vacuum_replays [OF assms] .

theorem abtree_xlog_vacuum_replays_witness:
  "\<exists>page' page'' xlrec. abt_delitems_vacuum ex_vacuum_page [1] ex_vacuum ex_agg_info8 = Some (page', xlrec)
     \<and> abtree_xlog_vacuum \<lparr>xl_agg_typlen = 3, xl_agg_stride = 8\<rparr> ex_agg_info xlrec ex_vacuum_page = Some page''
     \<and> page' = page''\<lparr>pd_special := (pd_special page'')\<lparr>abtpo_cycleid := 0\<rparr>\<rparr>"
proof -
  obtain page' xlrec where r: "abt_delitems_vacuum ex_vacuum_page [1] ex_vacuum ex_agg_info8 = Some (page', xlrec)"
    using ex_vacuum_ok(1) by auto
  have "ex_vacuum = [] \<or> leaf_has_agg ex_agg_info8 \<and> stride_in_step ex_agg_info8
      \<and> xl_agg_stride \<lparr>xl_agg_typlen = 3, xl_agg_stride = 8\<rparr> = agg_stride ex_agg_info8" by code_simp
  then show ?thesis
    using abtree_xlog_vacuum_replays [OF ex_agg_info8_def _ ex_vacuum_ok(3,4) r, of "\<lparr>xl_agg_typlen = 3, xl_agg_stride = 8\<rparr>" ex_agg_info] r by blast
qed

text \<open>
  C36. For an index whose leaves store no aggregation values, vacuum logs the updated posting lists
  without the aggregation information, and every replay of such a record dereferences a null
  pointer: recovery fails on each vacuum that shortened a posting list.
\<close>

theorem abtree_xlog_vacuum_null_agg_info:
  assumes "\<not> leaf_has_agg ai" and "updatable \<noteq> []"
    and "abt_delitems_vacuum page deletable updatable ai = Some (page', xlrec)"
  shows "abtree_xlog_vacuum stack d xlrec page = None"
  using xlog_vacuum_null_agg_info [OF assms] .

theorem abtree_xlog_vacuum_null_agg_info_witness:
  "\<exists>page' xlrec. abt_delitems_vacuum ex_vacuum_page [1] ex_vacuum ex_agg_info = Some (page', xlrec)
     \<and> abtree_xlog_vacuum ex_stack ex_agg_info xlrec ex_vacuum_page = None"
proof -
  obtain page' xlrec where r: "abt_delitems_vacuum ex_vacuum_page [1] ex_vacuum ex_agg_info = Some (page', xlrec)"
    using ex_vacuum_ok(2) by auto
  have "\<not> leaf_has_agg ex_agg_info" "ex_vacuum \<noteq> []" by code_simp+
  then show ?thesis using abtree_xlog_vacuum_null_agg_info [OF _ _ r, of ex_stack ex_agg_info] r by blast
qed

end
