(* ===== verification/Qsort.thy ===== *)
theory Qsort
  imports Prelude "HOL-Library.Multiset"
begin

text \<open>
  The quicksort of \<^verbatim>\<open>src/port/qsort.c\<close>, which the server uses for every \<^verbatim>\<open>qsort\<close> call. An array of \<^verbatim>\<open>n\<close>
  elements is the list of its elements and a pointer into it the index of an element; \<^verbatim>\<open>pc\<close> and \<^verbatim>\<open>pd\<close>
  are kept one past the element they point at, so that they stay natural numbers. How elements
  are copied (\<^verbatim>\<open>swaptype\<close>) does not matter here.
\<close>

section \<open>The routine\<close>

definition swap :: "'a list \<Rightarrow> nat \<Rightarrow> nat \<Rightarrow> 'a list" where
  "swap xs a b = xs[a := xs ! b, b := xs ! a]"

primrec vecswap :: "'a list \<Rightarrow> nat \<Rightarrow> nat \<Rightarrow> nat \<Rightarrow> 'a list" where
  "vecswap xs a b 0 = xs"
| "vecswap xs a b (Suc n) = vecswap (swap xs a b) (a + 1) (b + 1) n"

definition med3 :: "('a \<Rightarrow> 'a \<Rightarrow> int) \<Rightarrow> 'a list \<Rightarrow> nat \<Rightarrow> nat \<Rightarrow> nat \<Rightarrow> nat" where
  "med3 cmp xs a b c =
     (if cmp (xs ! a) (xs ! b) < 0
      then if cmp (xs ! b) (xs ! c) < 0 then b else if cmp (xs ! a) (xs ! c) < 0 then c else a
      else if cmp (xs ! b) (xs ! c) > 0 then b else if cmp (xs ! a) (xs ! c) < 0 then a else c)"

text \<open>The two loops of the insertion sort for short arrays.\<close>

primrec insert_down :: "('a \<Rightarrow> 'a \<Rightarrow> int) \<Rightarrow> nat \<Rightarrow> 'a list \<Rightarrow> 'a list" where
  "insert_down cmp 0 xs = xs"
| "insert_down cmp (Suc p) xs =
     (if cmp (xs ! p) (xs ! Suc p) > 0 then insert_down cmp p (swap xs (Suc p) p) else xs)"

definition insertion_sort :: "('a \<Rightarrow> 'a \<Rightarrow> int) \<Rightarrow> 'a list \<Rightarrow> 'a list" where
  "insertion_sort cmp xs = foldl (\<lambda>xs pm. insert_down cmp pm xs) xs [1..<length xs]"

fun presorted :: "('a \<Rightarrow> 'a \<Rightarrow> int) \<Rightarrow> 'a list \<Rightarrow> bool" where
  "presorted cmp (x # y # zs) \<longleftrightarrow> \<not> cmp x y > 0 \<and> presorted cmp (y # zs)"
| "presorted cmp _ \<longleftrightarrow> True"

definition choose_pivot :: "('a \<Rightarrow> 'a \<Rightarrow> int) \<Rightarrow> 'a list \<Rightarrow> nat" where
  "choose_pivot cmp xs =
     (let n = length xs; pm = n div 2
      in if n > 7 then
           let pl = 0; pn = n - 1
           in if n > 40 then
                let d = n div 8
                in med3 cmp xs (med3 cmp xs pl (pl + d) (pl + 2 * d)) (med3 cmp xs (pm - d) pm (pm + d))
                     (med3 cmp xs (pn - 2 * d) (pn - d) pn)
              else med3 cmp xs pl pm pn
         else pm)"

text \<open>The two inner loops of the partition; the pivot is the first element.\<close>

function part_left :: "('a \<Rightarrow> 'a \<Rightarrow> int) \<Rightarrow> 'a list \<Rightarrow> nat \<Rightarrow> nat \<Rightarrow> nat \<Rightarrow> 'a list \<times> nat \<times> nat" where
  "part_left cmp xs pa pb pc =
     (if pb < pc \<and> cmp (xs ! pb) (xs ! 0) \<le> 0 then
        if cmp (xs ! pb) (xs ! 0) = 0 then part_left cmp (swap xs pa pb) (pa + 1) (pb + 1) pc
        else part_left cmp xs pa (pb + 1) pc
      else (xs, pa, pb))"
  by pat_completeness auto
termination by (relation "measure (\<lambda>(_, _, _, pb, pc). pc - pb)") auto

function part_right :: "('a \<Rightarrow> 'a \<Rightarrow> int) \<Rightarrow> 'a list \<Rightarrow> nat \<Rightarrow> nat \<Rightarrow> nat \<Rightarrow> 'a list \<times> nat \<times> nat" where
  "part_right cmp xs pb pc pd =
     (if pb < pc \<and> cmp (xs ! (pc - 1)) (xs ! 0) \<ge> 0 then
        if cmp (xs ! (pc - 1)) (xs ! 0) = 0 then part_right cmp (swap xs (pc - 1) (pd - 1)) pb (pc - 1) (pd - 1)
        else part_right cmp xs pb (pc - 1) pd
      else (xs, pc, pd))"
  by pat_completeness auto
termination by (relation "measure (\<lambda>(_, _, pb, pc, _). pc - pb)") auto

declare part_left.simps [simp del] part_right.simps [simp del]

lemma part_left_le: "part_left cmp xs pa pb pc = (xs', pa', pb') \<Longrightarrow> pb \<le> pb'"
proof (induction cmp xs pa pb pc rule: part_left.induct)
  case (1 cmp xs pa pb pc)
  show ?case
  proof (cases "pb < pc \<and> cmp (xs ! pb) (xs ! 0) \<le> 0")
    case True
    then have "pb + 1 \<le> pb'"
      using 1(1) [OF True] 1(2) [OF True] 1(3) part_left.simps [of cmp xs pa pb pc] by (simp split: if_splits)
    then show ?thesis by simp
  next
    case False
    then show ?thesis using 1(3) part_left.simps [of cmp xs pa pb pc] by auto
  qed
qed

lemma part_right_le: "part_right cmp xs pb pc pd = (xs', pc', pd') \<Longrightarrow> pc' \<le> pc"
proof (induction cmp xs pb pc pd rule: part_right.induct)
  case (1 cmp xs pb pc pd)
  show ?case
  proof (cases "pb < pc \<and> cmp (xs ! (pc - 1)) (xs ! 0) \<ge> 0")
    case True
    then have "pc' \<le> pc - 1"
      using 1(1) [OF True] 1(2) [OF True] 1(3) part_right.simps [of cmp xs pb pc pd] by (simp split: if_splits)
    then show ?thesis by simp
  next
    case False
    then show ?thesis using 1(3) part_right.simps [of cmp xs pb pc pd] by auto
  qed
qed

function part_loop :: "('a \<Rightarrow> 'a \<Rightarrow> int) \<Rightarrow> 'a list \<Rightarrow> nat \<Rightarrow> nat \<Rightarrow> nat \<Rightarrow> nat \<Rightarrow> 'a list \<times> nat \<times> nat \<times> nat \<times> nat" where
  "part_loop cmp xs pa pb pc pd =
     (let (xs1, pa1, pb1) = part_left cmp xs pa pb pc;
          (xs2, pc2, pd2) = part_right cmp xs1 pb1 pc pd
      in if \<not> pb1 < pc2 then (xs2, pa1, pb1, pc2, pd2)
         else part_loop cmp (swap xs2 pb1 (pc2 - 1)) pa1 (pb1 + 1) (pc2 - 1) pd2)"
  by pat_completeness auto
termination
proof (relation "measure (\<lambda>(_, _, _, pb, pc, _). pc - pb)")
  fix cmp :: "'a \<Rightarrow> 'a \<Rightarrow> int" and xs :: "'a list" and pa pb pc pd x xs1 y pa1 pb1 x' xs2 y' pc2 pd2
  assume l: "x = part_left cmp xs pa pb pc" "(xs1, y) = x" "(pa1, pb1) = y"
    and r: "x' = part_right cmp xs1 pb1 pc pd" "(xs2, y') = x'" "(pc2, pd2) = y'" and lt: "\<not> \<not> pb1 < pc2"
  have "pb \<le> pb1" using part_left_le [of cmp xs pa pb pc xs1 pa1 pb1] l by simp
  moreover have "pc2 \<le> pc" using part_right_le [of cmp xs1 pb1 pc pd xs2 pc2 pd2] r by simp
  ultimately have "pc2 - 1 - (pb1 + 1) < pc - pb" using lt by linarith
  then show "((cmp, swap xs2 pb1 (pc2 - 1), pa1, pb1 + 1, pc2 - 1, pd2), cmp, xs, pa, pb, pc, pd)
      \<in> measure (\<lambda>(_, _, _, pb, pc, _). pc - pb)" by simp
qed simp

declare part_loop.simps [simp del]

lemma length_swap [simp]: "length (swap xs a b) = length xs"
  by (simp add: swap_def)

lemma length_vecswap [simp]: "length (vecswap xs a b n) = length xs"
  by (induction n arbitrary: xs a b) simp_all

section \<open>Exchanging elements\<close>

lemma nth_swap:
  "a < length xs \<Longrightarrow> b < length xs \<Longrightarrow> swap xs a b ! i = (if i = b then xs ! a else if i = a then xs ! b else xs ! i)"
  by (simp add: swap_def nth_list_update)

lemma mset_swap_eq: "a < length xs \<Longrightarrow> b < length xs \<Longrightarrow> mset (swap xs a b) = mset xs"
  by (cases "a = b") (simp_all add: swap_def mset_swap)

definition vecswap_index :: "nat \<Rightarrow> nat \<Rightarrow> nat \<Rightarrow> nat \<Rightarrow> nat" where
  "vecswap_index a b n i = (if a \<le> i \<and> i < a + n then b + (i - a) else if b \<le> i \<and> i < b + n then a + (i - b) else i)"

lemma vecswap_index_Suc:
  assumes "a + Suc n \<le> b"
  shows "(if vecswap_index (a + 1) (b + 1) n i = b then a else if vecswap_index (a + 1) (b + 1) n i = a then b
      else vecswap_index (a + 1) (b + 1) n i) = vecswap_index a b (Suc n) i"
proof -
  consider "i = a" | "a < i" "i < a + Suc n" | "i = b" | "b < i" "i < b + Suc n"
    | "\<not> (a \<le> i \<and> i < a + Suc n)" "\<not> (b \<le> i \<and> i < b + Suc n)" by linarith
  then show ?thesis
  proof cases
    case 2
    then have "vecswap_index (a + 1) (b + 1) n i = b + (i - a)" by (simp add: vecswap_index_def)
    moreover have "vecswap_index a b (Suc n) i = b + (i - a)" using 2 by (simp add: vecswap_index_def)
    moreover have "b + (i - a) \<noteq> b" "b + (i - a) \<noteq> a" using 2 assms by linarith+
    ultimately show ?thesis by (simp only: if_False)
  next
    case 4
    then have "vecswap_index (a + 1) (b + 1) n i = a + (i - b)" using assms by (simp add: vecswap_index_def)
    moreover have "vecswap_index a b (Suc n) i = a + (i - b)" using 4 assms by (simp add: vecswap_index_def)
    moreover have "a + (i - b) \<noteq> a" "a + (i - b) \<noteq> b" using 4 assms by linarith+
    ultimately show ?thesis by (simp only: if_False)
  next
    case 5
    then have "vecswap_index (a + 1) (b + 1) n i = i" "vecswap_index a b (Suc n) i = i" "i \<noteq> a" "i \<noteq> b"
      by (auto simp: vecswap_index_def)
    then show ?thesis by simp
  qed (use assms in \<open>simp_all add: vecswap_index_def\<close>)
qed

lemma nth_vecswap:
  assumes "a + n \<le> b" and "b + n \<le> length xs"
  shows "vecswap xs a b n ! i = xs ! vecswap_index a b n i"
  using assms
proof (induction n arbitrary: xs a b)
  case (Suc n)
  have ab: "a < length xs" "b < length xs" "a < b" using Suc.prems by simp_all
  let ?k = "vecswap_index (a + 1) (b + 1) n i"
  have "vecswap xs a b (Suc n) ! i = swap xs a b ! ?k"
    using Suc.IH [of "a + 1" "b + 1" "swap xs a b"] Suc.prems by simp
  also have "\<dots> = (if ?k = b then xs ! a else if ?k = a then xs ! b else xs ! ?k)" by (rule nth_swap [OF ab(1,2)])
  also have "\<dots> = xs ! (if ?k = b then a else if ?k = a then b else ?k)" by simp
  also have "(if ?k = b then a else if ?k = a then b else ?k) = vecswap_index a b (Suc n) i"
    by (rule vecswap_index_Suc [OF Suc.prems(1)])
  finally show ?case .
qed (auto simp: vecswap_index_def)

lemma mset_vecswap: "a + n \<le> b \<Longrightarrow> b + n \<le> length xs \<Longrightarrow> mset (vecswap xs a b n) = mset xs"
  by (induction n arbitrary: xs a b) (simp_all add: mset_swap_eq)

section \<open>The partition\<close>

definition part_inv :: "('a \<Rightarrow> 'a \<Rightarrow> int) \<Rightarrow> 'a list \<Rightarrow> nat \<Rightarrow> nat \<Rightarrow> nat \<Rightarrow> nat \<Rightarrow> bool" where
  "part_inv cmp xs pa pb pc pd \<longleftrightarrow>
     1 \<le> pa \<and> pa \<le> pb \<and> pb \<le> pc \<and> pc \<le> pd \<and> pd \<le> length xs
     \<and> (\<forall>i. 1 \<le> i \<and> i < pa \<longrightarrow> cmp (xs ! i) (xs ! 0) = 0)
     \<and> (\<forall>i. pa \<le> i \<and> i < pb \<longrightarrow> cmp (xs ! i) (xs ! 0) < 0)
     \<and> (\<forall>i. pc \<le> i \<and> i < pd \<longrightarrow> cmp (xs ! i) (xs ! 0) > 0)
     \<and> (\<forall>i. pd \<le> i \<and> i < length xs \<longrightarrow> cmp (xs ! i) (xs ! 0) = 0)"

lemma part_invD:
  assumes "part_inv cmp xs pa pb pc pd"
  shows "1 \<le> pa" "pa \<le> pb" "pb \<le> pc" "pc \<le> pd" "pd \<le> length xs"
    and "\<And>i. 1 \<le> i \<Longrightarrow> i < pa \<Longrightarrow> cmp (xs ! i) (xs ! 0) = 0"
    and "\<And>i. pa \<le> i \<Longrightarrow> i < pb \<Longrightarrow> cmp (xs ! i) (xs ! 0) < 0"
    and "\<And>i. pc \<le> i \<Longrightarrow> i < pd \<Longrightarrow> cmp (xs ! i) (xs ! 0) > 0"
    and "\<And>i. pd \<le> i \<Longrightarrow> i < length xs \<Longrightarrow> cmp (xs ! i) (xs ! 0) = 0"
  using assms by (simp_all add: part_inv_def)

lemma part_invI:
  assumes "1 \<le> pa" "pa \<le> pb" "pb \<le> pc" "pc \<le> pd" "pd \<le> length xs"
    and "\<And>i. 1 \<le> i \<Longrightarrow> i < pa \<Longrightarrow> cmp (xs ! i) (xs ! 0) = 0"
    and "\<And>i. pa \<le> i \<Longrightarrow> i < pb \<Longrightarrow> cmp (xs ! i) (xs ! 0) < 0"
    and "\<And>i. pc \<le> i \<Longrightarrow> i < pd \<Longrightarrow> cmp (xs ! i) (xs ! 0) > 0"
    and "\<And>i. pd \<le> i \<Longrightarrow> i < length xs \<Longrightarrow> cmp (xs ! i) (xs ! 0) = 0"
  shows "part_inv cmp xs pa pb pc pd"
  using assms by (simp add: part_inv_def)

lemma part_inv_eq_left:
  assumes inv: "part_inv cmp xs pa pb pc pd" and lt: "pb < pc" and r: "cmp (xs ! pb) (xs ! 0) = 0"
  shows "part_inv cmp (swap xs pa pb) (pa + 1) (pb + 1) pc pd" and "mset (swap xs pa pb) = mset xs"
proof -
  note d = part_invD [OF inv]
  have ab: "pa < length xs" "pb < length xs" using d(2-5) lt by linarith+
  note sw = nth_swap [OF ab, unfolded One_nat_def]
  have h: "swap xs pa pb ! 0 = xs ! 0" using d(1,2) by (simp add: sw)
  show "part_inv cmp (swap xs pa pb) (pa + 1) (pb + 1) pc pd"
  proof (rule part_invI, unfold h length_swap)
    fix i
    show "cmp (swap xs pa pb ! i) (xs ! 0) = 0" if "1 \<le> i" "i < pa + 1"
      using that r d(2,6) by (cases "i = pa") (simp_all add: sw)
    show "cmp (swap xs pa pb ! i) (xs ! 0) < 0" if "pa + 1 \<le> i" "i < pb + 1"
      using that d(7) [of pa] d(7) [of i] by (cases "i = pb") (simp_all add: sw)
    show "cmp (swap xs pa pb ! i) (xs ! 0) > 0" if "pc \<le> i" "i < pd"
      using that d(2,8) lt by (simp add: sw)
    show "cmp (swap xs pa pb ! i) (xs ! 0) = 0" if "pd \<le> i" "i < length xs"
      using that d(2,3,4,9) lt by (simp add: sw)
  qed (use d lt in simp_all)
  show "mset (swap xs pa pb) = mset xs" by (rule mset_swap_eq [OF ab])
qed

lemma part_inv_less_left:
  assumes inv: "part_inv cmp xs pa pb pc pd" and lt: "pb < pc" and r: "cmp (xs ! pb) (xs ! 0) < 0"
  shows "part_inv cmp xs pa (pb + 1) pc pd"
proof -
  note d = part_invD [OF inv]
  show ?thesis
  proof (rule part_invI)
    show "cmp (xs ! i) (xs ! 0) < 0" if "pa \<le> i" "i < pb + 1" for i
      using that d(7) r by (cases "i = pb") simp_all
  qed (use d lt in simp_all)
qed

lemma part_inv_eq_right:
  assumes inv: "part_inv cmp xs pa pb pc pd" and lt: "pb < pc" and r: "cmp (xs ! (pc - 1)) (xs ! 0) = 0"
  shows "part_inv cmp (swap xs (pc - 1) (pd - 1)) pa pb (pc - 1) (pd - 1)" and "mset (swap xs (pc - 1) (pd - 1)) = mset xs"
    and "\<And>i. i < pc - 1 \<Longrightarrow> swap xs (pc - 1) (pd - 1) ! i = xs ! i"
proof -
  note d = part_invD [OF inv]
  have ab: "pc - 1 < length xs" "pd - 1 < length xs" using d(2-5) lt by linarith+
  note sw = nth_swap [OF ab, unfolded One_nat_def]
  have z: "0 < pc - 1" "0 < pd - 1" using d(1-4) lt by linarith+
  then have h: "swap xs (pc - 1) (pd - 1) ! 0 = xs ! 0" by (simp add: sw)
  show "part_inv cmp (swap xs (pc - 1) (pd - 1)) pa pb (pc - 1) (pd - 1)"
  proof (rule part_invI, unfold h length_swap)
    fix i
    have far: "swap xs (pc - 1) (pd - 1) ! i = xs ! i" if "i < pc - 1" using that d(4) by (simp add: sw)
    show "cmp (swap xs (pc - 1) (pd - 1) ! i) (xs ! 0) = 0" if "1 \<le> i" "i < pa" using that far d(2,6) lt by simp
    show "cmp (swap xs (pc - 1) (pd - 1) ! i) (xs ! 0) < 0" if "pa \<le> i" "i < pb" using that far d(7) lt by simp
    show "cmp (swap xs (pc - 1) (pd - 1) ! i) (xs ! 0) > 0" if "pc - 1 \<le> i" "i < pd - 1"
    proof (cases "i = pc - 1")
      case True
      then show ?thesis using that d(8) [of "pd - 1"] by (simp add: sw)
    next
      case False
      then show ?thesis using that d(8) [of i] by (simp add: sw)
    qed
    show "cmp (swap xs (pc - 1) (pd - 1) ! i) (xs ! 0) = 0" if "pd - 1 \<le> i" "i < length xs"
      using that d(4,9) r by (cases "i = pd - 1") (simp_all add: sw)
  qed (use d lt in simp_all)
  show "mset (swap xs (pc - 1) (pd - 1)) = mset xs" by (rule mset_swap_eq [OF ab])
  show "swap xs (pc - 1) (pd - 1) ! i = xs ! i" if "i < pc - 1" for i using that d(4) by (simp add: sw)
qed

lemma part_inv_greater_right:
  assumes inv: "part_inv cmp xs pa pb pc pd" and lt: "pb < pc" and r: "cmp (xs ! (pc - 1)) (xs ! 0) > 0"
  shows "part_inv cmp xs pa pb (pc - 1) pd"
proof -
  note d = part_invD [OF inv]
  show ?thesis
  proof (rule part_invI)
    show "cmp (xs ! i) (xs ! 0) > 0" if "pc - 1 \<le> i" "i < pd" for i
      using that d(8) r by (cases "i = pc - 1") simp_all
  qed (use d lt in simp_all)
qed

lemma part_inv_exchange:
  assumes inv: "part_inv cmp xs pa pb pc pd" and lt: "pb < pc"
    and l: "cmp (xs ! pb) (xs ! 0) > 0" and r: "cmp (xs ! (pc - 1)) (xs ! 0) < 0"
  shows "part_inv cmp (swap xs pb (pc - 1)) pa (pb + 1) (pc - 1) pd" and "mset (swap xs pb (pc - 1)) = mset xs"
proof -
  note d = part_invD [OF inv]
  have ne: "pb < pc - 1" using lt l r by (cases "pb = pc - 1") auto
  have ab: "pb < length xs" "pc - 1 < length xs" using d(2-5) lt by linarith+
  note sw = nth_swap [OF ab, unfolded One_nat_def]
  have "0 < pb" "0 < pc - 1" using d(1,2) ne by linarith+
  then have h: "swap xs pb (pc - 1) ! 0 = xs ! 0" by (simp add: sw)
  show "part_inv cmp (swap xs pb (pc - 1)) pa (pb + 1) (pc - 1) pd"
  proof (rule part_invI, unfold h length_swap)
    fix i
    show "cmp (swap xs pb (pc - 1) ! i) (xs ! 0) = 0" if "1 \<le> i" "i < pa" using that d(2,6) ne by (simp add: sw)
    show "cmp (swap xs pb (pc - 1) ! i) (xs ! 0) < 0" if "pa \<le> i" "i < pb + 1"
      using that d(7) r ne by (cases "i = pb") (simp_all add: sw)
    show "cmp (swap xs pb (pc - 1) ! i) (xs ! 0) > 0" if "pc - 1 \<le> i" "i < pd"
      using that d(8) l ne by (cases "i = pc - 1") (simp_all add: sw)
    show "cmp (swap xs pb (pc - 1) ! i) (xs ! 0) = 0" if "pd \<le> i" "i < length xs"
      using that d(4,9) ne by (simp add: sw)
  qed (use d ne in simp_all)
  show "mset (swap xs pb (pc - 1)) = mset xs" by (rule mset_swap_eq [OF ab])
qed

lemma part_left_spec:
  assumes "part_left cmp xs pa pb pc = (xs', pa', pb')" and "part_inv cmp xs pa pb pc pd"
  shows "part_inv cmp xs' pa' pb' pc pd \<and> mset xs' = mset xs \<and> (pb' < pc \<longrightarrow> cmp (xs' ! pb') (xs' ! 0) > 0)"
  using assms
proof (induction cmp xs pa pb pc rule: part_left.induct)
  case (1 cmp xs pa pb pc)
  show ?case
  proof (cases "pb < pc \<and> cmp (xs ! pb) (xs ! 0) \<le> 0")
    case True
    show ?thesis
    proof (cases "cmp (xs ! pb) (xs ! 0) = 0")
      case eq: True
      then have "part_left cmp (swap xs pa pb) (pa + 1) (pb + 1) pc = (xs', pa', pb')"
        using 1(3) True part_left.simps [of cmp xs pa pb pc] by simp
      from 1(1) [OF True eq this] part_inv_eq_left [OF 1(4) _ eq] True show ?thesis by simp
    next
      case ne: False
      then have "part_left cmp xs pa (pb + 1) pc = (xs', pa', pb')"
        using 1(3) True part_left.simps [of cmp xs pa pb pc] by simp
      from 1(2) [OF True ne this] part_inv_less_left [OF 1(4)] True ne show ?thesis by simp
    qed
  next
    case False
    then have "part_left cmp xs pa pb pc = (xs, pa, pb)" using part_left.simps [of cmp xs pa pb pc] by (simp only: if_False)
    then have "xs' = xs" "pa' = pa" "pb' = pb" using 1(3) by simp_all
    then show ?thesis using 1(4) False by auto
  qed
qed

lemma part_right_spec:
  assumes "part_right cmp xs pb pc pd = (xs', pc', pd')" and "part_inv cmp xs pa pb pc pd"
  shows "part_inv cmp xs' pa pb pc' pd' \<and> mset xs' = mset xs \<and> (pb < pc' \<longrightarrow> cmp (xs' ! (pc' - 1)) (xs' ! 0) < 0)
    \<and> pc' \<le> pc \<and> (\<forall>i<pc'. xs' ! i = xs ! i)"
  using assms
proof (induction cmp xs pb pc pd rule: part_right.induct)
  case (1 cmp xs pb pc pd)
  show ?case
  proof (cases "pb < pc \<and> cmp (xs ! (pc - 1)) (xs ! 0) \<ge> 0")
    case True
    show ?thesis
    proof (cases "cmp (xs ! (pc - 1)) (xs ! 0) = 0")
      case eq: True
      then have rec: "part_right cmp (swap xs (pc - 1) (pd - 1)) pb (pc - 1) (pd - 1) = (xs', pc', pd')"
        using 1(3) True part_right.simps [of cmp xs pb pc pd] by simp
      note st = part_inv_eq_right [OF 1(4) True [THEN conjunct1] eq]
      have "pc' \<le> pc - 1" using 1(1) [OF True eq rec st(1)] by blast
      then show ?thesis using 1(1) [OF True eq rec st(1)] st(2,3) by auto
    next
      case ne: False
      then have rec: "part_right cmp xs pb (pc - 1) pd = (xs', pc', pd')"
        using 1(3) True part_right.simps [of cmp xs pb pc pd] by simp
      from 1(2) [OF True ne rec] part_inv_greater_right [OF 1(4)] True ne show ?thesis by fastforce
    qed
  next
    case False
    then have "part_right cmp xs pb pc pd = (xs, pc, pd)" using part_right.simps [of cmp xs pb pc pd] by (simp only: if_False)
    then have "xs' = xs" "pc' = pc" "pd' = pd" using 1(3) by simp_all
    then show ?thesis using 1(4) False by auto
  qed
qed

lemma part_loop_spec:
  assumes "part_loop cmp xs pa pb pc pd = (xs', pa', pb', pc', pd')" and "part_inv cmp xs pa pb pc pd"
  shows "part_inv cmp xs' pa' pb' pc' pd' \<and> mset xs' = mset xs \<and> pb' = pc'"
  using assms
proof (induction cmp xs pa pb pc pd rule: part_loop.induct)
  case (1 cmp xs pa pb pc pd)
  obtain xs1 pa1 pb1 where l: "part_left cmp xs pa pb pc = (xs1, pa1, pb1)" by (metis prod_cases3)
  obtain xs2 pc2 pd2 where r: "part_right cmp xs1 pb1 pc pd = (xs2, pc2, pd2)" by (metis prod_cases3)
  have ls: "part_inv cmp xs1 pa1 pb1 pc pd" "mset xs1 = mset xs" "pb1 < pc \<Longrightarrow> cmp (xs1 ! pb1) (xs1 ! 0) > 0"
    using part_left_spec [OF l 1(3)] by simp_all
  have rs: "part_inv cmp xs2 pa1 pb1 pc2 pd2" "mset xs2 = mset xs1" "pb1 < pc2 \<Longrightarrow> cmp (xs2 ! (pc2 - 1)) (xs2 ! 0) < 0"
    "pc2 \<le> pc" "\<And>i. i < pc2 \<Longrightarrow> xs2 ! i = xs1 ! i"
    using part_right_spec [OF r ls(1)] by blast+
  have eq: "part_loop cmp xs pa pb pc pd = (if \<not> pb1 < pc2 then (xs2, pa1, pb1, pc2, pd2)
      else part_loop cmp (swap xs2 pb1 (pc2 - 1)) pa1 (pb1 + 1) (pc2 - 1) pd2)"
    by (subst part_loop.simps) (simp add: l r)
  show ?case
  proof (cases "pb1 < pc2")
    case True
    have "cmp (xs2 ! pb1) (xs2 ! 0) > 0" using True ls(3) rs(4,5) by simp
    note ex = part_inv_exchange [OF rs(1) True this rs(3) [OF True]]
    have "part_loop cmp (swap xs2 pb1 (pc2 - 1)) pa1 (pb1 + 1) (pc2 - 1) pd2 = (xs', pa', pb', pc', pd')"
      using eq True 1(2) by simp
    from 1(1) [OF l [symmetric] refl refl r [symmetric] refl refl _ this ex(1)] True ex(2) rs(2) ls(2) show ?thesis by auto
  next
    case False
    then have "pb1 = pc2" using part_invD(3) [OF rs(1)] by simp
    then show ?thesis using eq False 1(2) rs(1,2) ls(2) by auto
  qed
qed

section \<open>Sorting\<close>

text \<open>The array after the partition and the two block exchanges, and the lengths of its two parts.\<close>

definition partition_array :: "('a \<Rightarrow> 'a \<Rightarrow> int) \<Rightarrow> 'a list \<Rightarrow> 'a list \<times> nat \<times> nat" where
  "partition_array cmp xs =
     (let n = length xs;
          (xs, pa, pb, pc, pd) = part_loop cmp (swap xs 0 (choose_pivot cmp xs)) 1 1 n n;
          d1 = min pa (pb - pa);
          xs = vecswap xs 0 (pb - d1) d1;
          d1 = min (pd - pc) (n - pd);
          xs = vecswap xs pb (n - d1) d1
      in (xs, pb - pa, pd - pc))"

lemma med3_cases: "med3 cmp xs a b c \<in> {a, b, c}"
  by (simp add: med3_def)

lemma choose_pivot_less: "7 \<le> length xs \<Longrightarrow> choose_pivot cmp xs < length xs"
proof -
  assume n: "7 \<le> length xs"
  have m: "med3 cmp xs a b c < length xs" if "a < length xs" "b < length xs" "c < length xs" for a b c
    using med3_cases [of cmp xs a b c] that by auto
  show ?thesis unfolding choose_pivot_def Let_def using n by (auto intro!: m)
qed

lemma part_inv_start: "part_inv cmp xs 1 1 (length xs) (length xs)" if "xs \<noteq> []"
  using that by (auto simp: part_inv_def Suc_le_eq)

text \<open>A block of \<open>u\<close> elements followed by one of \<open>v\<close> elements changes places with it, up to the order inside.\<close>

lemma vecswap_index_blocks:
  assumes e: "e = min u v"
  shows "s \<le> i \<Longrightarrow> i < s + v \<Longrightarrow> s + u \<le> vecswap_index s (s + u + v - e) e i \<and> vecswap_index s (s + u + v - e) e i < s + u + v"
    and "s + v \<le> i \<Longrightarrow> i < s + u + v \<Longrightarrow> s \<le> vecswap_index s (s + u + v - e) e i \<and> vecswap_index s (s + u + v - e) e i < s + u"
    and "i < s \<or> s + u + v \<le> i \<Longrightarrow> vecswap_index s (s + u + v - e) e i = i"
proof (atomize (full), cases "u \<le> v")
  case True
  then have "e = u" using e by simp
  then show "(s \<le> i \<longrightarrow> i < s + v \<longrightarrow> s + u \<le> vecswap_index s (s + u + v - e) e i \<and> vecswap_index s (s + u + v - e) e i < s + u + v) \<and>
    (s + v \<le> i \<longrightarrow> i < s + u + v \<longrightarrow> s \<le> vecswap_index s (s + u + v - e) e i \<and> vecswap_index s (s + u + v - e) e i < s + u) \<and>
    (i < s \<or> s + u + v \<le> i \<longrightarrow> vecswap_index s (s + u + v - e) e i = i)"
    using True by (auto simp: vecswap_index_def)
next
  case False
  then have "e = v" using e by simp
  then show "(s \<le> i \<longrightarrow> i < s + v \<longrightarrow> s + u \<le> vecswap_index s (s + u + v - e) e i \<and> vecswap_index s (s + u + v - e) e i < s + u + v) \<and>
    (s + v \<le> i \<longrightarrow> i < s + u + v \<longrightarrow> s \<le> vecswap_index s (s + u + v - e) e i \<and> vecswap_index s (s + u + v - e) e i < s + u) \<and>
    (i < s \<or> s + u + v \<le> i \<longrightarrow> vecswap_index s (s + u + v - e) e i = i)"
    using False by (auto simp: vecswap_index_def)
qed

lemma partition_array_spec:
  assumes n: "7 \<le> length xs" and p: "partition_array cmp xs = (ys, d1, d2)"
  shows "mset ys = mset xs" "d1 + d2 < length xs"
    and "\<exists>q\<in>set xs. (\<forall>i<d1. cmp (ys ! i) q < 0) \<and> (\<forall>i. d1 \<le> i \<and> i < length xs - d2 \<longrightarrow> cmp (ys ! i) q = 0 \<or> ys ! i = q)
      \<and> (\<forall>i. length xs - d2 \<le> i \<and> i < length xs \<longrightarrow> cmp (ys ! i) q > 0)"
proof -
  let ?n = "length xs"
  let ?zs = "swap xs 0 (choose_pivot cmp xs)"
  obtain zs pa pb pc pd where l: "part_loop cmp ?zs 1 1 ?n ?n = (zs, pa, pb, pc, pd)" by (metis prod_cases5)
  have z: "mset ?zs = mset xs" using n choose_pivot_less [OF n, of cmp] by (intro mset_swap_eq) auto
  have inv0: "part_inv cmp ?zs 1 1 ?n ?n" using part_inv_start [of ?zs cmp] n by (simp flip: length_greater_0_conv)
  have inv: "part_inv cmp zs pa pb pc pd" and mz: "mset zs = mset xs" and pbc: "pb = pc"
    using part_loop_spec [OF l inv0] z by auto
  note d = part_invD [OF inv]
  have len: "length zs = ?n" using mz by (metis size_mset)
  define e1 where "e1 = min pa (pb - pa)"
  define e2 where "e2 = min (pd - pc) (?n - pd)"
  let ?ws = "vecswap zs 0 (pb - e1) e1"
  have ys: "ys = vecswap ?ws pb (?n - e2) e2" "d1 = pb - pa" "d2 = pd - pc"
    using p l by (auto simp: partition_array_def Let_def e1_def e2_def)
  have e: "e1 \<le> pa" "e1 \<le> pb - pa" "e2 \<le> pd - pc" "e2 \<le> ?n - pd" unfolding e1_def e2_def by (rule min.cobounded1 min.cobounded2)+
  have v1: "0 + e1 \<le> pb - e1" "pb - e1 + e1 \<le> length zs" using e(1,2) d(2-5) by linarith+
  have v2: "pb + e2 \<le> ?n - e2" "?n - e2 + e2 \<le> length ?ws" using e(3,4) d(2-5) pbc len unfolding length_vecswap by linarith+
  show "mset ys = mset xs" unfolding ys(1) using mset_vecswap [OF v2] mset_vecswap [OF v1] mz by simp
  show "d1 + d2 < ?n" using ys(2,3) d(1-5) pbc len by linarith
  have idx: "ys ! i = zs ! vecswap_index 0 (pb - e1) e1 (vecswap_index pb (?n - e2) e2 i)" for i
    unfolding ys(1) nth_vecswap [OF v2] nth_vecswap [OF v1] by (rule refl)
  let ?q = "zs ! 0"
  have q: "?q \<in> set xs" using mz n len by (metis gr_zeroI nth_mem not_numeral_le_zero set_mset_mset)
  show "\<exists>q\<in>set xs. (\<forall>i<d1. cmp (ys ! i) q < 0) \<and> (\<forall>i. d1 \<le> i \<and> i < length xs - d2 \<longrightarrow> cmp (ys ! i) q = 0 \<or> ys ! i = q)
      \<and> (\<forall>i. length xs - d2 \<le> i \<and> i < length xs \<longrightarrow> cmp (ys ! i) q > 0)"
  proof (rule bexI [OF _ q], intro conjI allI impI)
    define f where "f = vecswap_index 0 (pb - e1) e1"
    define h where "h = vecswap_index pb (?n - e2) e2"
    have s: "pa + (pb - pa) = pb" "pb + (pd - pc) = pd" "pd + (?n - pd) = ?n" using d(2-5) len pbc by linarith+
    note fb = vecswap_index_blocks [where s = 0 and u = pa and v = "pb - pa", OF e1_def, unfolded add_0 s, folded f_def]
    note hb = vecswap_index_blocks [where s = pb and u = "pd - pc" and v = "?n - pd", OF e2_def, unfolded s, folded h_def]
    have f1: "pa \<le> f i \<and> f i < pb" if "i < pb - pa" for i using fb(1) [OF le0 that] .
    have f2: "f i < pa" if "pb - pa \<le> i" "i < pb" for i using fb(2) [OF that] by (rule conjunct2)
    have f3: "f i = i" if "pb \<le> i" for i using fb(3) that by blast
    have h1: "pd \<le> h i \<and> h i < ?n" if "pb \<le> i" "i < pb + (?n - pd)" for i using hb(1) [OF that] .
    have h2: "pb \<le> h i \<and> h i < pd" if "pb + (?n - pd) \<le> i" "i < ?n" for i using hb(2) [OF that] .
    have h3: "h i = i" if "i < pb" for i using hb(3) that by blast
    have y: "ys ! i = zs ! f (h i)" for i unfolding f_def h_def by (rule idx)
    fix i
    show "cmp (ys ! i) ?q < 0" if "i < d1"
    proof -
      have "i < pb - pa" "i < pb" using that ys(2) by linarith+
      then show ?thesis using f1 [of i] h3 [of i] d(7) [of "f i"] unfolding y by simp
    qed
    show "cmp (ys ! i) ?q = 0 \<or> ys ! i = ?q" if i: "d1 \<le> i \<and> i < ?n - d2"
    proof (cases "i < pb")
      case True
      then show ?thesis using f2 [of i] h3 [of i] d(6) [of "f i"] i ys(2) unfolding y by (cases "f i = 0") simp_all
    next
      case False
      then have "pb \<le> i" "i < pb + (?n - pd)" using i ys(3) d(4,5) pbc len by linarith+
      note hi = h1 [OF this]
      have "f (h i) = h i" by (rule f3) (use hi d(4) pbc in linarith)
      then show ?thesis using d(9) [of "h i"] hi unfolding y len by simp
    qed
    show "cmp (ys ! i) ?q > 0" if i: "?n - d2 \<le> i \<and> i < ?n"
    proof -
      have "pb + (?n - pd) \<le> i" "i < ?n" using i ys(3) d(4,5) pbc len by linarith+
      note hi = h2 [OF this]
      have "f (h i) = h i" by (rule f3) (use hi in simp)
      then show ?thesis using d(8) [of "h i"] hi pbc unfolding y by simp
    qed
  qed
qed

text \<open>The part that is sorted by recursion in the source and the part on which it iterates are disjoint
  slices of the array, so the order in which they are sorted does not show in the result.\<close>

function pg_qsort :: "('a \<Rightarrow> 'a \<Rightarrow> int) \<Rightarrow> 'a list \<Rightarrow> 'a list" where
  "pg_qsort cmp xs =
     (if length xs < 7 then insertion_sort cmp xs
      else if presorted cmp xs then xs
      else
        let (ys, d1, d2) = partition_array cmp xs;
            left = take d1 ys;
            right = drop (length ys - d2) ys
        in (if d1 > 1 then pg_qsort cmp left else left)
           @ drop d1 (take (length ys - d2) ys)
           @ (if d2 > 1 then pg_qsort cmp right else right))"
  by pat_completeness auto
termination
proof (relation "measure (\<lambda>(_, xs). length xs)")
  fix cmp :: "'a \<Rightarrow> 'a \<Rightarrow> int" and xs :: "'a list" and x ys y d1 d2 left right
  assume n: "\<not> length xs < 7" and p: "x = partition_array cmp xs" "(ys, y) = x" "(d1, d2) = y"
  have eq: "partition_array cmp xs = (ys, d1, d2)" using p by simp
  have "length ys = length xs" using partition_array_spec(1) [OF _ eq] n by (metis not_less size_mset)
  moreover have "d1 + d2 < length xs" using partition_array_spec(2) [OF _ eq] n by simp
  ultimately have "length (take d1 ys) < length xs" "length (drop (length ys - d2) ys) < length xs" by simp_all
  then show "left = take d1 ys \<Longrightarrow> ((cmp, left), cmp, xs) \<in> measure (\<lambda>(_, xs). length xs)"
    "right = drop (length ys - d2) ys \<Longrightarrow> ((cmp, right), cmp, xs) \<in> measure (\<lambda>(_, xs). length xs)" by simp_all
qed simp

declare pg_qsort.simps [simp del]

lemma mset_insert_down: "p < length xs \<Longrightarrow> mset (insert_down cmp p xs) = mset xs"
  by (induction p arbitrary: xs) (simp_all add: mset_swap_eq)

lemma mset_insertion_sort: "mset (insertion_sort cmp xs) = mset xs"
proof -
  have "mset (foldl (\<lambda>xs pm. insert_down cmp pm xs) xs [1..<m]) = mset xs" if "m \<le> length xs" for m
    using that
  proof (induction m)
    case (Suc m)
    let ?ys = "foldl (\<lambda>xs pm. insert_down cmp pm xs) xs [1..<m]"
    have "mset ?ys = mset xs" using Suc by simp
    moreover from this have "m < length ?ys" using Suc.prems by (metis Suc_le_lessD size_mset)
    ultimately show ?case by (cases "1 \<le> m") (simp_all add: mset_insert_down del: upt_Suc add: upt_Suc_append)
  qed simp
  then show ?thesis by (simp add: insertion_sort_def)
qed

lemma mset_slices:
  assumes "mset ys = mset xs" and "d1 + d2 < length xs"
  shows "mset (take d1 ys) + mset (drop d1 (take (length ys - d2) ys)) + mset (drop (length ys - d2) ys) = mset xs"
proof -
  have "length ys = length xs" using assms(1) by (metis size_mset)
  then have "take d1 (take (length ys - d2) ys) = take d1 ys" using assms(2) by (simp add: min_absorb1)
  then have "ys = take d1 ys @ drop d1 (take (length ys - d2) ys) @ drop (length ys - d2) ys"
    by (metis append.assoc append_take_drop_id)
  then have "mset ys = mset (take d1 ys @ drop d1 (take (length ys - d2) ys) @ drop (length ys - d2) ys)" by simp
  then show ?thesis using assms(1) by (simp only: mset_append add.assoc)
qed

lemma pg_qsort_split:
  assumes "\<not> length xs < 7" and "\<not> presorted cmp xs" and "partition_array cmp xs = (ys, d1, d2)"
  shows "pg_qsort cmp xs = (if d1 > 1 then pg_qsort cmp (take d1 ys) else take d1 ys)
    @ drop d1 (take (length ys - d2) ys)
    @ (if d2 > 1 then pg_qsort cmp (drop (length ys - d2) ys) else drop (length ys - d2) ys)"
  by (subst pg_qsort.simps) (simp add: assms Let_def)

lemma mset_pg_qsort: "mset (pg_qsort cmp xs) = mset xs"
proof (induction cmp xs rule: pg_qsort.induct)
  case (1 cmp xs)
  show ?case
  proof (cases "length xs < 7 \<or> presorted cmp xs")
    case True
    then show ?thesis by (subst pg_qsort.simps) (auto simp: mset_insertion_sort)
  next
    case False
    obtain ys d1 d2 where p: "partition_array cmp xs = (ys, d1, d2)" by (metis prod_cases3)
    have n: "\<not> length xs < 7" "\<not> presorted cmp xs" using False by simp_all
    note ih = 1 [OF n p [symmetric] refl refl refl refl]
    have l: "mset (if d1 > 1 then pg_qsort cmp (take d1 ys) else take d1 ys) = mset (take d1 ys)" using ih(1) by simp
    have r: "mset (if d2 > 1 then pg_qsort cmp (drop (length ys - d2) ys) else drop (length ys - d2) ys) = mset (drop (length ys - d2) ys)"
      using ih(2) by simp
    have "mset (pg_qsort cmp xs) = mset (take d1 ys) + mset (drop d1 (take (length ys - d2) ys)) + mset (drop (length ys - d2) ys)"
      unfolding pg_qsort_split [OF n p] mset_append l r by (simp only: add.assoc)
    also have "\<dots> = mset xs" using partition_array_spec(1,2) [OF _ p] n(1) by (intro mset_slices) simp_all
    finally show ?thesis .
  qed
qed

lemma set_pg_qsort [simp]: "set (pg_qsort cmp xs) = set xs"
  using mset_pg_qsort [of cmp xs] by (metis set_mset_mset)

lemma pg_qsort_Nil_iff [simp]: "pg_qsort cmp xs = [] \<longleftrightarrow> xs = []"
  using set_pg_qsort [of cmp xs] by (metis set_empty)

section \<open>Order\<close>

definition sorted_upto :: "('a \<Rightarrow> 'a \<Rightarrow> int) \<Rightarrow> 'a list \<Rightarrow> nat \<Rightarrow> bool" where
  "sorted_upto cmp xs m \<longleftrightarrow> (\<forall>i j. i < j \<and> j < m \<longrightarrow> cmp (xs ! i) (xs ! j) \<le> 0)"

text \<open>What a comparison function has to satisfy on the elements of the array.\<close>

locale qsort_order =
  fixes cmp :: "'a \<Rightarrow> 'a \<Rightarrow> int" and S :: "'a set"
  assumes anti: "x \<in> S \<Longrightarrow> y \<in> S \<Longrightarrow> cmp x y < 0 \<longleftrightarrow> 0 < cmp y x"
    and trans: "x \<in> S \<Longrightarrow> y \<in> S \<Longrightarrow> z \<in> S \<Longrightarrow> cmp x y \<le> 0 \<Longrightarrow> cmp y z \<le> 0 \<Longrightarrow> cmp x z \<le> 0"
begin

lemma insert_down_sorted:
  assumes "p \<le> m" "m < length xs" "set xs \<subseteq> S"
    and "\<And>i j. i < j \<Longrightarrow> j \<le> m \<Longrightarrow> i \<noteq> p \<Longrightarrow> j \<noteq> p \<Longrightarrow> cmp (xs ! i) (xs ! j) \<le> 0"
    and "\<And>j. p < j \<Longrightarrow> j \<le> m \<Longrightarrow> cmp (xs ! p) (xs ! j) \<le> 0"
  shows "sorted_upto cmp (insert_down cmp p xs) (Suc m)"
  using assms
proof (induction p arbitrary: xs)
  case 0
  have "cmp (xs ! i) (xs ! j) \<le> 0" if "i < j" "j \<le> m" for i j
    using 0(4) [of i j] 0(5) [of j] that by (cases "i = 0") auto
  then show ?case by (simp add: sorted_upto_def)
next
  case (Suc q)
  have S: "xs ! i \<in> S" if "i \<le> m" for i using Suc.prems(2,3) that by auto
  have ab: "Suc q < length xs" "q < length xs" using Suc.prems(1,2) by simp_all
  note sw = nth_swap [OF ab]
  show ?case
  proof (cases "cmp (xs ! q) (xs ! Suc q) > 0")
    case True
    let ?zs = "swap xs (Suc q) q"
    have "sorted_upto cmp (insert_down cmp q ?zs) (Suc m)"
    proof (rule Suc.IH)
      show "q \<le> m" "m < length ?zs" using Suc.prems(1,2) by simp_all
      show "set ?zs \<subseteq> S" using mset_swap_eq [OF ab] Suc.prems(3) by (metis set_mset_mset)
      show "cmp (?zs ! i) (?zs ! j) \<le> 0" if ij: "i < j" "j \<le> m" "i \<noteq> q" "j \<noteq> q" for i j
      proof -
        consider "i = Suc q" | "j = Suc q" "i < q" | "i \<noteq> Suc q" "j \<noteq> Suc q" using ij by linarith
        then show ?thesis
          by cases (use ij Suc.prems(4) [of q j] Suc.prems(4) [of i q] Suc.prems(4) [of i j] in \<open>simp_all add: sw\<close>)
      qed
      show "cmp (?zs ! q) (?zs ! j) \<le> 0" if "q < j" "j \<le> m" for j
        using that Suc.prems(5) [of j] True anti [of "xs ! Suc q" "xs ! q"] S [of q] S [of "Suc q"] Suc.prems(1)
        by (cases "j = Suc q") (simp_all add: sw)
    qed
    then show ?thesis using True by simp
  next
    case False
    have "cmp (xs ! i) (xs ! j) \<le> 0" if ij: "i < j" "j \<le> m" for i j
    proof -
      consider "i = Suc q" | "j = Suc q" "i = q" | "j = Suc q" "i < q" | "i \<noteq> Suc q" "j \<noteq> Suc q" using ij by linarith
      then show ?thesis
      proof cases
        case 3
        then show ?thesis
          using Suc.prems(4) [of i q] False ij by (intro trans [of "xs ! i" "xs ! q" "xs ! j"] S) simp_all
      qed (use ij False Suc.prems(4) [of i j] Suc.prems(5) [of j] in simp_all)
    qed
    then show ?thesis using False by (simp add: sorted_upto_def)
  qed
qed

lemma insertion_sort_sorted:
  assumes "set xs \<subseteq> S"
  shows "sorted_upto cmp (insertion_sort cmp xs) (length xs)"
proof -
  let ?f = "\<lambda>m. foldl (\<lambda>xs pm. insert_down cmp pm xs) xs [1..<m]"
  have "mset (?f m) = mset xs \<and> sorted_upto cmp (?f m) m" if "m \<le> length xs" for m
    using that
  proof (induction m)
    case (Suc m)
    then have ih: "mset (?f m) = mset xs" "sorted_upto cmp (?f m) m" by simp_all
    show ?case
    proof (cases "1 \<le> m")
      case True
      have len: "length (?f m) = length xs" using ih(1) by (metis size_mset)
      have f: "?f (Suc m) = insert_down cmp m (?f m)" using True by (simp del: upt_Suc add: upt_Suc_append)
      have "sorted_upto cmp (insert_down cmp m (?f m)) (Suc m)"
      proof (rule insert_down_sorted)
        show "m < length (?f m)" using Suc.prems len by simp
        show "set (?f m) \<subseteq> S" using ih(1) assms by (metis set_mset_mset)
        show "cmp (?f m ! i) (?f m ! j) \<le> 0" if "i < j" "j \<le> m" "i \<noteq> m" "j \<noteq> m" for i j
          using that ih(2) by (simp add: sorted_upto_def)
      qed simp_all
      moreover have "mset (insert_down cmp m (?f m)) = mset xs" using mset_insert_down [of m "?f m" cmp] ih(1) len Suc.prems by simp
      ultimately show ?thesis by (simp only: f simp_thms)
    next
      case False
      then show ?thesis by (simp add: sorted_upto_def)
    qed
  qed (simp add: sorted_upto_def)
  from this [of "length xs"] show ?thesis by (simp add: insertion_sort_def)
qed

lemma presorted_sorted:
  "set xs \<subseteq> S \<Longrightarrow> presorted cmp xs \<Longrightarrow> sorted_wrt (\<lambda>x y. cmp x y \<le> 0) xs"
proof (induction xs)
  case (Cons x xs)
  show ?case
  proof (cases xs)
    case Nil
    then show ?thesis by simp
  next
    case (Cons y zs)
    then have s: "sorted_wrt (\<lambda>x y. cmp x y \<le> 0) (y # zs)" and xy: "cmp x y \<le> 0" and in_S: "x \<in> S" "y \<in> S" "set zs \<subseteq> S"
      using Cons.IH Cons.prems by auto
    have "cmp x z \<le> 0" if "z \<in> set zs" for z
      by (rule trans [of x y z]) (use that s xy in_S in auto)
    then show ?thesis using s xy Cons by simp
  qed
qed simp

lemma pg_qsort_sorted:
  "set xs \<subseteq> S \<Longrightarrow> sorted_wrt (\<lambda>x y. cmp x y \<le> 0) (pg_qsort cmp xs)"
proof (induction "length xs" arbitrary: xs rule: less_induct)
  case less
  show ?case
  proof (cases "length xs < 7")
    case True
    have "length (insertion_sort cmp xs) = length xs" using mset_insertion_sort by (metis size_mset)
    then show ?thesis
      using insertion_sort_sorted [OF less.prems] True
      by (subst pg_qsort.simps) (simp add: sorted_upto_def sorted_wrt_iff_nth_less)
  next
    case n: False
    show ?thesis
    proof (cases "presorted cmp xs")
      case True
      then show ?thesis using presorted_sorted [OF less.prems] n by (subst pg_qsort.simps) simp
    next
      case False
      obtain ys d1 d2 where p: "partition_array cmp xs = (ys, d1, d2)" by (metis prod_cases3)
      have n7: "7 \<le> length xs" using n by simp
      note sp = partition_array_spec [OF n7 p]
      have len: "length ys = length xs" using sp(1) by (metis size_mset)
      have ys: "set ys \<subseteq> S" using sp(1) less.prems by (metis set_mset_mset)
      obtain q where q: "q \<in> S" "\<And>i. i < d1 \<Longrightarrow> cmp (ys ! i) q < 0"
        "\<And>i. d1 \<le> i \<Longrightarrow> i < length xs - d2 \<Longrightarrow> cmp (ys ! i) q = 0 \<or> ys ! i = q"
        "\<And>i. length xs - d2 \<le> i \<Longrightarrow> i < length xs \<Longrightarrow> cmp (ys ! i) q > 0"
        using sp(3) less.prems by blast
      let ?l = "take d1 ys" and ?m = "drop d1 (take (length ys - d2) ys)" and ?r = "drop (length ys - d2) ys"
      let ?L = "if d1 > 1 then pg_qsort cmp ?l else ?l" and ?R = "if d2 > 1 then pg_qsort cmp ?r else ?r"
      have sub: "set ?l \<subseteq> S" "set ?m \<subseteq> S" "set ?r \<subseteq> S" 
        using ys set_take_subset set_drop_subset by (blast dest: in_set_takeD in_set_dropD)+
      have L: "set ?L = set ?l" "set ?R = set ?r" by (simp_all only: set_pg_qsort split: if_split) simp_all
      have refl: "cmp q q = 0" using anti [OF q(1) q(1)] by linarith
      have l: "cmp x q < 0" if "x \<in> set ?l" for x using that q(2) by (auto simp: in_set_conv_nth)
      have r: "cmp x q > 0" if "x \<in> set ?r" for x
        using that q(4) sp(2) len by (auto simp: in_set_conv_nth)
      have m: "cmp x q = 0" if x: "x \<in> set ?m" for x
      proof -
        obtain i where "i < length ?m" "x = ?m ! i" using x unfolding in_set_conv_nth by blast
        then have "x = ys ! (d1 + i)" "d1 + i < length xs - d2" using len by simp_all
        then show ?thesis using q(3) [of "d1 + i"] refl by auto
      qed
      have le: "cmp x y \<le> 0" if "x \<in> S" "y \<in> S" "cmp x q \<le> 0" "cmp y q \<ge> 0" for x y
      proof (rule trans [of x q y])
        show "cmp q y \<le> 0" using anti [of y q] anti [of q y] that(2,4) q(1) by linarith
      qed (use that q(1) in simp_all)
      have short: "sorted_wrt (\<lambda>x y. cmp x y \<le> 0) zs" if "length zs \<le> 1" for zs
        using that by (cases zs) auto
      have lens: "length ?l < length xs" "length ?r < length xs" "\<not> d1 > 1 \<Longrightarrow> length ?l \<le> 1" "\<not> d2 > 1 \<Longrightarrow> length ?r \<le> 1"
        using sp(2) len by auto
      have A: "sorted_wrt (\<lambda>x y. cmp x y \<le> 0) ?L"
        using less.hyps [OF lens(1) sub(1)] short [OF lens(3)] by (cases "d1 > 1") simp_all
      have B: "sorted_wrt (\<lambda>x y. cmp x y \<le> 0) ?R"
        using less.hyps [OF lens(2) sub(3)] short [OF lens(4)] by (cases "d2 > 1") simp_all
      have C: "sorted_wrt (\<lambda>x y. cmp x y \<le> 0) ?m"
        unfolding sorted_wrt_iff_nth_less
      proof (intro allI impI)
        fix i j assume ij: "i < j" "j < length ?m"
        have mi: "?m ! i \<in> set ?m" by (rule nth_mem [OF order.strict_trans [OF ij]])
        have mj: "?m ! j \<in> set ?m" by (rule nth_mem [OF ij(2)])
        show "cmp (?m ! i) (?m ! j) \<le> 0"
          by (rule le [OF subsetD [OF sub(2) mi] subsetD [OF sub(2) mj]]) (simp_all only: m [OF mi] m [OF mj] order.refl)
      qed
      have cross: "cmp x y \<le> 0" if xy: "x \<in> set ?L \<and> y \<in> set (?m @ ?R) \<or> x \<in> set ?m \<and> y \<in> set ?R" for x y
      proof (rule le)
        show "x \<in> S" "y \<in> S" using xy sub unfolding set_append L by blast+
        show "cmp x q \<le> 0" using xy l [of x] m [of x] unfolding L by linarith
        show "0 \<le> cmp y q" using xy m [of y] r [of y] unfolding set_append L Un_iff by linarith
      qed
      have "\<forall>x\<in>set ?L. \<forall>y\<in>set (?m @ ?R). cmp x y \<le> 0" "\<forall>x\<in>set ?m. \<forall>y\<in>set ?R. cmp x y \<le> 0"
        using cross by blast+
      with A B C have "sorted_wrt (\<lambda>x y. cmp x y \<le> 0) (?L @ ?m @ ?R)" by (simp only: sorted_wrt_append simp_thms)
      then show ?thesis by (simp only: pg_qsort_split [OF n False p])
    qed
  qed
qed

end

section \<open>Properties\<close>

text \<open>
  C16. The server's sort routine is correct: for every comparison function that is a total preorder on
  the elements of the array, it terminates and leaves the same elements with their multiplicities, in an
  order in which no element compares greater than a later one. This covers the insertion sort for
  short arrays, the test for presorted input, the choice of the pivot, the three-way partition with
  its block exchanges and the recursion.
\<close>

theorem pg_qsort_correct:
  assumes "\<And>x y. x \<in> set xs \<Longrightarrow> y \<in> set xs \<Longrightarrow> cmp x y < 0 \<longleftrightarrow> 0 < cmp y x"
    and "\<And>x y z. x \<in> set xs \<Longrightarrow> y \<in> set xs \<Longrightarrow> z \<in> set xs \<Longrightarrow> cmp x y \<le> 0 \<Longrightarrow> cmp y z \<le> 0 \<Longrightarrow> cmp x z \<le> 0"
  shows "mset (pg_qsort cmp xs) = mset xs \<and> sorted_wrt (\<lambda>x y. cmp x y \<le> 0) (pg_qsort cmp xs)"
proof -
  have "qsort_order cmp (set xs)" by unfold_locales (fact assms)+
  then show ?thesis using qsort_order.pg_qsort_sorted [of cmp "set xs" xs] mset_pg_qsort [of cmp xs] by simp
qed

theorem pg_qsort_correct_witness:
  "mset (pg_qsort (\<lambda>x y :: int. if x < y then 1 else if x > y then -1 else 0) [3, 9, 1, 4, 1, 5, 9, 2, 6]) = mset [3, 9, 1, 4, 1, 5, 9, 2, 6]
    \<and> sorted_wrt (\<lambda>x y. (\<lambda>x y :: int. if x < y then 1 else if x > y then -1 else (0 :: int)) x y \<le> 0)
        (pg_qsort (\<lambda>x y. if x < y then 1 else if x > y then -1 else 0) [3, 9, 1, 4, 1, 5, 9, 2, 6])"
  by (rule pg_qsort_correct) (simp_all split: if_splits)

end
