(* ===== verification/Snapshot.thy ===== *)
theory Snapshot
  imports Tuple Qsort "HOL-Library.Multiset"
begin

text \<open>
  Transaction ids and snapshots: the circular order of \<^verbatim>\<open>access/transam/transam.c\<close>, the snapshot
  that the index prepares for sampling (\<^verbatim>\<open>_abt_prepare_snapshot_for_sampling\<close>) and the visibility
  test \<^verbatim>\<open>_abt_xid_in_snapshot\<close> of \<^verbatim>\<open>abtversionstore.c\<close>, which is compared with
  \<^verbatim>\<open>XidInMVCCSnapshot\<close> of \<^verbatim>\<open>utils/time/snapmgr.c\<close>.
\<close>

section \<open>Transaction ids\<close>

definition InvalidTransactionId :: TransactionId where "InvalidTransactionId = 0"
definition FirstNormalTransactionId :: TransactionId where "FirstNormalTransactionId = 3"

definition TransactionIdIsValid :: "TransactionId \<Rightarrow> bool" where
  "TransactionIdIsValid xid = (xid \<noteq> InvalidTransactionId)"

definition TransactionIdIsNormal :: "TransactionId \<Rightarrow> bool" where
  "TransactionIdIsNormal xid = (xid \<ge> FirstNormalTransactionId)"

definition NormalTransactionIdPrecedes :: "TransactionId \<Rightarrow> TransactionId \<Rightarrow> bool" where
  "NormalTransactionIdPrecedes id1 id2 = (sint (id1 - id2) < 0)"

definition TransactionIdPrecedes :: "TransactionId \<Rightarrow> TransactionId \<Rightarrow> bool" where
  "TransactionIdPrecedes id1 id2 =
     (if \<not> TransactionIdIsNormal id1 \<or> \<not> TransactionIdIsNormal id2 then id1 < id2
      else sint (id1 - id2) < 0)"

definition TransactionIdFollowsOrEquals :: "TransactionId \<Rightarrow> TransactionId \<Rightarrow> bool" where
  "TransactionIdFollowsOrEquals id1 id2 =
     (if \<not> TransactionIdIsNormal id1 \<or> \<not> TransactionIdIsNormal id2 then id1 \<ge> id2
      else sint (id1 - id2) \<ge> 0)"

section \<open>Snapshots\<close>

text \<open>The kinds of snapshot of \<^verbatim>\<open>utils/snapshot.h\<close>.\<close>

datatype SnapshotType = SNAPSHOT_MVCC | SNAPSHOT_SELF | SNAPSHOT_ANY | SNAPSHOT_TOAST
  | SNAPSHOT_DIRTY | SNAPSHOT_HISTORIC_MVCC | SNAPSHOT_NON_VACUUMABLE

record SnapshotData =
  snapshot_type :: SnapshotType
  snap_xmin :: TransactionId
  snap_xmax :: TransactionId
  snap_xip :: "TransactionId list"
  snap_subxip :: "TransactionId list"
  suboverflowed :: bool
  takenDuringRecovery :: bool

record ABTSnapshotData =
  s_xmin :: TransactionId
  s_xmax :: TransactionId
  s_xip :: "TransactionId list"

definition abt_compare_xid :: "TransactionId \<Rightarrow> TransactionId \<Rightarrow> int" where
  "abt_compare_xid xid_a xid_b =
     (if NormalTransactionIdPrecedes xid_a xid_b then 1
      else if NormalTransactionIdPrecedes xid_b xid_a then -1
      else 0)"

text \<open>\<^verbatim>\<open>bsearch\<close> of the C library for a comparison function.\<close>

function bsearch_loop :: "('a \<Rightarrow> 'a \<Rightarrow> int) \<Rightarrow> 'a \<Rightarrow> 'a list \<Rightarrow> nat \<Rightarrow> nat \<Rightarrow> bool" where
  "bsearch_loop cmp k xs lo hi =
     (if hi \<le> lo then False
      else let mid = lo + (hi - lo) div 2; c = cmp k (xs ! mid)
           in if c = 0 then True
              else if c < 0 then bsearch_loop cmp k xs lo mid
              else bsearch_loop cmp k xs (mid + 1) hi)"
  by pat_completeness auto
termination by (relation "measure (\<lambda>(_, _, _, lo, hi). hi - lo)") auto

declare bsearch_loop.simps [simp del]

definition bsearch :: "('a \<Rightarrow> 'a \<Rightarrow> int) \<Rightarrow> 'a \<Rightarrow> 'a list \<Rightarrow> bool" where
  "bsearch cmp k xs = bsearch_loop cmp k xs 0 (length xs)"

definition abt_prepare_snapshot_for_sampling :: "SnapshotData option \<Rightarrow> ABTSnapshotData option" where
  "abt_prepare_snapshot_for_sampling snapshot =
     (case snapshot of
        None \<Rightarrow> None
      | Some s \<Rightarrow>
          if snapshot_type s \<noteq> SNAPSHOT_MVCC then None
          else
            let xip0 = (if \<not> takenDuringRecovery s then snap_xip s else snap_subxip s);
                xip = pg_qsort abt_compare_xid xip0;
                xmin = (if xip \<noteq> [] then xip ! (length xip - 1) else snap_xmax s)
            in Some \<lparr>s_xmin = xmin, s_xmax = snap_xmax s, s_xip = xip\<rparr>)"

definition abt_xid_in_snapshot :: "TransactionId \<Rightarrow> ABTSnapshotData option \<Rightarrow> bool" where
  "abt_xid_in_snapshot xid snapshot =
     (case snapshot of
        None \<Rightarrow> False
      | Some s \<Rightarrow>
          if \<not> TransactionIdIsValid xid then True
          else if \<not> TransactionIdPrecedes xid (s_xmax s) then True
          else if TransactionIdPrecedes xid (s_xmin s) then False
          else bsearch abt_compare_xid xid (s_xip s))"

text \<open>The visibility test of the server. \<open>SubTransGetTopmostTransaction\<close> reads the subtransaction log.\<close>

definition XidInMVCCSnapshot ::
  "(TransactionId \<Rightarrow> TransactionId) \<Rightarrow> TransactionId \<Rightarrow> SnapshotData \<Rightarrow> bool" where
  "XidInMVCCSnapshot SubTransGetTopmostTransaction xid s =
     (if TransactionIdPrecedes xid (snap_xmin s) then False
      else if TransactionIdFollowsOrEquals xid (snap_xmax s) then True
      else if \<not> takenDuringRecovery s then
        if \<not> suboverflowed s then xid \<in> set (snap_subxip s) \<or> xid \<in> set (snap_xip s)
        else
          let top = SubTransGetTopmostTransaction xid
          in if TransactionIdPrecedes top (snap_xmin s) then False else top \<in> set (snap_xip s)
      else
        if suboverflowed s then
          let top = SubTransGetTopmostTransaction xid
          in if TransactionIdPrecedes top (snap_xmin s) then False else top \<in> set (snap_subxip s)
        else xid \<in> set (snap_subxip s))"

section \<open>The circular order within a window\<close>

text \<open>All ids that are alive at a time lie within half of the 32-bit circle.\<close>

definition xid_rank :: "TransactionId \<Rightarrow> TransactionId \<Rightarrow> nat" where
  "xid_rank b x = unat (x - b)"

definition in_window :: "TransactionId \<Rightarrow> TransactionId \<Rightarrow> bool" where
  "in_window b x = (TransactionIdIsNormal x \<and> xid_rank b x < 2 ^ 31)"

lemma xid_rank_inj: "xid_rank b x = xid_rank b y \<longleftrightarrow> x = y"
  using word_unat_eq_iff [of "x - b" "y - b"] by (auto simp: xid_rank_def)

lemma sint_word_of_int32: "sint (word_of_int k :: 32 word) = signed_take_bit 31 k"
  by transfer simp

lemma sint_diff_rank:
  assumes "xid_rank b x < 2 ^ 31" and "xid_rank b y < 2 ^ 31"
  shows "sint (x - y) = int (xid_rank b x) - int (xid_rank b y)"
proof -
  have "x - y = word_of_int (int (xid_rank b x) - int (xid_rank b y))"
    by (simp add: xid_rank_def)
  then have "sint (x - y) = signed_take_bit 31 (int (xid_rank b x) - int (xid_rank b y))"
    by (simp only: sint_word_of_int32)
  also have "\<dots> = int (xid_rank b x) - int (xid_rank b y)"
    using assms by (intro signed_take_bit_int_eq_self) simp_all
  finally show ?thesis .
qed

lemma normal_precedes_rank:
  "in_window b x \<Longrightarrow> in_window b y \<Longrightarrow> NormalTransactionIdPrecedes x y \<longleftrightarrow> xid_rank b x < xid_rank b y"
  using sint_diff_rank [of b x y] by (simp add: NormalTransactionIdPrecedes_def in_window_def)

lemma precedes_normal:
  "TransactionIdIsNormal x \<Longrightarrow> TransactionIdIsNormal y
     \<Longrightarrow> TransactionIdPrecedes x y = NormalTransactionIdPrecedes x y"
  by (simp add: TransactionIdPrecedes_def NormalTransactionIdPrecedes_def)

lemma in_window_normal: "in_window b x \<Longrightarrow> TransactionIdIsNormal x"
  by (simp add: in_window_def)

lemma precedes_rank:
  "in_window b x \<Longrightarrow> in_window b y \<Longrightarrow> TransactionIdPrecedes x y \<longleftrightarrow> xid_rank b x < xid_rank b y"
  by (simp add: precedes_normal in_window_normal normal_precedes_rank)

lemma precedes_permanent: "\<not> TransactionIdIsNormal x \<Longrightarrow> TransactionIdIsNormal y \<Longrightarrow> TransactionIdPrecedes x y"
  by (simp add: TransactionIdPrecedes_def TransactionIdIsNormal_def not_le)

lemma follows_or_equals_precedes: "TransactionIdFollowsOrEquals x y \<longleftrightarrow> \<not> TransactionIdPrecedes x y"
  by (auto simp: TransactionIdFollowsOrEquals_def TransactionIdPrecedes_def)

lemma compare_xid_rank:
  assumes "in_window b x" and "in_window b y"
  shows "abt_compare_xid x y = 0 \<longleftrightarrow> x = y" "abt_compare_xid x y < 0 \<longleftrightarrow> xid_rank b y < xid_rank b x"
    "abt_compare_xid x y > 0 \<longleftrightarrow> xid_rank b x < xid_rank b y"
    "abt_compare_xid x y \<le> 0 \<longleftrightarrow> xid_rank b y \<le> xid_rank b x"
  using normal_precedes_rank [OF assms] normal_precedes_rank [OF assms(2,1)] xid_rank_inj [of b x y]
  by (auto simp: abt_compare_xid_def)

section \<open>Sorting and searching\<close>

definition xids_descending :: "TransactionId \<Rightarrow> TransactionId list \<Rightarrow> bool" where
  "xids_descending b xs = (sorted_wrt (\<ge>) (map (xid_rank b) xs) \<and> (\<forall>x\<in>set xs. in_window b x))"

interpretation xid_qsort: qsort_order abt_compare_xid "{x. in_window b x}" for b
  by unfold_locales (auto simp: compare_xid_rank [of b])

lemma qsort_descending: "(\<forall>x\<in>set xs. in_window b x) \<Longrightarrow> xids_descending b (pg_qsort abt_compare_xid xs)"
proof -
  assume win: "\<forall>x\<in>set xs. in_window b x"
  then have w: "\<forall>x\<in>set (pg_qsort abt_compare_xid xs). in_window b x" by (simp add: set_pg_qsort)
  have "sorted_wrt (\<lambda>x y. abt_compare_xid x y \<le> 0) (pg_qsort abt_compare_xid xs)"
    using xid_qsort.pg_qsort_sorted [of xs b] win by blast
  then have "sorted_wrt (\<lambda>x y. xid_rank b y \<le> xid_rank b x) (pg_qsort abt_compare_xid xs)"
    by (rule sorted_wrt_mono_rel [rotated]) (use w compare_xid_rank(4) [of b] in blast)
  then show ?thesis using w by (simp add: xids_descending_def sorted_wrt_map)
qed


lemma bsearch_loop_descending:
  assumes "xids_descending b xs" and "in_window b x" and "hi \<le> length xs"
  shows "bsearch_loop abt_compare_xid x xs lo hi \<longleftrightarrow> (\<exists>i. lo \<le> i \<and> i < hi \<and> xs ! i = x)"
  using assms
proof (induction abt_compare_xid x xs lo hi rule: bsearch_loop.induct)
  case (1 k xs lo hi)
  show ?case
  proof (cases "hi \<le> lo")
    case True
    then show ?thesis by (simp add: bsearch_loop.simps)
  next
    case False
    define mid where "mid = lo + (hi - lo) div 2"
    have mid: "lo \<le> mid" "mid < hi" using False by (auto simp: mid_def)
    have w: "in_window b (xs ! mid)" using 1(3,5) mid by (simp add: xids_descending_def)
    have srt: "xid_rank b (xs ! j) \<le> xid_rank b (xs ! i)" if "i \<le> j" "j < length xs" for i j
    proof (cases "i = j")
      case False
      then show ?thesis using 1(3) that sorted_wrt_nth_less [of "(\<ge>)" "map (xid_rank b) xs" i j]
        by (simp add: xids_descending_def)
    qed simp
    note c = compare_xid_rank [OF 1(4) w]
    have eq: "bsearch_loop abt_compare_xid k xs lo hi =
        (if abt_compare_xid k (xs ! mid) = 0 then True
         else if abt_compare_xid k (xs ! mid) < 0 then bsearch_loop abt_compare_xid k xs lo mid
         else bsearch_loop abt_compare_xid k xs (mid + 1) hi)"
      using False by (subst bsearch_loop.simps) (simp add: mid_def Let_def)
    consider (eq) "k = xs ! mid" | (lt) "xid_rank b (xs ! mid) < xid_rank b k" | (gt) "xid_rank b k < xid_rank b (xs ! mid)"
      using xid_rank_inj [of b k "xs ! mid"] by linarith
    then show ?thesis
    proof cases
      case eq
      then show ?thesis using mid \<open>bsearch_loop _ _ _ lo hi = _\<close> c(1) by auto
    next
      case lt
      have "bsearch_loop abt_compare_xid k xs lo mid \<longleftrightarrow> (\<exists>i. lo \<le> i \<and> i < mid \<and> xs ! i = k)"
        using False lt c mid 1(3,4,5) by (intro 1(1)) (auto simp: mid_def)
      moreover have "i < mid" if "i < hi" "xs ! i = k" for i
        using srt [of mid i] lt that 1(5) by (cases "mid \<le> i") auto
      moreover have "\<not> abt_compare_xid k (xs ! mid) = 0" "abt_compare_xid k (xs ! mid) < 0" using lt c by auto
      ultimately show ?thesis unfolding eq using mid by auto
    next
      case gt
      have n: "\<not> abt_compare_xid k (xs ! mid) = 0" "\<not> abt_compare_xid k (xs ! mid) < 0" using gt c by auto
      have "bsearch_loop abt_compare_xid k xs (mid + 1) hi \<longleftrightarrow> (\<exists>i. mid + 1 \<le> i \<and> i < hi \<and> xs ! i = k)"
        using False n mid 1(3,4,5) by (intro 1(2)) (auto simp: mid_def)
      moreover have "mid + 1 \<le> i" if "i < hi" "xs ! i = k" for i
        using srt [of i mid] gt that 1(5) mid by (cases "i \<le> mid") auto
      moreover have "lo \<le> i" if "mid + 1 \<le> i" for i using mid that by simp
      ultimately show ?thesis unfolding eq if_not_P [OF n(1)] if_not_P [OF n(2)] by blast
    qed
  qed
qed

lemma bsearch_descending:
  "xids_descending b xs \<Longrightarrow> in_window b x \<Longrightarrow> bsearch abt_compare_xid x xs \<longleftrightarrow> x \<in> set xs"
  unfolding bsearch_def by (simp add: bsearch_loop_descending in_set_conv_nth)

section \<open>Visibility\<close>

text \<open>A snapshot for sampling, as the version store relies on it.\<close>

definition wf_snapshot :: "TransactionId \<Rightarrow> ABTSnapshotData \<Rightarrow> bool" where
  "wf_snapshot b s =
     (xids_descending b (s_xip s) \<and> in_window b (s_xmax s) \<and> in_window b (s_xmin s)
      \<and> s_xmin s = (if s_xip s = [] then s_xmax s else last (s_xip s)))"

lemma prepare_wf:
  assumes "snapshot_type s = SNAPSHOT_MVCC" and "in_window b (snap_xmax s)"
    and "\<forall>x\<in>set (if takenDuringRecovery s then snap_subxip s else snap_xip s). in_window b x"
  shows "\<exists>a. abt_prepare_snapshot_for_sampling (Some s) = Some a \<and> wf_snapshot b a \<and> s_xmax a = snap_xmax s
    \<and> set (s_xip a) = set (if takenDuringRecovery s then snap_subxip s else snap_xip s)"
proof -
  define xip0 where "xip0 = (if takenDuringRecovery s then snap_subxip s else snap_xip s)"
  define xip where "xip = pg_qsort abt_compare_xid xip0"
  have d: "xids_descending b xip" unfolding xip_def by (rule qsort_descending) (use assms(3) in \<open>simp add: xip0_def\<close>)
  have "abt_prepare_snapshot_for_sampling (Some s)
      = Some \<lparr>s_xmin = (if xip \<noteq> [] then xip ! (length xip - 1) else snap_xmax s), s_xmax = snap_xmax s, s_xip = xip\<rparr>"
    using assms(1) by (simp add: abt_prepare_snapshot_for_sampling_def Let_def xip_def xip0_def)
  moreover have "in_window b (last xip)" if "xip \<noteq> []"
    using d that by (simp add: xids_descending_def)
  ultimately show ?thesis using d assms(2) by (simp add: wf_snapshot_def last_conv_nth xip_def xip0_def)
qed

lemma descending_last_le:
  assumes "xids_descending b xs" and "x \<in> set xs"
  shows "xid_rank b (last xs) \<le> xid_rank b x"
proof -
  have "xs \<noteq> []" using assms(2) by auto
  then have "xs = butlast xs @ [last xs]" by simp
  then have "sorted_wrt (\<ge>) (map (xid_rank b) (butlast xs) @ [xid_rank b (last xs)])"
    using assms(1) unfolding xids_descending_def by (metis list.simps(8,9) map_append)
  moreover have "x \<in> set (butlast xs) \<or> x = last xs" using assms(2) \<open>xs = _\<close> by (metis Un_iff empty_iff empty_set set_ConsD set_append)
  ultimately show ?thesis by (auto simp: sorted_wrt_append)
qed

lemma xid_in_snapshot_iff:
  assumes wf: "wf_snapshot b s" and x: "in_window b x"
  shows "abt_xid_in_snapshot x (Some s) \<longleftrightarrow> xid_rank b (s_xmax s) \<le> xid_rank b x \<or> x \<in> set (s_xip s)"
proof -
  have w: "in_window b (s_xmax s)" "in_window b (s_xmin s)" and d: "xids_descending b (s_xip s)"
    using wf unfolding wf_snapshot_def by blast+
  have v: "TransactionIdIsValid x"
    using x by (auto simp: in_window_def TransactionIdIsNormal_def TransactionIdIsValid_def
        InvalidTransactionId_def FirstNormalTransactionId_def)
  have "x \<notin> set (s_xip s)" if "xid_rank b x < xid_rank b (s_xmin s)"
    using descending_last_le [OF d, of x] that wf by (auto simp: wf_snapshot_def split: if_splits)
  then show ?thesis
    using v by (auto simp: abt_xid_in_snapshot_def precedes_rank [OF x w(1)] precedes_rank [OF x w(2)]
        bsearch_descending [OF d x])
qed

lemma xid_in_snapshot_permanent:
  assumes "wf_snapshot b s" and "TransactionIdIsValid x" "\<not> TransactionIdIsNormal x"
  shows "\<not> abt_xid_in_snapshot x (Some s)"
  using assms precedes_permanent [of x]
  by (auto simp: abt_xid_in_snapshot_def wf_snapshot_def in_window_def)

section \<open>Properties\<close>

text \<open>
  C15. The visibility test that sampling uses agrees with the one of the server on the ids of
  top-level transactions, which are the ids that index entries carry: for every valid id within half
  of the id circle (or a permanent id) that is its own topmost transaction and, outside recovery, is
  not in the snapshot's list of subtransactions, testing it against the prepared snapshot gives the
  result of the MVCC snapshot test, for snapshots taken in normal operation and during recovery, with
  or without subtransaction overflow. (For the id of a subtransaction listed in \<^verbatim>\<open>subxip\<close> the two
  tests differ, since the prepared snapshot of normal operation does not look there.)
\<close>

theorem abt_xid_in_snapshot_mvcc:
  assumes mvcc: "snapshot_type s = SNAPSHOT_MVCC"
    and win: "in_window b (snap_xmin s)" "in_window b (snap_xmax s)"
      "\<forall>y\<in>set (snap_xip s @ snap_subxip s). in_window b y \<and> xid_rank b (snap_xmin s) \<le> xid_rank b y"
    and x: "TransactionIdIsValid x" "TransactionIdIsNormal x \<longrightarrow> in_window b x"
    and top: "SubTransGetTopmostTransaction x = x"
    and sub: "\<not> takenDuringRecovery s \<longrightarrow> x \<notin> set (snap_subxip s)"
    and "xid_rank b (snap_xmin s) \<le> xid_rank b (snap_xmax s)"
  shows "abt_xid_in_snapshot x (abt_prepare_snapshot_for_sampling (Some s))
    = XidInMVCCSnapshot SubTransGetTopmostTransaction x s"
proof -
  let ?l = "if takenDuringRecovery s then snap_subxip s else snap_xip s"
  have l: "\<forall>y\<in>set ?l. in_window b y" using win(3) by (cases "takenDuringRecovery s") simp_all
  obtain a where a: "abt_prepare_snapshot_for_sampling (Some s) = Some a" "wf_snapshot b a"
    "s_xmax a = snap_xmax s" "set (s_xip a) = set ?l"
    using prepare_wf [OF mvcc win(2) l] by blast
  show ?thesis
  proof (cases "TransactionIdIsNormal x")
    case False
    then show ?thesis
      using xid_in_snapshot_permanent [OF a(2) x(1)] precedes_permanent [of x "snap_xmin s"] win(1)
      by (simp add: a(1) XidInMVCCSnapshot_def in_window_normal)
  next
    case True
    then have wx: "in_window b x" using x(2) by simp
    note r = precedes_rank [OF wx win(1)] precedes_rank [OF wx win(2)]
    have "x \<notin> set ?l" if "xid_rank b x < xid_rank b (snap_xmin s)"
    proof (cases "takenDuringRecovery s")
      case True
      then show ?thesis using bspec [OF win(3), of x] that by auto
    next
      case False
      then show ?thesis using bspec [OF win(3), of x] that by auto
    qed
    then show ?thesis
      unfolding a(1) xid_in_snapshot_iff [OF a(2) wx] a(3,4) XidInMVCCSnapshot_def
        follows_or_equals_precedes r top Let_def
      using sub assms(9) by auto
  qed
qed

text \<open>An instance around the wrap-around of the id circle.\<close>

theorem abt_xid_in_snapshot_mvcc_witness:
  "abt_xid_in_snapshot 4 (abt_prepare_snapshot_for_sampling (Some
     \<lparr>snapshot_type = SNAPSHOT_MVCC, snap_xmin = 4294967290, snap_xmax = 9, snap_xip = [4294967295, 4],
      snap_subxip = [5], suboverflowed = False, takenDuringRecovery = False\<rparr>))
   = XidInMVCCSnapshot id 4
     \<lparr>snapshot_type = SNAPSHOT_MVCC, snap_xmin = 4294967290, snap_xmax = 9, snap_xip = [4294967295, 4],
      snap_subxip = [5], suboverflowed = False, takenDuringRecovery = False\<rparr>"
  by (rule abt_xid_in_snapshot_mvcc [where b = 4294967290])
    (simp_all add: in_window_def xid_rank_def TransactionIdIsNormal_def FirstNormalTransactionId_def
      TransactionIdIsValid_def InvalidTransactionId_def)

end
