(* ===== verification/Agg.thy ===== *)
theory Agg
  imports Posting
begin

text \<open>
  Aggregation values (\<^verbatim>\<open>abtutils.c\<close>): the arithmetic of the aggregation types, accumulation and
  exclusion of the values of a tuple and of a page, and the space for them in a pivot tuple. The
  arithmetic functions are those of \<^verbatim>\<open>utils/adt/int8.c\<close> and \<^verbatim>\<open>int.c\<close>, whose range checks are error
  exits. A locale states what the index relies on; it is interpreted for the three integer types.
\<close>

section \<open>Integer aggregation types\<close>

text \<open>The result of a checked operation on integers of \<open>w\<close> bits, returned as a datum.\<close>

definition int_result :: "nat \<Rightarrow> int \<Rightarrow> Datum option" where
  "int_result w r = (if r > 2 ^ (w - 1) - 1 \<or> r < - (2 ^ (w - 1)) then None else Some (word_of_int r))"

definition DatumGetInt16 :: "Datum \<Rightarrow> 16 word" where "DatumGetInt16 d = ucast d"
definition DatumGetInt32 :: "Datum \<Rightarrow> 32 word" where "DatumGetInt32 d = ucast d"

definition int8pl :: "Datum \<Rightarrow> Datum \<Rightarrow> Datum option" where
  "int8pl a b = int_result 64 (sint a + sint b)"

definition int8mi :: "Datum \<Rightarrow> Datum \<Rightarrow> Datum option" where
  "int8mi a b = int_result 64 (sint a - sint b)"

definition int82mul :: "Datum \<Rightarrow> Datum \<Rightarrow> Datum option" where
  "int82mul a b = int_result 64 (sint a * sint (DatumGetInt16 b))"

definition int28 :: "16 word \<Rightarrow> Datum" where "int28 n = scast n"

definition int4pl :: "Datum \<Rightarrow> Datum \<Rightarrow> Datum option" where
  "int4pl a b = int_result 32 (sint (DatumGetInt32 a) + sint (DatumGetInt32 b))"

definition int4mi :: "Datum \<Rightarrow> Datum \<Rightarrow> Datum option" where
  "int4mi a b = int_result 32 (sint (DatumGetInt32 a) - sint (DatumGetInt32 b))"

definition int42mul :: "Datum \<Rightarrow> Datum \<Rightarrow> Datum option" where
  "int42mul a b = int_result 32 (sint (DatumGetInt32 a) * sint (DatumGetInt16 b))"

definition i2toi4 :: "16 word \<Rightarrow> Datum" where "i2toi4 n = scast n"

definition int2pl :: "Datum \<Rightarrow> Datum \<Rightarrow> Datum option" where
  "int2pl a b = int_result 16 (sint (DatumGetInt16 a) + sint (DatumGetInt16 b))"

definition int2mi :: "Datum \<Rightarrow> Datum \<Rightarrow> Datum option" where
  "int2mi a b = int_result 16 (sint (DatumGetInt16 a) - sint (DatumGetInt16 b))"

definition int2mul :: "Datum \<Rightarrow> Datum \<Rightarrow> Datum option" where
  "int2mul a b = int_result 16 (sint (DatumGetInt16 a) * sint (DatumGetInt16 b))"

text \<open>The value that \<^verbatim>\<open>fetch_att\<close> reads after \<^verbatim>\<open>store_att_byval\<close>.\<close>

definition store_att_byval :: "nat \<Rightarrow> Datum \<Rightarrow> Datum" where
  "store_att_byval attlen d =
     (if attlen = 8 then d
      else if attlen = 4 then scast (DatumGetInt32 d)
      else if attlen = 2 then scast (DatumGetInt16 d)
      else scast (ucast d :: 8 word))"

datatype agg_type_oid = INT8OID | INT4OID | INT2OID

text \<open>The cached information for an integer type, as \<^verbatim>\<open>_abt_fill_agg_info\<close> sets it from the catalog
  entries of the type and of its operators; a constant map value is given as \<open>Some\<close>.\<close>

definition abt_fill_agg_info :: "agg_type_oid \<Rightarrow> Datum option \<Rightarrow> ABTCachedAggInfo" where
  "abt_fill_agg_info oid map_const =
     abt_compute_tuple_offsets
       \<lparr>agg_byval = True,
        leaf_has_agg = (map_const = None),
        int2_to_agg_type_fn_initialized = (oid \<noteq> INT2OID),
        agg_typlen = (case oid of INT8OID \<Rightarrow> 8 | INT4OID \<Rightarrow> 4 | INT2OID \<Rightarrow> 2),
        agg_stride = (case oid of INT8OID \<Rightarrow> 8 | INT4OID \<Rightarrow> 4 | INT2OID \<Rightarrow> 2),
        agg_map_val = (case map_const of Some v \<Rightarrow> v | None \<Rightarrow> 0),
        int2_to_agg_type_fn = (case oid of INT8OID \<Rightarrow> int28 | INT4OID \<Rightarrow> i2toi4 | INT2OID \<Rightarrow> scast),
        agg_add_fn = (case oid of INT8OID \<Rightarrow> int8pl | INT4OID \<Rightarrow> int4pl | INT2OID \<Rightarrow> int2pl),
        agg_mul_fn = (case oid of INT8OID \<Rightarrow> int82mul | INT4OID \<Rightarrow> int42mul | INT2OID \<Rightarrow> int2mul),
        agg_sub_fn = (case oid of INT8OID \<Rightarrow> int8mi | INT4OID \<Rightarrow> int4mi | INT2OID \<Rightarrow> int2mi),
        extra_space_for_nonpivot_tuple = 0, extra_space_when_tid_missing = 0,
        extra_space_when_tid_present = 0\<rparr>"

section \<open>Accumulation\<close>

definition abt_accum_value :: "ABTCachedAggInfo \<Rightarrow> Datum \<Rightarrow> Datum \<Rightarrow> bool \<Rightarrow> Datum option" where
  "abt_accum_value agg_info acc value_to_add is_first =
     (if is_first then Some value_to_add else agg_add_fn agg_info acc value_to_add)"

definition abt_exclude_value :: "ABTCachedAggInfo \<Rightarrow> Datum \<Rightarrow> Datum \<Rightarrow> Datum option" where
  "abt_exclude_value agg_info acc value_to_subtract = agg_sub_fn agg_info acc value_to_subtract"

text \<open>The loops over the values of a posting list.\<close>

fun accum_values :: "ABTCachedAggInfo \<Rightarrow> Datum list \<Rightarrow> Datum \<Rightarrow> Datum option" where
  "accum_values agg_info [] agg = Some agg"
| "accum_values agg_info (v # vs) agg =
     (case abt_accum_value agg_info agg v False of
        None \<Rightarrow> None
      | Some agg' \<Rightarrow> accum_values agg_info vs agg')"

fun exclude_values :: "ABTCachedAggInfo \<Rightarrow> Datum list \<Rightarrow> Datum \<Rightarrow> Datum option" where
  "exclude_values agg_info [] agg = Some agg"
| "exclude_values agg_info (v # vs) agg =
     (case abt_exclude_value agg_info agg v of
        None \<Rightarrow> None
      | Some agg' \<Rightarrow> exclude_values agg_info vs agg')"

definition abt_accum_index_tuple_value ::
  "ABTCachedAggInfo \<Rightarrow> Datum \<Rightarrow> IndexTupleData \<Rightarrow> bool \<Rightarrow> bool \<Rightarrow> Datum option" where
  "abt_accum_index_tuple_value agg_info agg itup is_leaf is_first =
     (if is_leaf \<and> \<not> leaf_has_agg agg_info then
        if ABTreeTupleIsPosting itup then
          case ABTreeComputeProductOfAggAndInt2 agg_info (agg_map_val agg_info)
                 (of_nat (ABTreeTupleGetNPosting itup)) of
            None \<Rightarrow> None
          | Some val_to_add \<Rightarrow> abt_accum_value agg_info agg val_to_add is_first
        else abt_accum_value agg_info agg (agg_map_val agg_info) is_first
      else if ABTreeTupleIsPosting itup then
        case abt_accum_value agg_info agg (it_aggs itup ! 0) is_first of
          None \<Rightarrow> None
        | Some agg1 \<Rightarrow>
            accum_values agg_info (drop 1 (take (ABTreeTupleGetNPosting itup) (it_aggs itup))) agg1
      else abt_accum_value agg_info agg (it_aggs itup ! 0) is_first)"

definition abt_exclude_index_tuple_value ::
  "ABTCachedAggInfo \<Rightarrow> Datum \<Rightarrow> IndexTupleData \<Rightarrow> bool \<Rightarrow> Datum option" where
  "abt_exclude_index_tuple_value agg_info agg itup is_leaf =
     (if is_leaf \<and> \<not> leaf_has_agg agg_info then
        if ABTreeTupleIsPosting itup then
          case ABTreeComputeProductOfAggAndInt2 agg_info (agg_map_val agg_info)
                 (of_nat (ABTreeTupleGetNPosting itup)) of
            None \<Rightarrow> None
          | Some val_to_subtract \<Rightarrow> abt_exclude_value agg_info agg val_to_subtract
        else abt_exclude_value agg_info agg (agg_map_val agg_info)
      else if ABTreeTupleIsPosting itup then
        exclude_values agg_info (take (ABTreeTupleGetNPosting itup) (it_aggs itup)) agg
      else abt_exclude_value agg_info agg (it_aggs itup ! 0))"

fun accum_tuples :: "ABTCachedAggInfo \<Rightarrow> bool \<Rightarrow> IndexTupleData list \<Rightarrow> Datum \<Rightarrow> Datum option" where
  "accum_tuples agg_info is_leaf [] agg = Some agg"
| "accum_tuples agg_info is_leaf (itup # itups) agg =
     (case abt_accum_index_tuple_value agg_info agg itup is_leaf False of
        None \<Rightarrow> None
      | Some agg' \<Rightarrow> accum_tuples agg_info is_leaf itups agg')"

definition page_data_tuples :: "PageData \<Rightarrow> IndexTupleData list" where
  "page_data_tuples page = map pi_tup (drop (ABT_P_FIRSTDATAKEY (pd_special page) - 1) (pd_linp page))"

text \<open>The assertion \<^verbatim>\<open>off < maxoff\<close> stops the routine on a page with fewer than two data items.\<close>

definition abt_accum_page_value :: "ABTCachedAggInfo \<Rightarrow> PageData \<Rightarrow> Datum option" where
  "abt_accum_page_value agg_info page =
     (let is_leaf = ABT_P_ISLEAF (pd_special page)
      in case page_data_tuples page of
           [] \<Rightarrow> None
         | [_] \<Rightarrow> None
         | itup # itups \<Rightarrow>
             case abt_accum_index_tuple_value agg_info 0 itup is_leaf True of
               None \<Rightarrow> None
             | Some agg \<Rightarrow> accum_tuples agg_info is_leaf itups agg)"

section \<open>Values and space in tuples\<close>

definition abt_set_pivot_tuple_aggregation_value ::
  "IndexTupleData \<Rightarrow> Datum \<Rightarrow> ABTCachedAggInfo \<Rightarrow> IndexTupleData" where
  "abt_set_pivot_tuple_aggregation_value itup agg_val agg_info =
     itup\<lparr>it_aggs := [store_att_byval (agg_typlen agg_info) agg_val]\<rparr>"

definition abt_set_nonpivot_tuple_aggregation_value ::
  "IndexTupleData \<Rightarrow> Datum \<Rightarrow> ABTCachedAggInfo \<Rightarrow> IndexTupleData" where
  "abt_set_nonpivot_tuple_aggregation_value itup agg_val agg_info =
     itup\<lparr>it_aggs := [store_att_byval (agg_typlen agg_info) agg_val]\<rparr>"

definition abt_set_posting_tuple_aggregation_values ::
  "IndexTupleData \<Rightarrow> Datum \<Rightarrow> ABTCachedAggInfo \<Rightarrow> IndexTupleData" where
  "abt_set_posting_tuple_aggregation_values itup agg_val agg_info =
     itup\<lparr>it_aggs := replicate (ABTreeTupleGetNPosting itup) (store_att_byval (agg_typlen agg_info) agg_val)\<rparr>"

definition abt_pivot_tuple_purge_agg_space :: "IndexTupleData \<Rightarrow> ABTCachedAggInfo \<Rightarrow> IndexTupleData" where
  "abt_pivot_tuple_purge_agg_space itup agg_info =
     (let new_size =
            (if ABTPivotTupleHasHeapTID itup
             then MAXALIGN (IndexTupleSize itup - extra_space_when_tid_present agg_info + 6)
             else IndexTupleSize itup - extra_space_when_tid_missing agg_info)
      in set_tuple_size new_size (itup\<lparr>it_aggs := [], it_last_update_id := 0\<rparr>))"

text \<open>Without a heap TID the routine copies as many bytes as the new tuple has from the old, shorter
  one; \<open>overread\<close> is what it finds behind the old tuple.\<close>

definition abt_pivot_tuple_reserve_agg_space ::
  "Datum \<times> 16 word \<Rightarrow> IndexTupleData \<Rightarrow> ABTCachedAggInfo \<Rightarrow> IndexTupleData" where
  "abt_pivot_tuple_reserve_agg_space overread itup agg_info =
     (if ABTPivotTupleHasHeapTID itup then
        set_tuple_size (MAXALIGN_DOWN (IndexTupleSize itup - 6) + extra_space_when_tid_present agg_info)
          (itup\<lparr>it_aggs := [0], it_last_update_id := 0\<rparr>)
      else
        set_tuple_size (IndexTupleSize itup + extra_space_when_tid_missing agg_info)
          (itup\<lparr>it_aggs := [fst overread], it_last_update_id := snd overread\<rparr>))"

section \<open>What the index relies on\<close>

text \<open>The operations of the aggregation type compute in 64-bit datums whenever they return.\<close>

locale agg_type =
  fixes ai :: ABTCachedAggInfo
    and valid :: "Datum \<Rightarrow> bool"
  assumes add_word: "valid a \<Longrightarrow> valid b \<Longrightarrow> agg_add_fn ai a b = Some c \<Longrightarrow> c = a + b \<and> valid c"
    and sub_word: "valid a \<Longrightarrow> valid b \<Longrightarrow> agg_sub_fn ai a b = Some c \<Longrightarrow> c = a - b \<and> valid c"
    and product_word: "valid a \<Longrightarrow> ABTreeComputeProductOfAggAndInt2 ai a n = Some c \<Longrightarrow> c = a * scast n \<and> valid c"

definition tuple_weights :: "ABTCachedAggInfo \<Rightarrow> bool \<Rightarrow> IndexTupleData \<Rightarrow> Datum list" where
  "tuple_weights ai is_leaf t =
     (if is_leaf \<and> \<not> leaf_has_agg ai then replicate (length (tuple_tids t)) (agg_map_val ai) else it_aggs t)"

text \<open>A tuple with the values that its kind of page requires.\<close>

definition agg_tuple_ok :: "ABTCachedAggInfo \<Rightarrow> bool \<Rightarrow> IndexTupleData \<Rightarrow> bool" where
  "agg_tuple_ok ai is_leaf t =
     (if is_leaf then \<not> ABTreeTupleIsPivot t \<and> length (tuple_tids t) = (if ABTreeTupleIsPosting t then ABTreeTupleGetNPosting t else 1)
        \<and> (ABTreeTupleIsPosting t \<longrightarrow> 2 \<le> ABTreeTupleGetNPosting t)
        \<and> (leaf_has_agg ai \<longrightarrow> length (it_aggs t) = length (tuple_tids t))
      else ABTreeTupleIsPivot t \<and> length (it_aggs t) = 1)"

lemma wf_leaf_agg_tuple_ok: "wf_leaf_tuple nk ai t \<Longrightarrow> agg_tuple_ok ai True t"
  by (auto simp: wf_leaf_tuple_def agg_tuple_ok_def tuple_tids_def)

lemma sum_list_replicate_word: "sum_list (replicate n (x :: 64 word)) = of_nat n * x"
  by (induction n) (simp_all add: algebra_simps)

context agg_type
begin

lemma accum_values_word:
  assumes "accum_values ai vs agg = Some c" and "valid agg" and "\<forall>v\<in>set vs. valid v"
  shows "c = agg + sum_list vs \<and> valid c"
  using assms
proof (induction vs arbitrary: agg)
  case (Cons v vs)
  then obtain agg' where a: "agg_add_fn ai agg v = Some agg'" "accum_values ai vs agg' = Some c"
    by (auto simp: abt_accum_value_def split: option.splits)
  with add_word [of agg v] Cons.prems have "agg' = agg + v" "valid agg'" by auto
  with Cons.IH [OF a(2)] Cons.prems(3) show ?case by (auto simp: add.assoc)
qed simp

lemma exclude_values_word:
  assumes "exclude_values ai vs agg = Some c" and "valid agg" and "\<forall>v\<in>set vs. valid v"
  shows "c = agg - sum_list vs \<and> valid c"
  using assms
proof (induction vs arbitrary: agg)
  case (Cons v vs)
  then obtain agg' where a: "agg_sub_fn ai agg v = Some agg'" "exclude_values ai vs agg' = Some c"
    by (auto simp: abt_exclude_value_def split: option.splits)
  with sub_word [of agg v] Cons.prems have "agg' = agg - v" "valid agg'" by auto
  with Cons.IH [OF a(2)] Cons.prems(3) show ?case by (auto simp: diff_diff_eq)
qed simp

lemma product_weights:
  assumes "agg_tuple_ok ai True t" and "ABTreeTupleIsPosting t" and "\<not> leaf_has_agg ai" and "valid (agg_map_val ai)"
    and "ABTreeComputeProductOfAggAndInt2 ai (agg_map_val ai) (of_nat (ABTreeTupleGetNPosting t)) = Some c"
  shows "c = sum_list (tuple_weights ai True t) \<and> valid c"
proof -
  have "ABTreeTupleGetNPosting t < 2 ^ 12" by (rule NPosting_bound)
  then have "scast (of_nat (ABTreeTupleGetNPosting t) :: 16 word) = (of_nat (ABTreeTupleGetNPosting t) :: 64 word)"
    by (rule scast_of_nat_small)
  then show ?thesis
    using product_word [OF assms(4,5)] assms(1-3)
    by (auto simp: tuple_weights_def agg_tuple_ok_def sum_list_replicate_word mult.commute)
qed

lemma accum_value_word:
  "abt_accum_value ai agg v is_first = Some c \<Longrightarrow> is_first \<or> valid agg \<Longrightarrow> valid v
     \<Longrightarrow> c = (if is_first then 0 else agg) + v \<and> valid c"
  using add_word [of agg v c] by (auto simp: abt_accum_value_def split: if_splits)

lemma accum_tuple_word:
  assumes acc: "abt_accum_index_tuple_value ai agg t is_leaf is_first = Some c" and ok: "agg_tuple_ok ai is_leaf t"
    and agg: "is_first \<or> valid agg" and v: "\<forall>v\<in>set (tuple_weights ai is_leaf t). valid v"
  shows "c = (if is_first then 0 else agg) + sum_list (tuple_weights ai is_leaf t) \<and> valid c"
proof (cases "is_leaf \<and> \<not> leaf_has_agg ai")
  case const: True
  then have len: "tuple_tids t \<noteq> []" using ok by (auto simp: agg_tuple_ok_def split: if_splits)
  with v const have map: "valid (agg_map_val ai)" by (simp add: tuple_weights_def)
  show ?thesis
  proof (cases "ABTreeTupleIsPosting t")
    case True
    then obtain p where p: "ABTreeComputeProductOfAggAndInt2 ai (agg_map_val ai) (of_nat (ABTreeTupleGetNPosting t)) = Some p"
      "abt_accum_value ai agg p is_first = Some c"
      using acc const by (auto simp: abt_accum_index_tuple_value_def split: option.splits)
    show ?thesis
      using product_weights [OF _ True _ map p(1)] accum_value_word [OF p(2) agg] const ok by auto
  next
    case False
    then have "abt_accum_value ai agg (agg_map_val ai) is_first = Some c" "length (tuple_tids t) = 1"
      using acc const ok by (auto simp: abt_accum_index_tuple_value_def agg_tuple_ok_def)
    then show ?thesis using accum_value_word [OF _ agg map] const by (auto simp: tuple_weights_def)
  qed
next
  case stored: False
  then have w: "tuple_weights ai is_leaf t = it_aggs t" by (auto simp: tuple_weights_def)
  show ?thesis
  proof (cases "ABTreeTupleIsPosting t")
    case True
    then have leaf: "is_leaf" using ok not_pivot_if_posting by (auto simp: agg_tuple_ok_def split: if_splits)
    with ok stored True have len: "length (it_aggs t) = ABTreeTupleGetNPosting t" "2 \<le> ABTreeTupleGetNPosting t"
      by (auto simp: agg_tuple_ok_def)
    then obtain x xs where xs: "it_aggs t = x # xs" by (cases "it_aggs t") auto
    obtain a where a: "abt_accum_value ai agg x is_first = Some a" "accum_values ai xs a = Some c"
      using acc stored True len xs
      by (auto simp: abt_accum_index_tuple_value_def split: option.splits)
    then show ?thesis
      using accum_value_word [OF a(1) agg] accum_values_word [OF a(2)] v by (auto simp: w xs add.assoc)
  next
    case False
    have "length (it_aggs t) = 1" using ok stored False by (auto simp: agg_tuple_ok_def split: if_splits)
    then obtain x where x: "it_aggs t = [x]" by (cases "it_aggs t") auto
    then show ?thesis
      using acc stored False accum_value_word [OF _ agg, of x] v
      by (auto simp: abt_accum_index_tuple_value_def w)
  qed
qed

lemma exclude_tuple_word:
  assumes ex: "abt_exclude_index_tuple_value ai agg t is_leaf = Some c" and ok: "agg_tuple_ok ai is_leaf t"
    and agg: "valid agg" and v: "\<forall>v\<in>set (tuple_weights ai is_leaf t). valid v"
  shows "c = agg - sum_list (tuple_weights ai is_leaf t) \<and> valid c"
proof (cases "is_leaf \<and> \<not> leaf_has_agg ai")
  case const: True
  then have "tuple_tids t \<noteq> []" using ok by (auto simp: agg_tuple_ok_def split: if_splits)
  with v const have map: "valid (agg_map_val ai)" by (simp add: tuple_weights_def)
  show ?thesis
  proof (cases "ABTreeTupleIsPosting t")
    case True
    then obtain p where p: "ABTreeComputeProductOfAggAndInt2 ai (agg_map_val ai) (of_nat (ABTreeTupleGetNPosting t)) = Some p"
      "agg_sub_fn ai agg p = Some c"
      using ex const by (auto simp: abt_exclude_index_tuple_value_def abt_exclude_value_def split: option.splits)
    show ?thesis
      using product_weights [OF _ True _ map p(1)] sub_word [OF agg _ p(2)] const ok by auto
  next
    case False
    then have "agg_sub_fn ai agg (agg_map_val ai) = Some c" "length (tuple_tids t) = 1"
      using ex const ok by (auto simp: abt_exclude_index_tuple_value_def abt_exclude_value_def agg_tuple_ok_def)
    then show ?thesis using sub_word [OF agg map] const by (auto simp: tuple_weights_def)
  qed
next
  case stored: False
  then have w: "tuple_weights ai is_leaf t = it_aggs t" by (auto simp: tuple_weights_def)
  show ?thesis
  proof (cases "ABTreeTupleIsPosting t")
    case True
    then have "is_leaf" using ok not_pivot_if_posting by (auto simp: agg_tuple_ok_def split: if_splits)
    with ok stored True have "length (it_aggs t) = ABTreeTupleGetNPosting t" by (auto simp: agg_tuple_ok_def)
    then have "exclude_values ai (it_aggs t) agg = Some c"
      using ex stored True by (auto simp: abt_exclude_index_tuple_value_def)
    then show ?thesis using exclude_values_word [OF _ agg] v by (simp add: w)
  next
    case False
    have "length (it_aggs t) = 1" using ok stored False by (auto simp: agg_tuple_ok_def split: if_splits)
    then obtain x where x: "it_aggs t = [x]" by (cases "it_aggs t") auto
    then show ?thesis
      using ex stored False sub_word [OF agg, of x] v
      by (auto simp: abt_exclude_index_tuple_value_def abt_exclude_value_def w)
  qed
qed

lemma accum_tuples_word:
  assumes "accum_tuples ai is_leaf ts agg = Some c" and "valid agg"
    and "\<forall>t\<in>set ts. agg_tuple_ok ai is_leaf t \<and> (\<forall>v\<in>set (tuple_weights ai is_leaf t). valid v)"
  shows "c = agg + sum_list (concat (map (tuple_weights ai is_leaf) ts)) \<and> valid c"
  using assms
proof (induction ts arbitrary: agg)
  case (Cons t ts)
  then obtain a where a: "abt_accum_index_tuple_value ai agg t is_leaf False = Some a" "accum_tuples ai is_leaf ts a = Some c"
    by (auto split: option.splits)
  then show ?case
    using accum_tuple_word [OF a(1)] Cons.IH [OF a(2)] Cons.prems by (auto simp: add.assoc)
qed simp

lemma page_value_word:
  assumes acc: "abt_accum_page_value ai page = Some c"
    and ts: "\<forall>t\<in>set (page_data_tuples page). agg_tuple_ok ai (ABT_P_ISLEAF (pd_special page)) t
      \<and> (\<forall>v\<in>set (tuple_weights ai (ABT_P_ISLEAF (pd_special page)) t). valid v)"
  shows "c = sum_list (concat (map (tuple_weights ai (ABT_P_ISLEAF (pd_special page))) (page_data_tuples page))) \<and> valid c"
proof -
  let ?l = "ABT_P_ISLEAF (pd_special page)"
  obtain t ts a where t: "page_data_tuples page = t # ts" "abt_accum_index_tuple_value ai 0 t ?l True = Some a"
    "accum_tuples ai ?l ts a = Some c"
    using acc by (auto simp: abt_accum_page_value_def Let_def split: list.splits option.splits)
  then show ?thesis
    using accum_tuple_word [OF t(2)] accum_tuples_word [OF t(3)] ts by auto
qed

end

section \<open>The integer types\<close>

lemma int_resultD: "int_result w r = Some c \<Longrightarrow> c = word_of_int r \<and> - (2 ^ (w - 1)) \<le> r \<and> r \<le> 2 ^ (w - 1) - 1"
  by (simp add: int_result_def split: if_splits)

text \<open>Datums of the shorter types are sign-extended.\<close>

definition valid_int4 :: "Datum \<Rightarrow> bool" where "valid_int4 d = (scast (DatumGetInt32 d) = d)"
definition valid_int2 :: "Datum \<Rightarrow> bool" where "valid_int2 d = (scast (DatumGetInt16 d) = d)"

lemma DatumGetInt32_small:
  "- (2 ^ 31) \<le> r \<Longrightarrow> r \<le> 2 ^ 31 - 1 \<Longrightarrow> sint (DatumGetInt32 (word_of_int r)) = r"
  unfolding DatumGetInt32_def sint_ucast32 by (rule signed_take_bit_int_eq_self) simp_all

lemma DatumGetInt16_small:
  "- (2 ^ 15) \<le> r \<Longrightarrow> r \<le> 2 ^ 15 - 1 \<Longrightarrow> sint (DatumGetInt16 (word_of_int r)) = r"
  unfolding DatumGetInt16_def sint_ucast16 by (rule signed_take_bit_int_eq_self) simp_all

lemma DatumGetInt16_scast: "sint (DatumGetInt16 (scast (n :: 16 word))) = sint n"
proof -
  have r: "- (2 ^ 15) \<le> sint n" "sint n < 2 ^ 15" using sint_range_size [of n] by (simp_all add: word_size)
  have "scast n = (word_of_int (sint n) :: Datum)" by (rule scast_eq)
  then show ?thesis using DatumGetInt16_small [of "sint n"] r by (simp only:)
qed

lemma valid_int_result:
  "int_result 64 r = Some c \<Longrightarrow> c = word_of_int r"
  "int_result 32 r = Some c \<Longrightarrow> c = word_of_int r \<and> valid_int4 c"
  "int_result 16 r = Some c \<Longrightarrow> c = word_of_int r \<and> valid_int2 c"
  using int_resultD [of 64 r c] int_resultD [of 32 r c] int_resultD [of 16 r c]
    DatumGetInt32_small [of r] DatumGetInt16_small [of r]
  by (simp_all add: valid_int4_def valid_int2_def scast_eq del: of_int_sint)

lemma int8_word:
  "int8pl a b = Some c \<Longrightarrow> c = a + b" "int8mi a b = Some c \<Longrightarrow> c = a - b"
  "int82mul a (int28 n) = Some c \<Longrightarrow> c = a * scast n"
  unfolding int8pl_def int8mi_def int82mul_def int28_def DatumGetInt16_scast
  by (drule valid_int_result(1), simp)+

lemma int4_result:
  assumes "int_result 32 r = Some c" and "word_of_int r = d"
  shows "c = d \<and> valid_int4 c"
  using valid_int_result(2) [OF assms(1)] assms(2) by blast

lemma int2_result:
  assumes "int_result 16 r = Some c" and "word_of_int r = d"
  shows "c = d \<and> valid_int2 c"
  using valid_int_result(3) [OF assms(1)] assms(2) by blast

lemma int4_word:
  "valid_int4 a \<Longrightarrow> valid_int4 b \<Longrightarrow> int4pl a b = Some c \<Longrightarrow> c = a + b \<and> valid_int4 c"
  "valid_int4 a \<Longrightarrow> valid_int4 b \<Longrightarrow> int4mi a b = Some c \<Longrightarrow> c = a - b \<and> valid_int4 c"
  "valid_int4 a \<Longrightarrow> int42mul a (i2toi4 n) = Some c \<Longrightarrow> c = a * scast n \<and> valid_int4 c"
  unfolding int4pl_def int4mi_def int42mul_def i2toi4_def DatumGetInt16_scast
  by (erule int4_result, simp add: valid_int4_def)+

lemma int2_word:
  "valid_int2 a \<Longrightarrow> valid_int2 b \<Longrightarrow> int2pl a b = Some c \<Longrightarrow> c = a + b \<and> valid_int2 c"
  "valid_int2 a \<Longrightarrow> valid_int2 b \<Longrightarrow> int2mi a b = Some c \<Longrightarrow> c = a - b \<and> valid_int2 c"
  "valid_int2 a \<Longrightarrow> int2mul a (scast (n :: 16 word)) = Some c \<Longrightarrow> c = a * scast n \<and> valid_int2 c"
  unfolding int2pl_def int2mi_def int2mul_def DatumGetInt16_scast
  by (erule int2_result, simp add: valid_int2_def)+

lemma fill_agg_info_fns:
  "agg_add_fn (abt_fill_agg_info oid m) = (case oid of INT8OID \<Rightarrow> int8pl | INT4OID \<Rightarrow> int4pl | INT2OID \<Rightarrow> int2pl)"
  "agg_sub_fn (abt_fill_agg_info oid m) = (case oid of INT8OID \<Rightarrow> int8mi | INT4OID \<Rightarrow> int4mi | INT2OID \<Rightarrow> int2mi)"
  "ABTreeComputeProductOfAggAndInt2 (abt_fill_agg_info oid m) a n =
     (case oid of INT8OID \<Rightarrow> int82mul a (int28 n) | INT4OID \<Rightarrow> int42mul a (i2toi4 n) | INT2OID \<Rightarrow> int2mul a (scast n))"
  by (cases oid; simp add: abt_fill_agg_info_def abt_compute_tuple_offsets_def Let_def
      ABTreeComputeProductOfAggAndInt2_def)+

interpretation int8_agg: agg_type "abt_fill_agg_info INT8OID m" "\<lambda>_. True" for m
  by unfold_locales (simp_all add: fill_agg_info_fns int8_word)

interpretation int4_agg: agg_type "abt_fill_agg_info INT4OID m" valid_int4 for m
  by unfold_locales (simp only: fill_agg_info_fns agg_type_oid.case, rule int4_word, assumption+)+

interpretation int2_agg: agg_type "abt_fill_agg_info INT2OID m" valid_int2 for m
  by unfold_locales (simp only: fill_agg_info_fns agg_type_oid.case, rule int2_word, assumption+)+

section \<open>Exact values for non-negative weights\<close>

definition int8_chk :: "nat \<Rightarrow> Datum option" where
  "int8_chk n = (if n < 2 ^ 63 then Some (of_nat n) else None)"

definition nonneg :: "Datum \<Rightarrow> bool" where
  "nonneg d = (unat d < 2 ^ 63)"

lemma nonneg_code [code]: "nonneg d = (d < 9223372036854775808)"
  by (simp add: nonneg_def word_less_nat_alt)

lemma sint_of_nat64: "n < 2 ^ 63 \<Longrightarrow> sint (of_nat n :: 64 word) = int n"
  by transfer (simp add: signed_take_bit_int_eq_self)

lemma int_result64_nat: "int_result 64 (int n) = int8_chk n"
  by (auto simp: int_result_def int8_chk_def)

lemma int8pl_of_nat: "x < 2 ^ 63 \<Longrightarrow> y < 2 ^ 63 \<Longrightarrow> int8pl (of_nat x) (of_nat y) = int8_chk (x + y)"
  unfolding int8pl_def by (simp add: sint_of_nat64 flip: int_result64_nat)

lemma int8mi_of_nat: "x < 2 ^ 63 \<Longrightarrow> y \<le> x \<Longrightarrow> int8mi (of_nat x) (of_nat y) = Some (of_nat (x - y))"
  unfolding int8mi_def using int_result64_nat [of "x - y"]
  by (simp add: sint_of_nat64 of_nat_diff int8_chk_def)

lemma int82mul_of_nat:
  "x < 2 ^ 63 \<Longrightarrow> n < 2 ^ 12 \<Longrightarrow> int82mul (of_nat x) (int28 (of_nat n)) = int8_chk (x * n)"
  unfolding int82mul_def int28_def DatumGetInt16_scast
  using sint_of_nat16 [of n] by (simp add: sint_of_nat64 flip: int_result64_nat)

abbreviation int8_info :: "Datum option \<Rightarrow> ABTCachedAggInfo" where
  "int8_info \<equiv> abt_fill_agg_info INT8OID"

definition weight_sum :: "Datum list \<Rightarrow> nat" where
  "weight_sum vs = (\<Sum>v\<leftarrow>vs. unat v)"

lemma weight_sum_simps [simp]:
  "weight_sum [] = 0" "weight_sum (v # vs) = unat v + weight_sum vs" "weight_sum (vs @ ws) = weight_sum vs + weight_sum ws"
  by (simp_all add: weight_sum_def)

lemma accum_value_int8:
  "x < 2 ^ 63 \<Longrightarrow> nonneg v \<Longrightarrow> abt_accum_value (int8_info m) (of_nat x) v False = int8_chk (x + unat v)"
  using int8pl_of_nat [of x "unat v"] by (simp add: abt_accum_value_def fill_agg_info_fns nonneg_def)

lemma accum_values_int8:
  assumes "x < 2 ^ 63" and "\<forall>v\<in>set vs. nonneg v"
  shows "accum_values (int8_info m) vs (of_nat x) = int8_chk (x + weight_sum vs)"
  using assms
proof (induction vs arbitrary: x)
  case (Cons v vs)
  show ?case
  proof (cases "x + unat v < 2 ^ 63")
    case True
    then show ?thesis
      using Cons.prems Cons.IH [of "x + unat v"]
      by (simp add: accum_value_int8 int8_chk_def add.assoc del: of_nat_add)
  next
    case False
    then show ?thesis using Cons.prems by (simp add: accum_value_int8 int8_chk_def)
  qed
qed (simp add: int8_chk_def)

lemma product_int8:
  assumes "agg_tuple_ok (int8_info m) True t" and "ABTreeTupleIsPosting t" and "m = Some v" "nonneg v"
  shows "ABTreeComputeProductOfAggAndInt2 (int8_info m) (agg_map_val (int8_info m)) (of_nat (ABTreeTupleGetNPosting t))
    = int8_chk (weight_sum (tuple_weights (int8_info m) True t))"
proof -
  have "agg_map_val (int8_info m) = v" "\<not> leaf_has_agg (int8_info m)"
    using assms(3) by (simp_all add: abt_fill_agg_info_def abt_compute_tuple_offsets_def Let_def)
  then show ?thesis
    using int82mul_of_nat [of "unat v" "ABTreeTupleGetNPosting t"] NPosting_bound [of t] assms
    by (simp add: fill_agg_info_fns tuple_weights_def agg_tuple_ok_def weight_sum_def sum_list_replicate nonneg_def mult.commute)
qed

text \<open>Tuples with non-negative weights; a constant map value is a weight too.\<close>

definition int8_tuple_ok :: "Datum option \<Rightarrow> bool \<Rightarrow> IndexTupleData \<Rightarrow> bool" where
  "int8_tuple_ok m is_leaf t =
     (agg_tuple_ok (int8_info m) is_leaf t \<and> (\<forall>v\<in>set (tuple_weights (int8_info m) is_leaf t). nonneg v))"

lemma accum_value_first: "abt_accum_value ai agg v True = Some v"
  by (simp add: abt_accum_value_def)

lemma const_weights:
  assumes "int8_tuple_ok m True t" and "\<not> leaf_has_agg (int8_info m)"
  shows "\<exists>v. m = Some v \<and> agg_map_val (int8_info m) = v \<and> nonneg v"
    and "\<not> ABTreeTupleIsPosting t \<Longrightarrow> tuple_weights (int8_info m) True t = [agg_map_val (int8_info m)]"
proof -
  have "tuple_tids t \<noteq> []" using assms(1) by (auto simp: int8_tuple_ok_def agg_tuple_ok_def split: if_splits)
  with assms show "\<exists>v. m = Some v \<and> agg_map_val (int8_info m) = v \<and> nonneg v"
    by (cases m) (auto simp: int8_tuple_ok_def tuple_weights_def abt_fill_agg_info_def abt_compute_tuple_offsets_def Let_def)
  show "\<not> ABTreeTupleIsPosting t \<Longrightarrow> tuple_weights (int8_info m) True t = [agg_map_val (int8_info m)]"
    using assms by (simp add: int8_tuple_ok_def agg_tuple_ok_def tuple_weights_def)
qed

lemma stored_weights:
  assumes "int8_tuple_ok m is_leaf t" and "\<not> (is_leaf \<and> \<not> leaf_has_agg (int8_info m))"
  shows "tuple_weights (int8_info m) is_leaf t = it_aggs t"
    and "ABTreeTupleIsPosting t \<Longrightarrow> length (it_aggs t) = ABTreeTupleGetNPosting t \<and> 2 \<le> ABTreeTupleGetNPosting t"
    and "\<not> ABTreeTupleIsPosting t \<Longrightarrow> \<exists>x. it_aggs t = [x]"
  using assms not_pivot_if_posting [of t]
  by (auto simp: int8_tuple_ok_def agg_tuple_ok_def tuple_weights_def length_Suc_conv split: if_splits)

lemma accum_tuple_int8:
  assumes ok: "int8_tuple_ok m is_leaf t" and x: "x < 2 ^ 63" "is_first \<longrightarrow> x = 0"
  shows "abt_accum_index_tuple_value (int8_info m) (of_nat x) t is_leaf is_first
    = int8_chk (x + weight_sum (tuple_weights (int8_info m) is_leaf t))"
proof -
  let ?ai = "int8_info m" and ?w = "tuple_weights (int8_info m) is_leaf t"
  have nn: "\<forall>v\<in>set ?w. nonneg v" using ok by (simp add: int8_tuple_ok_def)
  have acc: "abt_accum_value ?ai (of_nat x) v is_first = int8_chk (x + unat v)" if "nonneg v" for v
    using accum_value_int8 [OF x(1) that, of m] x(2) that by (cases is_first) (simp_all add: abt_accum_value_def int8_chk_def nonneg_def)
  have acc': "abt_accum_value ?ai (of_nat x) (of_nat n) is_first = int8_chk (x + n)" if "n < 2 ^ 63" for n
    using acc [of "of_nat n"] that by (simp add: nonneg_def unat_of_nat_small)
  show ?thesis
  proof (cases "is_leaf \<and> \<not> leaf_has_agg ?ai")
    case True
    then obtain v where v: "m = Some v" "agg_map_val ?ai = v" "nonneg v" using const_weights(1) [of m t] ok by auto
    show ?thesis
    proof (cases "ABTreeTupleIsPosting t")
      case post: True
      have "ABTreeComputeProductOfAggAndInt2 ?ai (agg_map_val ?ai) (of_nat (ABTreeTupleGetNPosting t)) = int8_chk (weight_sum ?w)"
        using product_int8 [OF _ post v(1,3)] ok True by (simp add: int8_tuple_ok_def)
      then show ?thesis
        using True post acc' [of "weight_sum ?w"]
        by (cases "weight_sum ?w < 2 ^ 63") (simp_all add: abt_accum_index_tuple_value_def int8_chk_def)
    next
      case False
      then show ?thesis
        using True const_weights(2) [of m t] ok acc v by (simp add: abt_accum_index_tuple_value_def)
    qed
  next
    case stored: False
    note w = stored_weights [OF ok stored]
    show ?thesis
    proof (cases "ABTreeTupleIsPosting t")
      case True
      then obtain y ys where y: "it_aggs t = y # ys" using w(2) by (cases "it_aggs t") auto
      have dt: "drop 1 (take (ABTreeTupleGetNPosting t) (it_aggs t)) = ys" "it_aggs t ! 0 = y" and ny: "nonneg y"
        using w True y nn by auto
      have "abt_accum_index_tuple_value ?ai (of_nat x) t is_leaf is_first
          = (case int8_chk (x + unat y) of None \<Rightarrow> None | Some a \<Rightarrow> accum_values ?ai ys a)"
        unfolding abt_accum_index_tuple_value_def if_not_P [OF stored] if_P [OF True] dt acc [OF ny] ..
      then show ?thesis
        using accum_values_int8 [of "x + unat y" ys m] nn
        by (cases "x + unat y < 2 ^ 63") (simp_all add: w(1) y int8_chk_def add.assoc del: of_nat_add)
    next
      case False
      then obtain y where "it_aggs t = [y]" using w(3) by blast
      then show ?thesis
        unfolding abt_accum_index_tuple_value_def if_not_P [OF stored]
        using False acc [of y] nn by (simp add: w(1))
    qed
  qed
qed

lemma accum_tuples_int8:
  assumes "x < 2 ^ 63" and "\<forall>t\<in>set ts. int8_tuple_ok m is_leaf t"
  shows "accum_tuples (int8_info m) is_leaf ts (of_nat x)
    = int8_chk (x + weight_sum (concat (map (tuple_weights (int8_info m) is_leaf) ts)))"
  using assms
proof (induction ts arbitrary: x)
  case (Cons t ts)
  let ?y = "x + weight_sum (tuple_weights (int8_info m) is_leaf t)"
  have "accum_tuples (int8_info m) is_leaf (t # ts) (of_nat x)
      = (case int8_chk ?y of None \<Rightarrow> None | Some a \<Rightarrow> accum_tuples (int8_info m) is_leaf ts a)"
    using accum_tuple_int8 [of m is_leaf t x False] Cons.prems by simp
  then show ?case
    using Cons.IH [of ?y] Cons.prems by (cases "?y < 2 ^ 63") (simp_all add: int8_chk_def add.assoc del: of_nat_add)
qed (simp add: int8_chk_def)

lemma accum_page_int8:
  assumes "2 \<le> length (page_data_tuples page)"
    and "\<forall>t\<in>set (page_data_tuples page). int8_tuple_ok m (ABT_P_ISLEAF (pd_special page)) t"
  shows "abt_accum_page_value (int8_info m) page
    = int8_chk (weight_sum (concat (map (tuple_weights (int8_info m) (ABT_P_ISLEAF (pd_special page))) (page_data_tuples page))))"
proof -
  let ?l = "ABT_P_ISLEAF (pd_special page)"
  obtain t t' ts' where ts': "page_data_tuples page = t # t' # ts'"
    using assms(1) by (cases "page_data_tuples page" rule: remdups_adj.cases) auto
  define ts where "ts = t' # ts'"
  have ts: "page_data_tuples page = t # ts" by (simp add: ts' ts_def)
  let ?y = "weight_sum (tuple_weights (int8_info m) ?l t)"
  have "abt_accum_page_value (int8_info m) page
      = (case int8_chk ?y of None \<Rightarrow> None | Some a \<Rightarrow> accum_tuples (int8_info m) ?l ts a)"
    using accum_tuple_int8 [of m ?l t 0 True] assms(2) unfolding ts_def by (simp add: abt_accum_page_value_def Let_def ts')
  then show ?thesis
    using accum_tuples_int8 [of ?y ts m ?l] assms(2) by (cases "?y < 2 ^ 63") (simp_all add: int8_chk_def ts)
qed

lemma exclude_values_int8:
  assumes "x + weight_sum vs < 2 ^ 63" and "\<forall>v\<in>set vs. nonneg v"
  shows "exclude_values (int8_info m) vs (of_nat (x + weight_sum vs)) = Some (of_nat x)"
  using assms
proof (induction vs)
  case (Cons v vs)
  have "abt_exclude_value (int8_info m) (of_nat (x + weight_sum (v # vs))) v = Some (of_nat (x + weight_sum vs))"
    using int8mi_of_nat [of "x + weight_sum (v # vs)" "unat v"] Cons.prems
    by (simp add: abt_exclude_value_def fill_agg_info_fns)
  then show ?case using Cons by (simp del: of_nat_add weight_sum_simps) (simp del: of_nat_add)
qed simp

lemma exclude_accum_int8:
  assumes ok: "int8_tuple_ok m is_leaf t" and x: "x + weight_sum (tuple_weights (int8_info m) is_leaf t) < 2 ^ 63"
  shows "abt_exclude_index_tuple_value (int8_info m)
    (of_nat (x + weight_sum (tuple_weights (int8_info m) is_leaf t))) t is_leaf = Some (of_nat x)"
proof -
  let ?ai = "int8_info m" and ?w = "tuple_weights (int8_info m) is_leaf t"
  have nn: "\<forall>v\<in>set ?w. nonneg v" using ok by (simp add: int8_tuple_ok_def)
  have exv: "abt_exclude_value ?ai (of_nat (x + n)) (of_nat n) = Some (of_nat x)" if "x + n < 2 ^ 63" for n
    using int8mi_of_nat [of "x + n" n] that by (simp add: abt_exclude_value_def fill_agg_info_fns)
  show ?thesis
  proof (cases "is_leaf \<and> \<not> leaf_has_agg ?ai")
    case True
    then obtain v where v: "m = Some v" "agg_map_val ?ai = v" "nonneg v" using const_weights(1) [of m t] ok by auto
    show ?thesis
    proof (cases "ABTreeTupleIsPosting t")
      case post: True
      have "ABTreeComputeProductOfAggAndInt2 ?ai (agg_map_val ?ai) (of_nat (ABTreeTupleGetNPosting t)) = int8_chk (weight_sum ?w)"
        using product_int8 [OF _ post v(1,3)] ok True by (simp add: int8_tuple_ok_def)
      then show ?thesis
        using True post exv [of "weight_sum ?w"] x
        by (simp add: abt_exclude_index_tuple_value_def int8_chk_def del: of_nat_add)
    next
      case False
      then have "?w = [v]" using True const_weights(2) [of m t] ok v by simp
      then show ?thesis
        using True False exv [of "unat v"] x v by (simp add: abt_exclude_index_tuple_value_def)
    qed
  next
    case stored: False
    note w = stored_weights [OF ok stored]
    show ?thesis
    proof (cases "ABTreeTupleIsPosting t")
      case True
      then have "take (ABTreeTupleGetNPosting t) (it_aggs t) = it_aggs t" using w(2) by simp
      then show ?thesis
        unfolding abt_exclude_index_tuple_value_def if_not_P [OF stored]
        using True exclude_values_int8 [of x "it_aggs t" m] x nn by (simp add: w(1) del: of_nat_add)
    next
      case False
      then obtain y where "it_aggs t = [y]" using w(3) by blast
      then show ?thesis
        unfolding abt_exclude_index_tuple_value_def if_not_P [OF stored]
        using False exv [of "unat y"] x by (simp add: w(1))
    qed
  qed
qed

section \<open>Space for the aggregate in a pivot tuple\<close>

lemma purge_reserve_size:
  assumes "IndexTupleSize t mod 8 = 0" and "8 \<le> IndexTupleSize t"
    and "IndexTupleSize t + extra_space_when_tid_present ai < 2 ^ 13" "IndexTupleSize t + extra_space_when_tid_missing ai < 2 ^ 13"
  shows "IndexTupleSize (abt_pivot_tuple_purge_agg_space (abt_pivot_tuple_reserve_agg_space g t ai) ai) = IndexTupleSize t"
proof -
  obtain k where k: "IndexTupleSize t = 8 * k" using assms(1) by (metis mod_0_imp_dvd dvd_def)
  have d: "MAXALIGN_DOWN (IndexTupleSize t - 6) = IndexTupleSize t - 8"
    using assms(2) unfolding k MAXALIGN_DOWN_def by (cases k) simp_all
  have u: "MAXALIGN (IndexTupleSize t - 2) = IndexTupleSize t"
    using assms(2) unfolding k MAXALIGN_def by (cases k) simp_all
  have u': "IndexTupleSize t - 8 + 6 = IndexTupleSize t - 2" using assms(2) by simp
  have h: "ABTPivotTupleHasHeapTID (set_tuple_size n (t\<lparr>it_aggs := a, it_last_update_id := l\<rparr>)) = ABTPivotTupleHasHeapTID t" for n a l
    by (simp add: ABTPivotTupleHasHeapTID_def)
  have s: "IndexTupleSize t - 8 + extra_space_when_tid_present ai < 2 ^ 13" using assms(3) by simp
  show ?thesis
  proof (cases "ABTPivotTupleHasHeapTID t")
    case True
    then show ?thesis
      using assms(2) d u u' s IndexTupleSize_bound [of t]
      by (simp add: abt_pivot_tuple_purge_agg_space_def abt_pivot_tuple_reserve_agg_space_def Let_def h set_tuple_size_size)
  next
    case False
    then show ?thesis
      using assms(4)
      by (simp add: abt_pivot_tuple_purge_agg_space_def abt_pivot_tuple_reserve_agg_space_def Let_def h set_tuple_size_size)
  qed
qed

section \<open>Properties\<close>

definition ex_int8_page :: PageData where
  "ex_int8_page = \<lparr>pd_linp = map (\<lambda>t. \<lparr>lp_dead = False, lp_len = IndexTupleSize t, pi_tup = t\<rparr>)
       [ex_plain8 2, ex_posting8],
     pd_special = \<lparr>abtpo_prev = 0, abtpo_next = 0, abtpo_level = 0, abtpo_flags = 1,
       abtpo_cycleid = 0, abtpo_last_update_id = 0\<rparr>\<rparr>"

lemma ex_int8_page_ok:
  "page_data_tuples ex_int8_page = [ex_plain8 2, ex_posting8]" "ABT_P_ISLEAF (pd_special ex_int8_page)"
  "int8_tuple_ok None True (ex_plain8 2)" "int8_tuple_ok None True ex_posting8"
  by code_simp+

text \<open>
  C24. The aggregate of a page is exactly the sum of the weights of its items. For a leaf or internal
  page with at least two data items (the routine asserts that there are two) and bigint weights that
  are not negative, accumulating the values of all data items gives the sum when it is less than
  2^63, and the error "bigint out of range" in every other case; the product that replaces the values
  of a posting list of constant weight changes nothing.
\<close>

theorem abt_accum_page_value_sum:
  assumes "2 \<le> length (page_data_tuples page)"
    and "\<forall>t\<in>set (page_data_tuples page). int8_tuple_ok m (ABT_P_ISLEAF (pd_special page)) t"
  shows "abt_accum_page_value (abt_fill_agg_info INT8OID m) page
    = (let total = (\<Sum>v\<leftarrow>concat (map (tuple_weights (abt_fill_agg_info INT8OID m) (ABT_P_ISLEAF (pd_special page)))
                              (page_data_tuples page)). unat v)
       in if total < 2 ^ 63 then Some (of_nat total) else None)"
  using accum_page_int8 [OF assms] by (simp add: int8_chk_def weight_sum_def Let_def)

theorem abt_accum_page_value_sum_witness:
  "abt_accum_page_value (abt_fill_agg_info INT8OID None) ex_int8_page
    = (let total = (\<Sum>v\<leftarrow>concat (map (tuple_weights (abt_fill_agg_info INT8OID None) (ABT_P_ISLEAF (pd_special ex_int8_page)))
                              (page_data_tuples ex_int8_page)). unat v)
       in if total < 2 ^ 63 then Some (of_nat total) else None)"
  by (rule abt_accum_page_value_sum) (simp_all add: ex_int8_page_ok)

text \<open>
  C27. Excluding a tuple undoes accumulating it, for bigint aggregates, a tuple whose weights are not
  negative and an aggregate that is not negative: whenever the values of the tuple have been added to
  the aggregate without an error, subtracting them again succeeds, without an intermediate overflow,
  and gives the aggregate back. (With negative weights the exclusion can overflow where the
  accumulation did not, because the partial sums differ.)
\<close>

theorem abt_exclude_accum_roundtrip:
  assumes "int8_tuple_ok m is_leaf t" and "nonneg agg"
    and "abt_accum_index_tuple_value (abt_fill_agg_info INT8OID m) agg t is_leaf False = Some agg'"
  shows "abt_exclude_index_tuple_value (abt_fill_agg_info INT8OID m) agg' t is_leaf = Some agg"
proof -
  have "int8_chk (unat agg + weight_sum (tuple_weights (int8_info m) is_leaf t)) = Some agg'"
    using accum_tuple_int8 [OF assms(1), of "unat agg" False] assms(2,3) by (simp add: nonneg_def)
  then show ?thesis
    using exclude_accum_int8 [OF assms(1), of "unat agg"] by (auto simp: int8_chk_def split: if_splits)
qed

theorem abt_exclude_accum_roundtrip_witness:
  "\<exists>agg'. abt_accum_index_tuple_value (abt_fill_agg_info INT8OID None) 7 ex_posting8 True False = Some agg'
     \<and> abt_exclude_index_tuple_value (abt_fill_agg_info INT8OID None) agg' ex_posting8 True = Some 7"
proof -
  have "abt_accum_index_tuple_value (abt_fill_agg_info INT8OID None) 7 ex_posting8 True False = Some 117" "nonneg 7"
    by code_simp+
  then show ?thesis using abt_exclude_accum_roundtrip [OF ex_int8_page_ok(4)] by blast
qed

end
