(* ===== verification/Version_Store.thy ===== *)
theory Version_Store
  imports Snapshot Agg
begin

unbundle bit_operations_syntax

text \<open>
  The version store (\<^verbatim>\<open>abtversionstore.c\<close>). The aggregate stored with a downlink counts every item
  below it, whoever inserted it. For each downlink the store keeps a chain of nodes, one per recent
  transaction, with what that transaction added; a reader subtracts the nodes of the transactions
  its snapshot does not see. A chain is the list of its nodes from the head, in descending order of
  \<^verbatim>\<open>xmin\<close>; the marks on chain heads, which only arbitrate between concurrent garbage collection and
  insertion, do not appear.
\<close>

section \<open>Nodes, keys and chains\<close>

record ABTVSNode =
  vs_xmin :: TransactionId
  vs_delta :: Datum

type_synonym abtvs_key = "64 word"
type_synonym version_store = "abtvs_key \<Rightarrow> ABTVSNode list option"

definition ABTVS_KEY :: "32 word \<Rightarrow> BlockNumber \<Rightarrow> abtvs_key" where
  "ABTVS_KEY oid blkno = push_bit 32 (ucast oid) OR ucast blkno"

definition ABTVS_KEY_GET_OID :: "abtvs_key \<Rightarrow> 32 word" where
  "ABTVS_KEY_GET_OID key = ucast (drop_bit 32 key)"

definition ABTVS_KEY_GET_BLKNO :: "abtvs_key \<Rightarrow> BlockNumber" where
  "ABTVS_KEY_GET_BLKNO key = ucast key"

text \<open>The atomic reads of an aggregation value and of the value of a node, by length of the type.\<close>

definition abt_atomic_read_agg_ptr :: "Datum \<Rightarrow> ABTCachedAggInfo \<Rightarrow> 64 word" where
  "abt_atomic_read_agg_ptr d agg_info =
     (if agg_typlen agg_info = 8 then d
      else if agg_typlen agg_info = 4 then ucast (ucast d :: 32 word)
      else ucast (ucast (ucast d :: 32 word) :: 16 word))"

definition node_delta :: "ABTCachedAggInfo \<Rightarrow> ABTVSNode \<Rightarrow> 64 word" where
  "node_delta agg_info node =
     (if agg_typlen agg_info = 8 then vs_delta node
      else if agg_typlen agg_info = 4 then ucast (ucast (vs_delta node) :: 32 word)
      else ucast (ucast (ucast (vs_delta node) :: 32 word) :: 16 word))"

definition abtvs_find_chain_head :: "version_store \<Rightarrow> abtvs_key \<Rightarrow> ABTVSNode list" where
  "abtvs_find_chain_head vs key = (case vs key of None \<Rightarrow> [] | Some chain \<Rightarrow> chain)"

definition abtvs_get_node_if_safe :: "ABTVSNode list \<Rightarrow> TransactionId \<Rightarrow> ABTVSNode list option" where
  "abtvs_get_node_if_safe node oldestXmin =
     (case node of
        [] \<Rightarrow> None
      | n # _ \<Rightarrow> if TransactionIdPrecedes (vs_xmin n) oldestXmin then None else Some node)"

text \<open>The search of \<^verbatim>\<open>_abtvs_find_or_create_node\<close>: the position of the node in the chain and the chain
  in which it is linked.\<close>

fun find_or_create_loop :: "TransactionId \<Rightarrow> ABTVSNode list \<Rightarrow> nat \<times> ABTVSNode list" where
  "find_or_create_loop xmin [] = (0, [\<lparr>vs_xmin = xmin, vs_delta = 0\<rparr>])"
| "find_or_create_loop xmin (cur # chain) =
     (if vs_xmin cur = xmin then (0, cur # chain)
      else if NormalTransactionIdPrecedes (vs_xmin cur) xmin then
        (0, \<lparr>vs_xmin = xmin, vs_delta = 0\<rparr> # cur # chain)
      else
        let (i, chain') = find_or_create_loop xmin chain in (i + 1, cur # chain'))"

definition abtvs_find_or_create_node ::
  "version_store \<Rightarrow> abtvs_key \<Rightarrow> TransactionId \<Rightarrow> nat \<times> ABTVSNode list" where
  "abtvs_find_or_create_node vs key xmin = find_or_create_loop xmin (abtvs_find_chain_head vs key)"

definition add_delta :: "ABTCachedAggInfo \<Rightarrow> Datum \<Rightarrow> Datum \<Rightarrow> Datum" where
  "add_delta agg_info delta dval =
     (if agg_typlen agg_info = 8 then delta + dval
      else if agg_typlen agg_info = 4 then
        (delta AND NOT (mask 32)) OR ucast ((ucast delta :: 32 word) + DatumGetInt32 dval)
      else
        (delta AND NOT (mask 32)) OR ucast ((ucast delta :: 32 word) + scast (DatumGetInt16 dval)))"

definition abt_add_to_version ::
  "version_store \<Rightarrow> 32 word \<Rightarrow> BlockNumber \<Rightarrow> TransactionId \<Rightarrow> Datum \<Rightarrow> ABTCachedAggInfo \<Rightarrow> version_store" where
  "abt_add_to_version vs index_id blkno xmin dval agg_info =
     (let key = ABTVS_KEY index_id blkno;
          (i, chain) = abtvs_find_or_create_node vs key xmin;
          node = chain ! i
      in vs(key \<mapsto> chain[i := node\<lparr>vs_delta := add_delta agg_info (vs_delta node) dval\<rparr>]))"

definition abtvs_replace_chain_head :: "version_store \<Rightarrow> abtvs_key \<Rightarrow> ABTVSNode list \<Rightarrow> version_store" where
  "abtvs_replace_chain_head vs key new_head =
     (if new_head = [] \<and> vs key = None then vs else vs(key \<mapsto> new_head))"

definition abt_install_version_chain ::
  "version_store \<Rightarrow> 32 word \<Rightarrow> BlockNumber \<Rightarrow> ABTVSNode list \<Rightarrow> version_store" where
  "abt_install_version_chain vs index_id blkno chain =
     abtvs_replace_chain_head vs (ABTVS_KEY index_id blkno) chain"

section \<open>Reading an aggregate under a snapshot\<close>

text \<open>The inner loop of \<^verbatim>\<open>_abtvs_exclude_agg_in_snapshot\<close> that advances in the \<^verbatim>\<open>xip\<close> array.\<close>

function skip_xip :: "TransactionId list \<Rightarrow> TransactionId \<Rightarrow> nat \<Rightarrow> nat" where
  "skip_xip xip xmin i =
     (if i < length xip \<and> NormalTransactionIdPrecedes xmin (xip ! i) then skip_xip xip xmin (i + 1) else i)"
  by pat_completeness auto
termination by (relation "measure (\<lambda>(xip, _, i). length xip - i)") auto

declare skip_xip.simps [simp del]

primrec exclude_loop ::
  "ABTCachedAggInfo \<Rightarrow> ABTSnapshotData \<Rightarrow> ABTVSNode list \<Rightarrow> nat \<Rightarrow> 64 word \<Rightarrow> 64 word" where
  "exclude_loop agg_info s [] i agg = agg"
| "exclude_loop agg_info s (cur # chain) i agg =
     (if NormalTransactionIdPrecedes (vs_xmin cur) (s_xmin s) then agg
      else if NormalTransactionIdPrecedes (vs_xmin cur) (s_xmax s) then
        let i' = skip_xip (s_xip s) (vs_xmin cur) i
        in if i' < length (s_xip s) \<and> vs_xmin cur = s_xip s ! i'
           then exclude_loop agg_info s chain (i' + 1) (agg - node_delta agg_info cur)
           else exclude_loop agg_info s chain i' agg
      else exclude_loop agg_info s chain i (agg - node_delta agg_info cur))"

definition abtvs_exclude_agg_in_snapshot ::
  "version_store \<Rightarrow> abtvs_key \<Rightarrow> 64 word \<Rightarrow> ABTSnapshotData option \<Rightarrow> ABTCachedAggInfo \<Rightarrow> 64 word" where
  "abtvs_exclude_agg_in_snapshot vs key agg snapshot agg_info =
     (case snapshot of
        None \<Rightarrow> agg
      | Some s \<Rightarrow> exclude_loop agg_info s (abtvs_find_chain_head vs key) 0 agg)"

definition abt_read_agg ::
  "bool \<Rightarrow> version_store \<Rightarrow> 32 word \<Rightarrow> IndexTupleData \<Rightarrow> ABTSnapshotData option \<Rightarrow> ABTCachedAggInfo \<Rightarrow> 64 word" where
  "abt_read_agg abtree_read_agg_bypass_version_store vs index_id itup snapshot agg_info =
     (let agg = abt_atomic_read_agg_ptr (it_aggs itup ! 0) agg_info
      in if \<not> abtree_read_agg_bypass_version_store
         then abtvs_exclude_agg_in_snapshot vs (ABTVS_KEY index_id (ABTreeTupleGetDownLink itup)) agg
                snapshot agg_info
         else agg)"

section \<open>The heap of \<^verbatim>\<open>_abtvs_push_xmin_max_heap\<close>\<close>

text \<open>The array is the list of its elements; position \<open>i\<close> of the source is index \<open>i - 1\<close>.\<close>

definition larger_child :: "('e \<Rightarrow> TransactionId) \<Rightarrow> 'e list \<Rightarrow> nat \<Rightarrow> nat" where
  "larger_child get_xmin h i =
     (let j = 2 * i
      in if j < length h \<and> NormalTransactionIdPrecedes (get_xmin (h ! (j - 1))) (get_xmin (h ! j))
         then j + 1 else j)"

function abtvs_push_xmin_max_heap :: "('e \<Rightarrow> TransactionId) \<Rightarrow> 'e list \<Rightarrow> nat \<Rightarrow> 'e list" where
  "abtvs_push_xmin_max_heap get_xmin h i =
     (if 1 \<le> i \<and> i \<le> length h div 2 then
        let j = larger_child get_xmin h i
        in if NormalTransactionIdPrecedes (get_xmin (h ! (i - 1))) (get_xmin (h ! (j - 1)))
           then abtvs_push_xmin_max_heap get_xmin (h[i - 1 := h ! (j - 1), j - 1 := h ! (i - 1)]) j
           else h
      else h)"
  by pat_completeness auto
termination
proof (relation "measure (\<lambda>(_, h, i). length h - i)")
  fix get_xmin :: "'e \<Rightarrow> TransactionId" and h :: "'e list" and i j
  assume i: "1 \<le> i \<and> i \<le> length h div 2" and j: "j = larger_child get_xmin h i"
  have "2 * i \<le> j" by (simp add: j larger_child_def Let_def)
  moreover have "2 * i \<le> length h" using i by linarith
  ultimately have "length h - j < length h - i" using i by linarith
  then show "((get_xmin, h[i - 1 := h ! (j - 1), j - 1 := h ! (i - 1)], j), get_xmin, h, i)
      \<in> measure (\<lambda>(_, h, i). length h - i)"
    by simp
qed simp

declare abtvs_push_xmin_max_heap.simps [simp del]

fun make_heap_loop :: "('e \<Rightarrow> TransactionId) \<Rightarrow> 'e list \<Rightarrow> nat \<Rightarrow> 'e list" where
  "make_heap_loop get_xmin h 0 = h"
| "make_heap_loop get_xmin h (Suc i) = make_heap_loop get_xmin (abtvs_push_xmin_max_heap get_xmin h (Suc i)) i"

definition abtvs_make_xmin_max_heap :: "('e \<Rightarrow> TransactionId) \<Rightarrow> 'e list \<Rightarrow> 'e list" where
  "abtvs_make_xmin_max_heap get_xmin h = make_heap_loop get_xmin h (length h div 2)"

section \<open>The aggregate and the version chain of a page\<close>

text \<open>An element of the heap: an item of a leaf page, given by its offset number and its position in
  a posting list, or a node, given by the rest of the chain that starts with it.\<close>

datatype vs_ref = LeafRef nat "nat option" | NodeRef "ABTVSNode list"

definition abtvs_itup_get_xmin :: "PageData \<Rightarrow> vs_ref \<Rightarrow> TransactionId" where
  "abtvs_itup_get_xmin page ref =
     (case ref of
        LeafRef off postingoff \<Rightarrow>
          it_xmins (PageGetItem page off) ! (case postingoff of Some p \<Rightarrow> p | None \<Rightarrow> 0)
      | NodeRef chain \<Rightarrow> vs_xmin (hd chain))"

definition ref_item_agg :: "ABTCachedAggInfo \<Rightarrow> PageData \<Rightarrow> vs_ref \<Rightarrow> Datum" where
  "ref_item_agg agg_info page ref =
     (case ref of
        LeafRef off postingoff \<Rightarrow>
          if leaf_has_agg agg_info
          then it_aggs (PageGetItem page off) ! (case postingoff of Some p \<Rightarrow> p | None \<Rightarrow> 0)
          else agg_map_val agg_info
      | NodeRef chain \<Rightarrow> vs_delta (hd chain))"

text \<open>The items of a leaf page in the order of the loop.\<close>

definition leaf_refs :: "PageData \<Rightarrow> vs_ref list" where
  "leaf_refs page =
     concat (map (\<lambda>off. if ABTreeTupleIsPosting (PageGetItem page off)
                        then map (\<lambda>p. LeafRef off (Some p)) [0..<ABTreeTupleGetNPosting (PageGetItem page off)]
                        else [LeafRef off None])
       [ABT_P_FIRSTDATAKEY (pd_special page)..<PageGetMaxOffsetNumber page + 1])"

primrec collect_leaf ::
  "ABTCachedAggInfo \<Rightarrow> TransactionId \<Rightarrow> PageData \<Rightarrow> vs_ref list \<Rightarrow> Datum \<Rightarrow> vs_ref list
     \<Rightarrow> (Datum \<times> vs_ref list) option" where
  "collect_leaf agg_info RecentGlobalDataXmin page [] agg heap = Some (agg, heap)"
| "collect_leaf agg_info RecentGlobalDataXmin page (ref # refs) agg heap =
     (let xmin = abtvs_itup_get_xmin page ref
      in if \<not> TransactionIdIsValid xmin then collect_leaf agg_info RecentGlobalDataXmin page refs agg heap
         else
           case abt_accum_value agg_info agg (ref_item_agg agg_info page ref) False of
             None \<Rightarrow> None
           | Some agg' \<Rightarrow>
               if TransactionIdPrecedes xmin RecentGlobalDataXmin
               then collect_leaf agg_info RecentGlobalDataXmin page refs agg' heap
               else collect_leaf agg_info RecentGlobalDataXmin page refs agg' (heap @ [ref]))"

primrec collect_internal ::
  "ABTCachedAggInfo \<Rightarrow> TransactionId \<Rightarrow> version_store \<Rightarrow> 32 word \<Rightarrow> IndexTupleData list \<Rightarrow> Datum
     \<Rightarrow> vs_ref list \<Rightarrow> (Datum \<times> vs_ref list) option" where
  "collect_internal agg_info RecentGlobalDataXmin vs index_id [] agg heap = Some (agg, heap)"
| "collect_internal agg_info RecentGlobalDataXmin vs index_id (itup # itups) agg heap =
     (let node = abtvs_find_chain_head vs (ABTVS_KEY index_id (ABTreeTupleGetDownLink itup));
          heap' = (case abtvs_get_node_if_safe node RecentGlobalDataXmin of
                     None \<Rightarrow> heap | Some node \<Rightarrow> heap @ [NodeRef node])
      in case abt_accum_index_tuple_value agg_info agg itup False False of
           None \<Rightarrow> None
         | Some agg' \<Rightarrow> collect_internal agg_info RecentGlobalDataXmin vs index_id itups agg' heap')"

text \<open>One step of the loop that builds the chain: the value is added to the tail or to a new node.\<close>

definition add_to_tail ::
  "ABTCachedAggInfo \<Rightarrow> TransactionId \<Rightarrow> Datum \<Rightarrow> ABTVSNode list \<Rightarrow> ABTVSNode list option" where
  "add_to_tail agg_info xmin item_agg chain =
     (let tail_xmin = (if chain = [] then InvalidTransactionId else vs_xmin (last chain))
      in if xmin = tail_xmin then
           map_option (\<lambda>d. butlast chain @ [(last chain)\<lparr>vs_delta := d\<rparr>])
             (agg_add_fn agg_info (vs_delta (last chain)) item_agg)
         else Some (chain @ [\<lparr>vs_xmin = xmin, vs_delta = item_agg\<rparr>]))"

text \<open>What replaces the heap top: the next node of its chain, if that is safe.\<close>

definition next_ref :: "TransactionId \<Rightarrow> vs_ref \<Rightarrow> vs_ref option" where
  "next_ref RecentGlobalDataXmin ref =
     (case ref of
        LeafRef _ _ \<Rightarrow> None
      | NodeRef chain \<Rightarrow> map_option NodeRef (abtvs_get_node_if_safe (tl chain) RecentGlobalDataXmin))"

definition pop_heap :: "('e \<Rightarrow> TransactionId) \<Rightarrow> 'e option \<Rightarrow> 'e list \<Rightarrow> 'e list" where
  "pop_heap get_xmin nxt heap =
     (case nxt of
        None \<Rightarrow> if length heap = 1 then [] else abtvs_push_xmin_max_heap get_xmin ((butlast heap)[0 := last heap]) 1
      | Some ref \<Rightarrow> abtvs_push_xmin_max_heap get_xmin (heap[0 := ref]) 1)"

definition ref_size :: "vs_ref \<Rightarrow> nat" where
  "ref_size ref = (case ref of LeafRef _ _ \<Rightarrow> 1 | NodeRef chain \<Rightarrow> Suc (length chain))"

lemma mset_swap: "i < length h \<Longrightarrow> j < length h \<Longrightarrow> mset (h[i := h ! j, j := h ! i]) = mset h"
  by (cases "i = j") (simp_all add: mset_swap)

lemma larger_child_bounds:
  assumes "1 \<le> i" and "i \<le> length h div 2"
  shows "2 * i \<le> larger_child g h i" "larger_child g h i \<le> length h" "larger_child g h i \<le> 2 * i + 1" "i < larger_child g h i"
proof -
  have "2 * i \<le> length h" using assms(2) by linarith
  with assms(1) show "2 * i \<le> larger_child g h i" "larger_child g h i \<le> length h" "larger_child g h i \<le> 2 * i + 1"
    "i < larger_child g h i"
    by (auto simp: larger_child_def Let_def)
qed

lemma push_cases:
  "\<not> (1 \<le> i \<and> i \<le> length h div 2) \<Longrightarrow> abtvs_push_xmin_max_heap g h i = h"
  "1 \<le> i \<Longrightarrow> i \<le> length h div 2 \<Longrightarrow> j = larger_child g h i
     \<Longrightarrow> \<not> NormalTransactionIdPrecedes (g (h ! (i - 1))) (g (h ! (j - 1)))
     \<Longrightarrow> abtvs_push_xmin_max_heap g h i = h"
  "1 \<le> i \<Longrightarrow> i \<le> length h div 2 \<Longrightarrow> j = larger_child g h i
     \<Longrightarrow> NormalTransactionIdPrecedes (g (h ! (i - 1))) (g (h ! (j - 1)))
     \<Longrightarrow> abtvs_push_xmin_max_heap g h i = abtvs_push_xmin_max_heap g (h[i - 1 := h ! (j - 1), j - 1 := h ! (i - 1)]) j"
  using abtvs_push_xmin_max_heap.simps [of g h i] by (auto simp only: Let_def if_True if_False simp_thms)

lemma mset_push: "mset (abtvs_push_xmin_max_heap g h i) = mset h"
proof (induction g h i rule: abtvs_push_xmin_max_heap.induct)
  case (1 g h i)
  show ?case
  proof (cases "1 \<le> i \<and> i \<le> length h div 2")
    case True
    let ?j = "larger_child g h i"
    note b = larger_child_bounds [of i h g]
    have ij: "i - 1 < length h" "?j - 1 < length h" using True b by linarith+
    have t: "1 \<le> i" "i \<le> length h div 2" using True by simp_all
    show ?thesis
      using 1 [OF True refl] mset_swap [OF ij] push_cases(2,3) [OF t refl, of g]
      by (cases "NormalTransactionIdPrecedes (g (h ! (i - 1))) (g (h ! (?j - 1)))") simp_all
  next
    case False
    show ?thesis unfolding push_cases(1) [OF False] ..
  qed
qed

lemma length_push [simp]: "length (abtvs_push_xmin_max_heap g h i) = length h"
  by (metis mset_push size_mset)

lemma mset_pop_heap:
  assumes "heap \<noteq> []"
  shows "mset (pop_heap g nxt heap) = mset heap - {#hd heap#} + (case nxt of None \<Rightarrow> {#} | Some r \<Rightarrow> {#r#})"
proof -
  obtain x xs where h: "heap = x # xs" using assms by (cases heap) auto
  show ?thesis
  proof (cases nxt)
    case None
    show ?thesis
    proof (cases xs rule: rev_cases)
      case Nil
      then show ?thesis using None h by (simp add: pop_heap_def)
    next
      case (snoc ys y)
      then show ?thesis using None h by (cases ys) (simp_all add: pop_heap_def mset_push)
    qed
  qed (simp add: pop_heap_def mset_push h)
qed

section \<open>Heap order\<close>

text \<open>\<open>v\<close> gives the rank of the element at each position. Below position \<open>m\<close> every element is at most its
  parent; in the second predicate position \<open>i\<close> may violate this towards its children.\<close>

definition heap_rank :: "(nat \<Rightarrow> nat) \<Rightarrow> nat \<Rightarrow> nat \<Rightarrow> bool" where
  "heap_rank v n m = (\<forall>c. 2 \<le> c \<and> c \<le> n \<and> m \<le> c div 2 \<longrightarrow> v c \<le> v (c div 2))"

definition heap_hole :: "(nat \<Rightarrow> nat) \<Rightarrow> nat \<Rightarrow> nat \<Rightarrow> nat \<Rightarrow> bool" where
  "heap_hole v n m i =
     (\<forall>c. 2 \<le> c \<and> c \<le> n \<and> m \<le> c div 2 \<longrightarrow>
        (c div 2 \<noteq> i \<longrightarrow> v c \<le> v (c div 2)) \<and> (c div 2 = i \<and> m \<le> i div 2 \<longrightarrow> v c \<le> v (i div 2)))"

definition heap_val :: "TransactionId \<Rightarrow> ('e \<Rightarrow> TransactionId) \<Rightarrow> 'e list \<Rightarrow> nat \<Rightarrow> nat" where
  "heap_val b g h c = xid_rank b (g (h ! (c - 1)))"

lemma heap_hole_close:
  assumes "heap_hole v n m i" and "\<And>c. 2 \<le> c \<Longrightarrow> c \<le> n \<Longrightarrow> c div 2 = i \<Longrightarrow> v c \<le> v i"
  shows "heap_rank v n m"
  using assms unfolding heap_hole_def heap_rank_def by metis

lemma heap_hole_down:
  assumes hole: "heap_hole v n m i" and m: "m \<le> i" and j: "j div 2 = i" "2 \<le> j" "j \<le> n"
    and v': "\<And>c. 1 \<le> c \<Longrightarrow> v' c = (if c = i then v j else if c = j then v i else v c)"
    and mx: "\<And>c. 2 \<le> c \<Longrightarrow> c \<le> n \<Longrightarrow> c div 2 = i \<Longrightarrow> v c \<le> v j" and less: "v i < v j"
  shows "heap_hole v' n m j"
  unfolding heap_hole_def
proof (intro allI impI)
  fix c
  assume c: "2 \<le> c \<and> c \<le> n \<and> m \<le> c div 2"
  have ij: "1 \<le> i" "i < j" "i div 2 < i" using j by linarith+
  have p1: "1 \<le> c div 2" "1 \<le> c" "c div 2 < c" using c by linarith+
  have A: "c div 2 \<noteq> i \<longrightarrow> v c \<le> v (c div 2)" "c div 2 = i \<and> m \<le> i div 2 \<longrightarrow> v c \<le> v (i div 2)"
    using hole c unfolding heap_hole_def by blast+
  have B: "m \<le> i div 2 \<longrightarrow> v j \<le> v (i div 2)"
    using hole j m unfolding heap_hole_def by (metis order.trans)
  have "v' c \<le> v' (c div 2)" if "c div 2 \<noteq> j"
  proof (cases "c = i")
    case True
    then show ?thesis using B c ij p1 that by (simp add: v')
  next
    case ci: False
    show ?thesis
    proof (cases "c div 2 = i")
      case True
      have "v c \<le> v j" using mx c True by simp
      then show ?thesis using True ij less p1 by (auto simp: v')
    next
      case False
      then have "c \<noteq> j" using j(1) by auto
      then show ?thesis using A(1) False ci that p1 by (simp add: v')
    qed
  qed
  moreover have "v' c \<le> v' (j div 2)" if "c div 2 = j" "m \<le> j div 2"
  proof -
    have "c \<noteq> i" "c \<noteq> j" "c div 2 \<noteq> i" using that(1) ij by auto
    then have "v c \<le> v j" using A(1) that(1) by simp
    then show ?thesis using that(1) j(1) ij p1 \<open>c \<noteq> i\<close> \<open>c \<noteq> j\<close> by (simp add: v')
  qed
  ultimately show "(c div 2 \<noteq> j \<longrightarrow> v' c \<le> v' (c div 2)) \<and> (c div 2 = j \<and> m \<le> j div 2 \<longrightarrow> v' c \<le> v' (j div 2))"
    by blast
qed

lemma heap_val_precedes:
  assumes "\<forall>e\<in>set h. in_window b (g e)" and "1 \<le> c" "c \<le> length h" "1 \<le> d" "d \<le> length h"
  shows "NormalTransactionIdPrecedes (g (h ! (c - 1))) (g (h ! (d - 1))) \<longleftrightarrow> heap_val b g h c < heap_val b g h d"
proof -
  have "c - 1 < length h" "d - 1 < length h" using assms(2-5) by linarith+
  then have "h ! (c - 1) \<in> set h" "h ! (d - 1) \<in> set h" by simp_all
  then show ?thesis using assms(1) by (simp add: heap_val_def normal_precedes_rank [of b])
qed

lemma larger_child_max:
  assumes win: "\<forall>e\<in>set h. in_window b (g e)" and i: "1 \<le> i" "i \<le> length h div 2"
    and c: "2 \<le> c" "c \<le> length h" "c div 2 = i"
  shows "heap_val b g h c \<le> heap_val b g h (larger_child g h i)"
proof -
  have c2: "c = 2 * i \<or> c = 2 * i + 1" using c(3) by linarith
  show ?thesis
  proof (cases "2 * i < length h")
    case True
    have "NormalTransactionIdPrecedes (g (h ! (2 * i - 1))) (g (h ! (2 * i)))
        \<longleftrightarrow> heap_val b g h (2 * i) < heap_val b g h (2 * i + 1)"
      using heap_val_precedes [OF win, of "2 * i" "2 * i + 1"] True i by simp
    then show ?thesis using c2 True by (auto simp: larger_child_def Let_def)
  next
    case False
    then show ?thesis using c2 c(2) by (auto simp: larger_child_def Let_def)
  qed
qed

lemma push_heap:
  assumes "\<forall>e\<in>set h. in_window b (g e)" and "heap_hole (heap_val b g h) (length h) m i" and "m \<le> i" "1 \<le> m"
  shows "heap_rank (heap_val b g (abtvs_push_xmin_max_heap g h i)) (length h) m"
  using assms
proof (induction g h i rule: abtvs_push_xmin_max_heap.induct)
  case (1 g h i)
  have i1: "1 \<le> i" using 1(4,5) by simp
  show ?case
  proof (cases "i \<le> length h div 2")
    case False
    have "heap_rank (heap_val b g h) (length h) m"
    proof (rule heap_hole_close [OF 1(3)])
      fix c assume "2 \<le> c" "c \<le> length h" "c div 2 = i"
      with False show "heap_val b g h c \<le> heap_val b g h i" using div_le_mono [of c "length h" 2] by simp
    qed
    moreover have "\<not> (1 \<le> i \<and> i \<le> length h div 2)" using False by blast
    ultimately show ?thesis by (simp only: push_cases(1) simp_thms)
  next
    case True
    let ?j = "larger_child g h i"
    let ?h = "h[i - 1 := h ! (?j - 1), ?j - 1 := h ! (i - 1)]"
    note b = larger_child_bounds [OF i1 True, of g]
    have ij: "i - 1 < length h" "?j - 1 < length h" "i \<le> length h" "1 \<le> ?j" using i1 b by linarith+
    have j2: "?j div 2 = i" and jj: "2 \<le> ?j" using b(1,3) i1 by linarith+
    have pr: "NormalTransactionIdPrecedes (g (h ! (i - 1))) (g (h ! (?j - 1))) \<longleftrightarrow> heap_val b g h i < heap_val b g h ?j"
      using heap_val_precedes [OF 1(2) i1 ij(3,4) b(2)] .
    show ?thesis
    proof (cases "heap_val b g h i < heap_val b g h ?j")
      case False
      have "heap_rank (heap_val b g h) (length h) m"
      proof (rule heap_hole_close [OF 1(3)])
        fix c assume "2 \<le> c" "c \<le> length h" "c div 2 = i"
        then have "heap_val b g h c \<le> heap_val b g h ?j" by (rule larger_child_max [OF 1(2) i1 True])
        with False show "heap_val b g h c \<le> heap_val b g h i" by linarith
      qed
      then show ?thesis using push_cases(2) [OF i1 True refl, of g] False unfolding pr by (simp only: simp_thms)
    next
      case lt: True
      have win: "\<forall>e\<in>set ?h. in_window b (g e)"
        using 1(2) arg_cong [OF mset_swap [OF ij(1,2)], of set_mset] by (simp only: set_mset_mset)
      have v': "heap_val b g ?h c = (if c = i then heap_val b g h ?j else if c = ?j then heap_val b g h i else heap_val b g h c)"
        if "1 \<le> c" for c
      proof -
        have e: "c - 1 = i - 1 \<longleftrightarrow> c = i" "c - 1 = ?j - 1 \<longleftrightarrow> c = ?j" "i \<noteq> ?j" using that i1 b by arith+
        have n: "?h ! (c - 1) = (if c = ?j then h ! (i - 1) else if c = i then h ! (?j - 1) else h ! (c - 1))"
          using ij e by (simp only: nth_list_update nth_list_update_neq length_list_update split: if_split) metis
        show ?thesis unfolding heap_val_def n using e(3) by (simp only: split: if_split) metis
      qed
      have "heap_hole (heap_val b g ?h) (length h) m ?j"
        by (rule heap_hole_down [OF 1(3,4) j2 jj b(2) v' larger_child_max [OF 1(2) i1 True] lt])
      then have "heap_rank (heap_val b g (abtvs_push_xmin_max_heap g ?h ?j)) (length ?h) m"
      proof -
        assume h: "heap_hole (heap_val b g ?h) (length h) m ?j"
        have "heap_hole (heap_val b g ?h) (length ?h) m ?j" using h by (simp only: length_list_update)
        moreover have "m \<le> ?j" using 1(4) b(4) by linarith
        moreover have "NormalTransactionIdPrecedes (g (h ! (i - 1))) (g (h ! (?j - 1)))" using lt pr by blast
        ultimately show ?thesis using 1(1) [OF _ refl _ win] i1 True 1(5) by blast
      qed
      then show ?thesis using push_cases(3) [OF i1 True refl, of g] lt pr by (simp only: length_list_update simp_thms)
    qed
  qed
qed

lemma heap_rank_hole: "1 \<le> i \<Longrightarrow> heap_rank v n (Suc i) \<Longrightarrow> heap_hole v n i i"
  unfolding heap_rank_def heap_hole_def
proof (intro allI impI conjI)
  fix c
  assume "1 \<le> i" and h: "\<forall>c. 2 \<le> c \<and> c \<le> n \<and> Suc i \<le> c div 2 \<longrightarrow> v c \<le> v (c div 2)"
    and c: "2 \<le> c \<and> c \<le> n \<and> i \<le> c div 2"
  show "v c \<le> v (c div 2)" if "c div 2 \<noteq> i" using h c that by simp
  show "v c \<le> v (i div 2)" if "c div 2 = i \<and> i \<le> i div 2"
  proof -
    have "i div 2 < i" using \<open>1 \<le> i\<close> by simp
    with that show ?thesis by simp
  qed
qed

lemma make_heap_loop:
  assumes "\<forall>e\<in>set h. in_window b (g e)" and "heap_rank (heap_val b g h) (length h) (Suc i)"
  shows "heap_rank (heap_val b g (make_heap_loop g h i)) (length h) 1 \<and> mset (make_heap_loop g h i) = mset h"
  using assms
proof (induction i arbitrary: h)
  case (Suc i)
  let ?h = "abtvs_push_xmin_max_heap g h (Suc i)"
  have s: "set ?h = set h" by (metis mset_push set_mset_mset)
  have "heap_rank (heap_val b g ?h) (length h) (Suc i)"
    by (rule push_heap [OF Suc.prems(1)]) (use Suc.prems heap_rank_hole in auto)
  then show ?case using Suc.IH [of ?h] Suc.prems(1) s by (simp add: mset_push)
qed simp

lemma make_heap:
  assumes "\<forall>e\<in>set h. in_window b (g e)"
  shows "heap_rank (heap_val b g (abtvs_make_xmin_max_heap g h)) (length h) 1"
    and "mset (abtvs_make_xmin_max_heap g h) = mset h"
proof -
  have "heap_rank (heap_val b g h) (length h) (Suc (length h div 2))"
    unfolding heap_rank_def using div_le_mono [of _ "length h" 2] by (metis Suc_n_not_le_n order.trans)
  then show "heap_rank (heap_val b g (abtvs_make_xmin_max_heap g h)) (length h) 1"
    "mset (abtvs_make_xmin_max_heap g h) = mset h"
    using make_heap_loop [OF assms] by (simp_all add: abtvs_make_xmin_max_heap_def)
qed

lemma heap_rank_top:
  assumes "heap_rank v n 1" and "1 \<le> c" "c \<le> n"
  shows "v c \<le> v 1"
  using assms(2,3)
proof (induction c rule: less_induct)
  case (less c)
  show ?case
  proof (cases "c = 1")
    case False
    then have c: "2 \<le> c" "1 \<le> c div 2" "c div 2 < c" using less.prems by linarith+
    then have "v c \<le> v (c div 2)" using assms(1) less.prems unfolding heap_rank_def by simp
    also have "\<dots> \<le> v 1" using less.IH [of "c div 2"] c less.prems by simp
    finally show ?thesis .
  qed simp
qed

lemma heap_top_max:
  assumes "heap_rank (heap_val b g h) (length h) 1" and "e \<in> set h"
  shows "xid_rank b (g e) \<le> xid_rank b (g (hd h))"
proof -
  obtain k where k: "k < length h" "e = h ! k" using assms(2) by (auto simp: in_set_conv_nth)
  have "heap_val b g h (Suc k) \<le> heap_val b g h 1" using heap_rank_top [OF assms(1), of "Suc k"] k(1) by simp
  moreover have "h \<noteq> []" using k(1) by auto
  ultimately show ?thesis using k by (simp add: heap_val_def hd_conv_nth)
qed

lemma heap_replace_top:
  assumes "heap_rank (heap_val b g h) (length h) 1" and "length h' \<le> length h"
    and "\<And>c. 1 \<le> c \<Longrightarrow> c < length h' \<Longrightarrow> h' ! c = h ! c" and win: "\<forall>e\<in>set h'. in_window b (g e)"
  shows "heap_rank (heap_val b g (abtvs_push_xmin_max_heap g h' 1)) (length h') 1"
proof (rule push_heap [OF win])
  show "heap_hole (heap_val b g h') (length h') 1 1"
    unfolding heap_hole_def
  proof (intro allI impI conjI)
    fix c
    assume c: "2 \<le> c \<and> c \<le> length h' \<and> 1 \<le> c div 2"
    show "heap_val b g h' c \<le> heap_val b g h' (c div 2)" if "c div 2 \<noteq> 1"
    proof -
      have "2 \<le> c div 2" using that c by linarith
      then have "c div 2 - 1 \<ge> 1" "c div 2 - 1 < length h'" "c - 1 \<ge> 1" "c - 1 < length h'" using c by linarith+
      then have "heap_val b g h' c = heap_val b g h c" "heap_val b g h' (c div 2) = heap_val b g h (c div 2)"
        using assms(3) by (simp_all add: heap_val_def)
      then show ?thesis using assms(1,2) c unfolding heap_rank_def by simp
    qed
    show "heap_val b g h' c \<le> heap_val b g h' (1 div 2)" if "c div 2 = 1 \<and> 1 \<le> (1::nat) div 2" using that by simp
  qed
qed simp_all

lemma pop_heap_order:
  assumes h: "heap_rank (heap_val b g h) (length h) 1" "h \<noteq> []" and win: "\<forall>e\<in>set h. in_window b (g e)"
    and nxt: "\<forall>r\<in>set_option nxt. in_window b (g r)"
  shows "heap_rank (heap_val b g (pop_heap g nxt h)) (length (pop_heap g nxt h)) 1"
proof (cases nxt)
  case (Some r)
  have "\<forall>e\<in>set (h[0 := r]). in_window b (g e)" using win nxt Some set_update_subset_insert [of h 0 r] by auto
  then show ?thesis
    using heap_replace_top [OF h(1), of "h[0 := r]"] Some by (simp add: pop_heap_def)
next
  case None
  show ?thesis
  proof (cases "length h = 1")
    case False
    let ?h = "(butlast h)[0 := last h]"
    have "set ?h \<subseteq> set h" using set_update_subset_insert [of "butlast h" 0 "last h"] h(2) in_set_butlastD by fastforce
    then have "\<forall>e\<in>set ?h. in_window b (g e)" using win by blast
    then show ?thesis
      using heap_replace_top [OF h(1), of ?h] None False by (simp add: pop_heap_def nth_butlast)
  qed (use None in \<open>simp add: pop_heap_def heap_rank_def\<close>)
qed

section \<open>Building the chain\<close>

lemma next_ref_size: "next_ref rgx r = Some r' \<Longrightarrow> ref_size r' < ref_size r"
proof (cases r)
  case (NodeRef c)
  assume "next_ref rgx r = Some r'"
  then show ?thesis
    using NodeRef by (cases c; cases "tl c") (auto simp: next_ref_def ref_size_def abtvs_get_node_if_safe_def split: if_splits)
qed (simp add: next_ref_def)

lemma pop_heap_size:
  assumes "heap \<noteq> []"
  shows "sum_mset (image_mset ref_size (mset (pop_heap g (next_ref rgx (hd heap)) heap)))
    < sum_mset (image_mset ref_size (mset heap))"
proof -
  obtain x xs where h: "heap = x # xs" using assms by (cases heap) auto
  have "0 < ref_size x" by (simp add: ref_size_def split: vs_ref.splits)
  moreover have "ref_size r' < ref_size x" if "next_ref rgx x = Some r'" for r' using next_ref_size that .
  ultimately show ?thesis
    using mset_pop_heap [OF assms, of g "next_ref rgx (hd heap)"] by (simp add: h split: option.splits)
qed

function build_chain ::
  "ABTCachedAggInfo \<Rightarrow> TransactionId \<Rightarrow> PageData \<Rightarrow> vs_ref list \<Rightarrow> ABTVSNode list \<Rightarrow> ABTVSNode list option" where
  "build_chain agg_info RecentGlobalDataXmin page heap chain =
     (if heap = [] then Some chain
      else
        case add_to_tail agg_info (abtvs_itup_get_xmin page (hd heap)) (ref_item_agg agg_info page (hd heap)) chain of
          None \<Rightarrow> None
        | Some chain' \<Rightarrow>
            build_chain agg_info RecentGlobalDataXmin page
              (pop_heap (abtvs_itup_get_xmin page) (next_ref RecentGlobalDataXmin (hd heap)) heap) chain')"
  by pat_completeness auto
termination
  by (relation "measure (\<lambda>(_, _, _, heap, _). sum_mset (image_mset ref_size (mset heap)))")
    (simp_all add: pop_heap_size)

declare build_chain.simps [simp del]

definition abt_compute_page_aggregate_and_version_chain ::
  "TransactionId \<Rightarrow> version_store \<Rightarrow> 32 word \<Rightarrow> PageData \<Rightarrow> ABTCachedAggInfo \<Rightarrow> (Datum \<times> ABTVSNode list) option" where
  "abt_compute_page_aggregate_and_version_chain RecentGlobalDataXmin vs index_id page agg_info =
     (let is_leaf = ABT_P_ISLEAF (pd_special page);
          agg = (if int2_to_agg_type_fn_initialized agg_info then int2_to_agg_type_fn agg_info 0 else scast (0 :: 16 word));
          collected = (if is_leaf then collect_leaf agg_info RecentGlobalDataXmin page (leaf_refs page) agg []
                       else collect_internal agg_info RecentGlobalDataXmin vs index_id (page_data_tuples page) agg [])
      in case collected of
           None \<Rightarrow> None
         | Some (agg', heap) \<Rightarrow>
             map_option (\<lambda>chain. (agg', chain))
               (build_chain agg_info RecentGlobalDataXmin page
                  (abtvs_make_xmin_max_heap (abtvs_itup_get_xmin page) heap) []))"

end
