(* ===== verification/Version_Chain.thy ===== *)
theory Version_Chain
  imports Version_Store
begin

unbundle bit_operations_syntax

text \<open>
  What the version store promises to readers. A chain is ordered by the circular order of its ids; the
  subtraction loop removes exactly the transactions a snapshot does not see, also in the presence of
  permanent ids and of ids before the global data xmin. On top of this: rebuilding the aggregate and
  chain of a page, updating one downlink, and garbage collection, each as seen by every snapshot.
\<close>

section \<open>Chains in order\<close>

definition chain_desc :: "TransactionId \<Rightarrow> ABTVSNode list \<Rightarrow> bool" where
  "chain_desc b chain =
     (sorted_wrt (\<lambda>m n. xid_rank b (vs_xmin n) < xid_rank b (vs_xmin m)) chain
      \<and> (\<forall>n\<in>set chain. in_window b (vs_xmin n)))"

lemma chain_desc_simps [simp]:
  "chain_desc b []"
  "chain_desc b (n # chain) \<longleftrightarrow> in_window b (vs_xmin n) \<and> chain_desc b chain
     \<and> (\<forall>m\<in>set chain. xid_rank b (vs_xmin m) < xid_rank b (vs_xmin n))"
  by (auto simp: chain_desc_def)

lemma chain_desc_append:
  "chain_desc b (c @ d) \<longleftrightarrow> chain_desc b c \<and> chain_desc b d
     \<and> (\<forall>m\<in>set c. \<forall>n\<in>set d. xid_rank b (vs_xmin n) < xid_rank b (vs_xmin m))"
  by (auto simp: chain_desc_def sorted_wrt_append)

definition chain_sum :: "(ABTVSNode \<Rightarrow> 64 word) \<Rightarrow> (TransactionId \<Rightarrow> bool) \<Rightarrow> ABTVSNode list \<Rightarrow> 64 word" where
  "chain_sum f P chain = (\<Sum>n\<leftarrow>chain. if P (vs_xmin n) then f n else 0)"

lemma chain_sum_simps [simp]:
  "chain_sum f P [] = 0"
  "chain_sum f P (n # chain) = (if P (vs_xmin n) then f n else 0) + chain_sum f P chain"
  "chain_sum f P (c @ d) = chain_sum f P c + chain_sum f P d"
  by (simp_all add: chain_sum_def)

lemma chain_sum_none: "(\<And>n. n \<in> set chain \<Longrightarrow> \<not> P (vs_xmin n)) \<Longrightarrow> chain_sum f P chain = 0"
  by (induction chain) auto

section \<open>Exclusion of invisible transactions\<close>

lemma skip_xip_spec:
  assumes "xids_descending b xip" and "in_window b x" and "i \<le> length xip"
    and "\<forall>k<i. xid_rank b x < xid_rank b (xip ! k)"
  shows "skip_xip xip x i \<le> length xip \<and> (\<forall>k<(skip_xip xip x i). xid_rank b x < xid_rank b (xip ! k))
    \<and> (skip_xip xip x i < length xip \<longrightarrow> xid_rank b (xip ! skip_xip xip x i) \<le> xid_rank b x)"
  using assms
proof (induction xip x i rule: skip_xip.induct)
  case (1 xip x i)
  have pr: "NormalTransactionIdPrecedes x (xip ! i) \<longleftrightarrow> xid_rank b x < xid_rank b (xip ! i)" if "i < length xip"
    using 1(2,3) that by (intro normal_precedes_rank) (simp_all add: xids_descending_def)
  show ?case
  proof (cases "i < length xip \<and> NormalTransactionIdPrecedes x (xip ! i)")
    case True
    then have "\<forall>k<(i + 1). xid_rank b x < xid_rank b (xip ! k)" using 1(5) pr by (auto simp: less_Suc_eq)
    then have "skip_xip xip x (i + 1) \<le> length xip \<and> (\<forall>k<(skip_xip xip x (i + 1)). xid_rank b x < xid_rank b (xip ! k))
      \<and> (skip_xip xip x (i + 1) < length xip \<longrightarrow> xid_rank b (xip ! skip_xip xip x (i + 1)) \<le> xid_rank b x)"
      using 1(1) [OF True] 1(2,3) True by simp
    moreover have "skip_xip xip x i = skip_xip xip x (i + 1)" using True skip_xip.simps [of xip x i] by simp
    ultimately show ?thesis by simp
  next
    case False
    then have "skip_xip xip x i = i" using skip_xip.simps [of xip x i] by (simp only: if_False)
    moreover have "i < length xip \<longrightarrow> xid_rank b (xip ! i) \<le> xid_rank b x" using False pr by auto
    ultimately show ?thesis using 1(4,5) by (simp only: simp_thms)
  qed
qed

lemma skip_xip_mem:
  assumes d: "xids_descending b xip" and x: "in_window b x" and i: "i \<le> length xip" "\<forall>k<i. xid_rank b x < xid_rank b (xip ! k)"
  shows "(skip_xip xip x i < length xip \<and> x = xip ! skip_xip xip x i) \<longleftrightarrow> x \<in> set xip"
proof
  assume "x \<in> set xip"
  then obtain k where k: "k < length xip" "xip ! k = x" by (auto simp: in_set_conv_nth)
  let ?i = "skip_xip xip x i"
  note s = skip_xip_spec [OF d x i]
  have "\<not> k < ?i" using s k by auto
  then have ik: "?i \<le> k" by simp
  have "xid_rank b (xip ! k) \<le> xid_rank b (xip ! ?i)"
  proof (cases "?i = k")
    case False
    then show ?thesis using d ik k(1) sorted_wrt_nth_less [of "(\<ge>)" "map (xid_rank b) xip" ?i k] by (simp add: xids_descending_def)
  qed simp
  then have "xid_rank b (xip ! ?i) = xid_rank b x" using s ik k by auto
  then show "?i < length xip \<and> x = xip ! ?i" using ik k(1) by (simp add: xid_rank_inj)
qed (metis nth_mem)

text \<open>The assertion at the end of \<^verbatim>\<open>_abt_prepare_snapshot_for_sampling\<close>.\<close>

definition snapshot_bounds :: "TransactionId \<Rightarrow> ABTSnapshotData \<Rightarrow> bool" where
  "snapshot_bounds b s = (xid_rank b (s_xmin s) \<le> xid_rank b (s_xmax s))"

lemma below_xmin_visible:
  assumes wf: "wf_snapshot b s" "snapshot_bounds b s" and y: "in_window b y" "xid_rank b y < xid_rank b (s_xmin s)"
  shows "\<not> abt_xid_in_snapshot y (Some s)"
proof -
  have "y \<notin> set (s_xip s)"
    using descending_last_le [of b "s_xip s" y] wf(1) y(2) by (auto simp: wf_snapshot_def split: if_splits)
  then show ?thesis using xid_in_snapshot_iff [OF wf(1) y(1)] wf(2) y(2) by (simp add: snapshot_bounds_def)
qed

lemma exclude_loop_sum:
  assumes wf: "wf_snapshot b s" "snapshot_bounds b s" and "chain_desc b chain" and "i \<le> length (s_xip s)"
    and "\<forall>n\<in>set chain. \<forall>k<i. xid_rank b (vs_xmin n) < xid_rank b (s_xip s ! k)"
  shows "exclude_loop ai s chain i agg = agg - chain_sum (node_delta ai) (\<lambda>x. abt_xid_in_snapshot x (Some s)) chain"
  using assms(3-)
proof (induction chain arbitrary: i agg)
  case (Cons n chain)
  let ?x = "vs_xmin n"
  let ?S = "\<lambda>c. chain_sum (node_delta ai) (\<lambda>x. abt_xid_in_snapshot x (Some s)) c"
  have x: "in_window b ?x" and d: "chain_desc b chain" using Cons.prems(1) by simp_all
  have w: "in_window b (s_xmax s)" "in_window b (s_xmin s)" and xip: "xids_descending b (s_xip s)"
    using wf(1) unfolding wf_snapshot_def by blast+
  note pr = normal_precedes_rank [OF x w(1)] normal_precedes_rank [OF x w(2)]
  note inn = xid_in_snapshot_iff [OF wf(1) x]
  have rest: "\<forall>m\<in>set chain. xid_rank b (vs_xmin m) < xid_rank b ?x" using Cons.prems(1) by simp
  consider (old) "xid_rank b ?x < xid_rank b (s_xmin s)"
    | (mid) "\<not> xid_rank b ?x < xid_rank b (s_xmin s)" "xid_rank b ?x < xid_rank b (s_xmax s)"
    | (new) "\<not> xid_rank b ?x < xid_rank b (s_xmin s)" "\<not> xid_rank b ?x < xid_rank b (s_xmax s)" by blast
  then show ?case
  proof cases
    case old
    have "\<not> abt_xid_in_snapshot (vs_xmin m) (Some s)" if "m \<in> set (n # chain)" for m
    proof (rule below_xmin_visible [OF wf])
      show "in_window b (vs_xmin m)" using Cons.prems(1) that by (auto simp: chain_desc_def)
      show "xid_rank b (vs_xmin m) < xid_rank b (s_xmin s)" using old rest that by (cases "m = n") auto
    qed
    then have "?S (n # chain) = 0" by (rule chain_sum_none)
    with old pr show ?thesis by (simp only: exclude_loop.simps if_True diff_zero)
  next
    case mid
    let ?i = "skip_xip (s_xip s) ?x i"
    have i: "\<forall>k<i. xid_rank b ?x < xid_rank b (s_xip s ! k)" using Cons.prems(3) by simp
    note sk = skip_xip_spec [OF xip x Cons.prems(2) i]
    note mem = skip_xip_mem [OF xip x Cons.prems(2) i]
    have eq: "exclude_loop ai s (n # chain) i agg =
        (if ?x \<in> set (s_xip s) then exclude_loop ai s chain (?i + 1) (agg - node_delta ai n)
         else exclude_loop ai s chain ?i agg)"
      unfolding mem [symmetric] using mid pr by (simp only: exclude_loop.simps if_False if_True Let_def)
    show ?thesis
    proof (cases "?x \<in> set (s_xip s)")
      case True
      then have ii: "?i < length (s_xip s)" "?x = s_xip s ! ?i" using mem by blast+
      have "exclude_loop ai s chain (?i + 1) (agg - node_delta ai n) = agg - node_delta ai n - ?S chain"
      proof (rule Cons.IH [OF d])
        show "?i + 1 \<le> length (s_xip s)" using ii(1) by simp
        show "\<forall>m\<in>set chain. \<forall>k<(?i + 1). xid_rank b (vs_xmin m) < xid_rank b (s_xip s ! k)"
          using rest sk ii(2) by (metis Suc_eq_plus1 less_Suc_eq order.strict_trans)
      qed
      then show ?thesis using eq True inn by (simp add: diff_diff_eq)
    next
      case False
      have "exclude_loop ai s chain ?i agg = agg - ?S chain"
        by (rule Cons.IH [OF d]) (use sk rest in \<open>auto intro: order.strict_trans\<close>)
      then show ?thesis using eq False inn mid(2) by simp
    qed
  next
    case new
    have "exclude_loop ai s chain i (agg - node_delta ai n) = agg - node_delta ai n - ?S chain"
      by (rule Cons.IH [OF d Cons.prems(2)]) (use Cons.prems(3) in simp)
    then show ?thesis using new pr inn by (simp add: diff_diff_eq)
  qed
qed simp

section \<open>The nodes that a heap element stands for\<close>

definition safe_nodes :: "TransactionId \<Rightarrow> ABTVSNode list \<Rightarrow> ABTVSNode list" where
  "safe_nodes oldestXmin = takeWhile (\<lambda>n. \<not> TransactionIdPrecedes (vs_xmin n) oldestXmin)"

definition ref_nodes :: "TransactionId \<Rightarrow> ABTCachedAggInfo \<Rightarrow> PageData \<Rightarrow> vs_ref \<Rightarrow> ABTVSNode list" where
  "ref_nodes rgx ai page ref =
     (case ref of
        LeafRef _ _ \<Rightarrow> [\<lparr>vs_xmin = abtvs_itup_get_xmin page ref, vs_delta = ref_item_agg ai page ref\<rparr>]
      | NodeRef chain \<Rightarrow> safe_nodes rgx chain)"

text \<open>A heap element whose first node is the one the heap sees.\<close>

definition ref_ok :: "TransactionId \<Rightarrow> ABTCachedAggInfo \<Rightarrow> PageData \<Rightarrow> vs_ref \<Rightarrow> bool" where
  "ref_ok rgx ai page ref \<longleftrightarrow>
     (case ref of LeafRef _ _ \<Rightarrow> True | NodeRef chain \<Rightarrow> safe_nodes rgx chain \<noteq> [])
     \<and> chain_desc rgx (ref_nodes rgx ai page ref)"

lemma get_node_if_safe_nodes:
  "abtvs_get_node_if_safe chain rgx = (if safe_nodes rgx chain = [] then None else Some chain)"
  by (cases chain) (auto simp: abtvs_get_node_if_safe_def safe_nodes_def)

lemma ref_nodes_unfold:
  assumes "ref_ok rgx ai page ref"
  shows "ref_nodes rgx ai page ref =
      \<lparr>vs_xmin = abtvs_itup_get_xmin page ref, vs_delta = ref_item_agg ai page ref\<rparr>
      # (case next_ref rgx ref of None \<Rightarrow> [] | Some r \<Rightarrow> ref_nodes rgx ai page r)"
    and "in_window rgx (abtvs_itup_get_xmin page ref)"
    and "\<And>r. next_ref rgx ref = Some r \<Longrightarrow> ref_ok rgx ai page r"
    and "\<And>r n. next_ref rgx ref = Some r \<Longrightarrow> n \<in> set (ref_nodes rgx ai page r)
           \<Longrightarrow> xid_rank rgx (vs_xmin n) < xid_rank rgx (abtvs_itup_get_xmin page ref)"
proof -
  show eq: "ref_nodes rgx ai page ref =
      \<lparr>vs_xmin = abtvs_itup_get_xmin page ref, vs_delta = ref_item_agg ai page ref\<rparr>
      # (case next_ref rgx ref of None \<Rightarrow> [] | Some r \<Rightarrow> ref_nodes rgx ai page r)"
  proof (cases ref)
    case (NodeRef c)
    then obtain n c' where c: "c = n # c'" "safe_nodes rgx c = n # safe_nodes rgx c'"
      using assms by (cases c) (auto simp: ref_ok_def safe_nodes_def split: if_splits)
    then show ?thesis
      using NodeRef by (simp add: ref_nodes_def next_ref_def get_node_if_safe_nodes abtvs_itup_get_xmin_def ref_item_agg_def)
  qed (simp add: ref_nodes_def next_ref_def)
  have d: "chain_desc rgx (ref_nodes rgx ai page ref)" using assms by (simp add: ref_ok_def)
  then show "in_window rgx (abtvs_itup_get_xmin page ref)" by (simp add: eq)
  show "ref_ok rgx ai page r" if "next_ref rgx ref = Some r" for r
  proof -
    have "chain_desc rgx (ref_nodes rgx ai page r)" using d that by (simp add: eq)
    then show ?thesis
      using that by (auto simp: ref_ok_def next_ref_def get_node_if_safe_nodes split: vs_ref.splits if_splits)
  qed
  show "xid_rank rgx (vs_xmin n) < xid_rank rgx (abtvs_itup_get_xmin page ref)"
    if "next_ref rgx ref = Some r" "n \<in> set (ref_nodes rgx ai page r)" for r n
    using d that by (simp add: eq)
qed

section \<open>Merging the chains\<close>

text \<open>The nodes of a chain have valid values, and none is older than \<open>x\<close>.\<close>

definition chain_above :: "(Datum \<Rightarrow> bool) \<Rightarrow> TransactionId \<Rightarrow> TransactionId \<Rightarrow> ABTVSNode list \<Rightarrow> bool" where
  "chain_above valid b x chain \<longleftrightarrow>
     chain_desc b chain \<and> (\<forall>n\<in>set chain. valid (vs_delta n) \<and> xid_rank b x \<le> xid_rank b (vs_xmin n))"

context agg_type
begin

lemma add_to_tail_sum:
  assumes add: "add_to_tail ai x v chain = Some c" and v: "valid v" and x: "in_window b x"
    and chain: "chain_above valid b x chain"
  shows "chain_above valid b x c \<and> chain_sum vs_delta P c = chain_sum vs_delta P chain + (if P x then v else 0)"
proof (cases "chain \<noteq> [] \<and> vs_xmin (last chain) = x")
  case True
  then obtain ns n where c: "chain = ns @ [n]" "vs_xmin n = x" by (cases chain rule: rev_cases) auto
  then obtain d where d: "agg_add_fn ai (vs_delta n) v = Some d" "c = ns @ [n\<lparr>vs_delta := d\<rparr>]"
    using add by (auto simp: add_to_tail_def Let_def)
  have "valid (vs_delta n)" using chain by (simp add: chain_above_def c(1))
  with add_word [OF _ v d(1)] have "d = vs_delta n + v" "valid d" by auto
  then show ?thesis using chain c d(2) by (simp add: chain_above_def chain_desc_append)
next
  case False
  have "x \<noteq> InvalidTransactionId"
    using x by (auto simp: in_window_def TransactionIdIsNormal_def InvalidTransactionId_def FirstNormalTransactionId_def)
  with False add have c: "c = chain @ [\<lparr>vs_xmin = x, vs_delta = v\<rparr>]"
    by (auto simp: add_to_tail_def Let_def split: if_splits)
  have "xid_rank b x < xid_rank b (vs_xmin m)" if m: "m \<in> set chain" for m
  proof -
    have ne: "chain = butlast chain @ [last chain]" using m by (cases chain) auto
    have "xid_rank b x \<noteq> xid_rank b (vs_xmin (last chain))" using False m xid_rank_inj by fastforce
    moreover have "xid_rank b x \<le> xid_rank b (vs_xmin (last chain))" 
      using chain last_in_set [of chain] m by (metis chain_above_def length_greater_0_conv length_pos_if_in_set)
    moreover have "m = last chain \<or> m \<in> set (butlast chain)" using m ne by (metis Un_iff empty_iff empty_set set_ConsD set_append)
    moreover have "chain_desc b (butlast chain @ [last chain])" using chain ne by (simp add: chain_above_def)
    ultimately show ?thesis by (auto simp: chain_desc_append)
  qed
  then show ?thesis using chain x v by (simp add: c chain_above_def chain_desc_append)
qed

lemma build_chain_sum:
  assumes "build_chain ai rgx page heap chain = Some c"
    and "heap_rank (heap_val rgx (abtvs_itup_get_xmin page) heap) (length heap) 1"
    and "\<forall>r\<in>set heap. ref_ok rgx ai page r \<and> (\<forall>n\<in>set (ref_nodes rgx ai page r). valid (vs_delta n))
      \<and> chain_above valid rgx (abtvs_itup_get_xmin page r) chain"
    and "chain_above valid rgx rgx chain"
  shows "chain_above valid rgx rgx c
    \<and> chain_sum vs_delta P c = chain_sum vs_delta P chain + (\<Sum>r\<in>#mset heap. chain_sum vs_delta P (ref_nodes rgx ai page r))"
  using assms
proof (induction "sum_mset (image_mset ref_size (mset heap))" arbitrary: heap chain rule: less_induct)
  case less
  let ?get = "abtvs_itup_get_xmin page"
  let ?N = "ref_nodes rgx ai page"
  let ?S = "\<lambda>h. \<Sum>r\<in>#mset h. chain_sum vs_delta P (?N r)"
  show ?case
  proof (cases "heap = []")
    case True
    then show ?thesis using less.prems by (simp add: build_chain.simps)
  next
    case False
    let ?t = "hd heap"
    let ?h = "pop_heap ?get (next_ref rgx ?t) heap"
    have t: "?t \<in> set heap" using False by simp
    note ok = less.prems(3) [rule_format]
    note un = ref_nodes_unfold [OF ok [OF t, THEN conjunct1]]
    obtain chain' where add: "add_to_tail ai (?get ?t) (ref_item_agg ai page ?t) chain = Some chain'"
      and rec: "build_chain ai rgx page ?h chain' = Some c"
      using less.prems(1) False by (auto simp: build_chain.simps [of ai rgx page heap] split: option.splits)
    have v: "valid (ref_item_agg ai page ?t)" using ok [OF t] un(1) by simp
    note tail = add_to_tail_sum [OF add v un(2)] 
    have above: "chain_above valid rgx (?get ?t) chain'"
      and sum: "chain_sum vs_delta P chain' = chain_sum vs_delta P chain + (if P (?get ?t) then ref_item_agg ai page ?t else 0)"
      using tail [of P] ok [OF t] by blast+
    have mh: "mset ?h = mset heap - {#?t#} + (case next_ref rgx ?t of None \<Rightarrow> {#} | Some r \<Rightarrow> {#r#})"
      by (rule mset_pop_heap [OF False])
    have le: "xid_rank rgx (?get r) \<le> xid_rank rgx (?get ?t)" and okr: "ref_ok rgx ai page r \<and> (\<forall>n\<in>set (?N r). valid (vs_delta n))"
      if r: "r \<in> set ?h" for r
    proof -
      consider (old) "r \<in> set heap" | (new) "next_ref rgx ?t = Some r"
      proof -
        have "r \<in># mset heap - {#?t#} + (case next_ref rgx ?t of None \<Rightarrow> {#} | Some r \<Rightarrow> {#r#})"
          using r unfolding mh [symmetric] by simp
        then show thesis using that by (auto dest!: in_diffD split: option.splits)
      qed
      then show "xid_rank rgx (?get r) \<le> xid_rank rgx (?get ?t)" "ref_ok rgx ai page r \<and> (\<forall>n\<in>set (?N r). valid (vs_delta n))"
      proof (atomize (full), cases)
        case old
        then show "xid_rank rgx (?get r) \<le> xid_rank rgx (?get ?t) \<and> (ref_ok rgx ai page r \<and> (\<forall>n\<in>set (?N r). valid (vs_delta n)))"
          using ok [OF old] heap_top_max [OF less.prems(2) old] by simp
      next
        case new
        have "ref_ok rgx ai page r" by (rule un(3) [OF new])
        moreover have "xid_rank rgx (?get r) < xid_rank rgx (?get ?t)"
          using un(4) [OF new, of "\<lparr>vs_xmin = ?get r, vs_delta = ref_item_agg ai page r\<rparr>"]
            ref_nodes_unfold(1) [OF un(3) [OF new]] by simp
        moreover have "\<forall>n\<in>set (?N r). valid (vs_delta n)" using ok [OF t] un(1) new by simp
        ultimately show "xid_rank rgx (?get r) \<le> xid_rank rgx (?get ?t) \<and> (ref_ok rgx ai page r \<and> (\<forall>n\<in>set (?N r). valid (vs_delta n)))"
          by simp
      qed
    qed
    have "chain_above valid rgx rgx c \<and> chain_sum vs_delta P c = chain_sum vs_delta P chain' + ?S ?h"
    proof (rule less.hyps [OF pop_heap_size [OF False] rec])
      show "heap_rank (heap_val rgx ?get ?h) (length ?h) 1"
      proof (rule pop_heap_order [OF less.prems(2) False])
        show "\<forall>e\<in>set heap. in_window rgx (?get e)" using ok ref_nodes_unfold(2) by blast
        show "\<forall>r\<in>set_option (next_ref rgx ?t). in_window rgx (?get r)"
          using ref_nodes_unfold(2) [OF un(3)] by auto
      qed
      show "\<forall>r\<in>set ?h. ref_ok rgx ai page r \<and> (\<forall>n\<in>set (?N r). valid (vs_delta n)) \<and> chain_above valid rgx (?get r) chain'"
        using okr le above by (fastforce simp: chain_above_def)
      show "chain_above valid rgx rgx chain'" using above by (auto simp: chain_above_def xid_rank_def)
    qed
    moreover have "?S heap = (if P (?get ?t) then ref_item_agg ai page ?t else 0) + ?S ?h"
    proof -
      have "?S heap = chain_sum vs_delta P (?N ?t) + (\<Sum>r\<in>#mset heap - {#?t#}. chain_sum vs_delta P (?N r))"
      proof -
        have "mset heap = add_mset ?t (mset heap - {#?t#})" using t by simp
        from arg_cong [OF this, of "\<lambda>M. \<Sum>r\<in>#M. chain_sum vs_delta P (?N r)"] show ?thesis
          by (simp only: image_mset_add_mset sum_mset.add_mset)
      qed
      then show ?thesis using un(1) by (simp add: mh algebra_simps split: option.splits)
    qed
    ultimately show ?thesis using sum by (simp add: add.assoc)
  qed
qed

lemma collect_leaf_sum:
  assumes "collect_leaf ai rgx page refs agg heap = Some (agg', heap')" and "valid agg"
    and "\<forall>r\<in>set refs. valid (ref_item_agg ai page r)"
  shows "agg' = agg + (\<Sum>r\<leftarrow>refs. if TransactionIdIsValid (abtvs_itup_get_xmin page r) then ref_item_agg ai page r else 0)
    \<and> heap' = heap @ filter (\<lambda>r. TransactionIdIsValid (abtvs_itup_get_xmin page r)
        \<and> \<not> TransactionIdPrecedes (abtvs_itup_get_xmin page r) rgx) refs"
  using assms
proof (induction refs arbitrary: agg heap)
  case (Cons r refs)
  let ?x = "abtvs_itup_get_xmin page r"
  show ?case
  proof (cases "TransactionIdIsValid ?x")
    case True
    then obtain a where a: "abt_accum_value ai agg (ref_item_agg ai page r) False = Some a"
      and rest: "collect_leaf ai rgx page refs a (if TransactionIdPrecedes ?x rgx then heap else heap @ [r]) = Some (agg', heap')"
      using Cons.prems(1) by (auto simp: Let_def split: option.splits if_splits)
    have "a = agg + ref_item_agg ai page r" "valid a"
      using accum_value_word [OF a] Cons.prems(2,3) by auto
    with Cons.IH [OF rest] Cons.prems(3) True show ?thesis by (simp add: add.assoc)
  next
    case False
    then show ?thesis using Cons.IH [of agg heap] Cons.prems by (simp add: Let_def)
  qed
qed simp

lemma collect_internal_sum:
  assumes "collect_internal ai rgx vs index_id ts agg heap = Some (agg', heap')" and "valid agg"
    and "\<forall>t\<in>set ts. agg_tuple_ok ai False t \<and> valid (it_aggs t ! 0)"
  shows "agg' = agg + (\<Sum>t\<leftarrow>ts. it_aggs t ! 0)
    \<and> heap' = heap @ map NodeRef (filter (\<lambda>c. safe_nodes rgx c \<noteq> [])
        (map (\<lambda>t. abtvs_find_chain_head vs (ABTVS_KEY index_id (ABTreeTupleGetDownLink t))) ts))"
  using assms
proof (induction ts arbitrary: agg heap)
  case (Cons t ts)
  let ?c = "abtvs_find_chain_head vs (ABTVS_KEY index_id (ABTreeTupleGetDownLink t))"
  obtain a where a: "abt_accum_index_tuple_value ai agg t False False = Some a"
    and rest: "collect_internal ai rgx vs index_id ts a (if safe_nodes rgx ?c = [] then heap else heap @ [NodeRef ?c]) = Some (agg', heap')"
    using Cons.prems(1) by (auto simp: Let_def get_node_if_safe_nodes split: option.splits if_splits)
  have t: "agg_tuple_ok ai False t" "valid (it_aggs t ! 0)" using Cons.prems(3) by auto
  then have w: "tuple_weights ai False t = [it_aggs t ! 0]"
    by (cases "it_aggs t") (auto simp: tuple_weights_def agg_tuple_ok_def)
  have "a = agg + it_aggs t ! 0" "valid a"
    using accum_tuple_word [OF a t(1)] t(2) Cons.prems(2) by (auto simp: w)
  with Cons.IH [OF rest] Cons.prems(3) show ?case by (simp add: add.assoc)
qed simp

end

section \<open>The garbage collector\<close>

text \<open>One pass of the collector with nothing running beside it: each chain loses its nodes from the
  first one that precedes \<^verbatim>\<open>oldestXmin\<close>, and chain heads found empty are removed from the table.\<close>

definition recycle_chain :: "TransactionId \<Rightarrow> ABTVSNode list \<Rightarrow> ABTVSNode list" where
  "recycle_chain oldestXmin = takeWhile (\<lambda>n. \<not> NormalTransactionIdPrecedes (vs_xmin n) oldestXmin)"

definition abtvs_try_delete_maybe_deletable :: "version_store \<Rightarrow> version_store" where
  "abtvs_try_delete_maybe_deletable vs = (\<lambda>key. if vs key = Some [] then None else vs key)"

definition abtvs_scan_and_recycle_old_versions :: "TransactionId \<Rightarrow> version_store \<Rightarrow> version_store" where
  "abtvs_scan_and_recycle_old_versions oldestXmin vs =
     abtvs_try_delete_maybe_deletable (\<lambda>key. map_option (recycle_chain oldestXmin) (vs key))"

section \<open>Changing the window\<close>

lemma rank_shift:
  assumes "xid_rank b r \<le> xid_rank b x"
  shows "xid_rank r x = xid_rank b x - xid_rank b r"
proof -
  have "x - r = (x - b) - (r - b)" by simp
  moreover have "r - b \<le> x - b" using assms by (simp add: xid_rank_def word_le_nat_alt)
  ultimately show ?thesis unfolding xid_rank_def by (metis unat_sub)
qed

lemma window_shift:
  assumes "in_window b x" and "xid_rank b r \<le> xid_rank b x"
  shows "in_window r x"
  using assms(1) rank_shift [OF assms(2)] unfolding in_window_def by linarith

lemma chain_desc_shift:
  assumes "chain_desc b chain" and "\<forall>n\<in>set chain. xid_rank b r \<le> xid_rank b (vs_xmin n)"
  shows "chain_desc r chain"
  using assms
proof (induction chain)
  case (Cons n chain)
  then have "in_window r (vs_xmin n)" using window_shift [of b "vs_xmin n" r] by simp
  moreover have "xid_rank r (vs_xmin m) < xid_rank r (vs_xmin n)" if "m \<in> set chain" for m
  proof -
    have "xid_rank b r \<le> xid_rank b (vs_xmin m)" "xid_rank b (vs_xmin m) < xid_rank b (vs_xmin n)" using Cons.prems that by simp_all
    then show ?thesis using rank_shift [of b r "vs_xmin m"] rank_shift [of b r "vs_xmin n"] by linarith
  qed
  ultimately show ?case using Cons by simp
qed simp

text \<open>A snapshot none of whose ids is older than \<open>r\<close>.\<close>

definition snapshot_from :: "TransactionId \<Rightarrow> TransactionId \<Rightarrow> ABTSnapshotData \<Rightarrow> bool" where
  "snapshot_from b r s \<longleftrightarrow> wf_snapshot b s \<and> snapshot_bounds b s \<and> in_window b r \<and> xid_rank b r \<le> xid_rank b (s_xmin s)"

lemma snapshot_shift:
  assumes "snapshot_from b r s"
  shows "wf_snapshot r s" and "snapshot_bounds r s"
proof -
  have wf: "wf_snapshot b s" and bnd: "snapshot_bounds b s" and r: "xid_rank b r \<le> xid_rank b (s_xmin s)"
    using assms by (simp_all add: snapshot_from_def)
  have rm: "xid_rank b r \<le> xid_rank b (s_xmax s)" using bnd r by (simp add: snapshot_bounds_def)
  have xip: "xid_rank b r \<le> xid_rank b x" if "x \<in> set (s_xip s)" for x
    using descending_last_le [of b "s_xip s" x] wf that r by (auto simp: wf_snapshot_def split: if_splits)
  have "sorted_wrt (\<lambda>x y. xid_rank b y \<le> xid_rank b x) (s_xip s)"
    using wf unfolding wf_snapshot_def xids_descending_def sorted_wrt_map by simp
  then have "sorted_wrt (\<lambda>x y. xid_rank r y \<le> xid_rank r x) (s_xip s)"
  proof (rule sorted_wrt_mono_rel [rotated])
    fix x y assume "x \<in> set (s_xip s)" "y \<in> set (s_xip s)" "xid_rank b y \<le> xid_rank b x"
    then show "xid_rank r y \<le> xid_rank r x" using rank_shift [OF xip] by (simp add: diff_le_mono)
  qed
  then have "xids_descending r (s_xip s)"
    using wf xip window_shift unfolding wf_snapshot_def xids_descending_def sorted_wrt_map by blast
  then show "wf_snapshot r s"
    using wf r rm window_shift unfolding wf_snapshot_def by blast
  show "snapshot_bounds r s" using bnd rank_shift [OF r] rank_shift [OF rm] by (simp add: snapshot_bounds_def diff_le_mono)
qed

lemma older_visible:
  assumes s: "snapshot_from b r s" and x: "TransactionIdIsValid x" "TransactionIdPrecedes x r"
    and win: "TransactionIdIsNormal x \<longrightarrow> in_window b x"
  shows "\<not> abt_xid_in_snapshot x (Some s)"
proof (cases "TransactionIdIsNormal x")
  case True
  then have "xid_rank b x < xid_rank b r"
    using x(2) s win precedes_rank [of b x r] by (simp add: snapshot_from_def)
  then show ?thesis using below_xmin_visible [of b s x] s win True by (simp add: snapshot_from_def)
next
  case False
  then show ?thesis
    using xid_in_snapshot_permanent [of b s x] s x(1) by (auto simp: snapshot_from_def)
qed

lemma recent_in_window:
  assumes "in_window b r" and "\<not> TransactionIdPrecedes x r" and "TransactionIdIsNormal x \<longrightarrow> in_window b x"
  shows "in_window b x" and "xid_rank b r \<le> xid_rank b x" and "in_window r x"
proof -
  have "TransactionIdIsNormal x" using assms(1,2) precedes_permanent [of x r] by (auto simp: in_window_def)
  with assms(3) show x: "in_window b x" by simp
  with assms(1,2) show le: "xid_rank b r \<le> xid_rank b x" using precedes_rank [of b x r] by simp
  show "in_window r x" by (rule window_shift [OF x le])
qed

section \<open>A page and its chain read together\<close>

lemma int8_node_delta [simp]: "node_delta (int8_info m) = vs_delta"
  by (simp add: node_delta_def fun_eq_iff abt_fill_agg_info_def abt_compute_tuple_offsets_def Let_def)

lemma int8_read_ptr [simp]: "abt_atomic_read_agg_ptr d (int8_info m) = d"
  by (simp add: abt_atomic_read_agg_ptr_def abt_fill_agg_info_def abt_compute_tuple_offsets_def Let_def)

lemma int8_agg_init: "(if int2_to_agg_type_fn_initialized (int8_info m) then int2_to_agg_type_fn (int8_info m) 0 else scast (0 :: 16 word)) = 0"
  by (simp add: abt_fill_agg_info_def abt_compute_tuple_offsets_def Let_def int28_def)

text \<open>The heap that is collected holds elements whose first node is the one they present.\<close>

lemma make_heap_chain:
  assumes built: "build_chain (int8_info m) rgx page (abtvs_make_xmin_max_heap (abtvs_itup_get_xmin page) refs) [] = Some chain"
    and ok: "\<forall>r\<in>set refs. ref_ok rgx (int8_info m) page r"
  shows "chain_desc rgx chain"
    and "chain_sum vs_delta P chain = (\<Sum>r\<leftarrow>refs. chain_sum vs_delta P (ref_nodes rgx (int8_info m) page r))"
proof -
  let ?get = "abtvs_itup_get_xmin page"
  let ?h = "abtvs_make_xmin_max_heap ?get refs"
  have win: "\<forall>r\<in>set refs. in_window rgx (?get r)" using ok ref_nodes_unfold(2) by blast
  note mk = make_heap [OF win]
  have len: "length ?h = length refs" using mk(2) by (metis size_mset)
  have set_h: "set ?h = set refs" using mk(2) by (metis set_mset_mset)
  have "chain_above (\<lambda>_. True) rgx rgx chain
    \<and> chain_sum vs_delta P chain = chain_sum vs_delta P [] + (\<Sum>r\<in>#mset ?h. chain_sum vs_delta P (ref_nodes rgx (int8_info m) page r))"
    by (rule int8_agg.build_chain_sum [OF built]) (use mk(1) ok set_h len in \<open>simp_all add: chain_above_def\<close>)
  then show "chain_desc rgx chain"
    and "chain_sum vs_delta P chain = (\<Sum>r\<leftarrow>refs. chain_sum vs_delta P (ref_nodes rgx (int8_info m) page r))"
    by (simp_all add: chain_above_def mk(2) flip: sum_mset_sum_list)
qed

lemma leaf_ref_cases: "r \<in> set (leaf_refs page) \<Longrightarrow> \<exists>off p. r = LeafRef off p"
  by (auto simp: leaf_refs_def split: if_splits)

lemma sum_list_filter_diff:
  fixes A B C :: "'a \<Rightarrow> 64 word"
  assumes "\<And>x. x \<in> set xs \<Longrightarrow> A x - (if K x then B x else 0) = C x"
  shows "(\<Sum>x\<leftarrow>xs. A x) - (\<Sum>x\<leftarrow>filter K xs. B x) = (\<Sum>x\<leftarrow>xs. C x)"
  using assms
proof (induction xs)
  case (Cons x xs)
  then have "A x - (if K x then B x else 0) = C x" "(\<Sum>x\<leftarrow>xs. A x) - (\<Sum>x\<leftarrow>filter K xs. B x) = (\<Sum>x\<leftarrow>xs. C x)" by simp_all
  then show ?case by (auto simp: algebra_simps split: if_splits)
qed simp

lemma leaf_chain:
  assumes comp: "abt_compute_page_aggregate_and_version_chain rgx vs index_id page (int8_info m) = Some (agg, chain)"
    and leaf: "ABT_P_ISLEAF (pd_special page)" and s: "snapshot_from b rgx s"
    and win: "\<forall>r\<in>set (leaf_refs page). TransactionIdIsNormal (abtvs_itup_get_xmin page r) \<longrightarrow> in_window b (abtvs_itup_get_xmin page r)"
  shows "chain_desc rgx chain"
    and "agg - chain_sum vs_delta (\<lambda>x. abt_xid_in_snapshot x (Some s)) chain
      = (\<Sum>r\<leftarrow>leaf_refs page. if abt_xid_in_snapshot (abtvs_itup_get_xmin page r) (Some s) then 0
           else ref_item_agg (int8_info m) page r)"
proof -
  let ?ai = "int8_info m"
  let ?get = "abtvs_itup_get_xmin page"
  let ?keep = "\<lambda>r. TransactionIdIsValid (?get r) \<and> \<not> TransactionIdPrecedes (?get r) rgx"
  let ?in = "\<lambda>x. abt_xid_in_snapshot x (Some s)"
  obtain heap where col: "collect_leaf ?ai rgx page (leaf_refs page) 0 [] = Some (agg, heap)"
    and built: "build_chain ?ai rgx page (abtvs_make_xmin_max_heap ?get heap) [] = Some chain"
    using comp leaf by (auto simp: abt_compute_page_aggregate_and_version_chain_def int8_agg_init Let_def split: option.splits)
  have agg: "agg = (\<Sum>r\<leftarrow>leaf_refs page. if TransactionIdIsValid (?get r) then ref_item_agg ?ai page r else 0)"
    and heap: "heap = filter ?keep (leaf_refs page)"
    using int8_agg.collect_leaf_sum [OF col] by simp_all
  have rw: "in_window b rgx" using s by (simp add: snapshot_from_def)
  have ok: "\<forall>r\<in>set heap. ref_ok rgx ?ai page r"
    using recent_in_window(3) [OF rw] win leaf_ref_cases unfolding heap ref_ok_def ref_nodes_def by fastforce
  note ch = make_heap_chain [OF built ok]
  show "chain_desc rgx chain" by (rule ch(1))
  have "agg - (\<Sum>r\<leftarrow>heap. chain_sum vs_delta ?in (ref_nodes rgx ?ai page r))
      = (\<Sum>r\<leftarrow>leaf_refs page. if ?in (?get r) then 0 else ref_item_agg ?ai page r)"
    unfolding agg heap
  proof (rule sum_list_filter_diff)
    fix r assume r: "r \<in> set (leaf_refs page)"
    obtain off p where l: "r = LeafRef off p" using leaf_ref_cases [OF r] by blast
    have "\<not> ?in (?get r)" if "TransactionIdIsValid (?get r)" "TransactionIdPrecedes (?get r) rgx"
      using older_visible [OF s that] win r by simp
    moreover have "?in (?get r)" if "\<not> TransactionIdIsValid (?get r)" using that by (simp add: abt_xid_in_snapshot_def)
    ultimately show "(if TransactionIdIsValid (?get r) then ref_item_agg ?ai page r else 0)
        - (if ?keep r then chain_sum vs_delta ?in (ref_nodes rgx ?ai page r) else 0)
        = (if ?in (?get r) then 0 else ref_item_agg ?ai page r)"
      by (auto simp: l ref_nodes_def)
  qed
  then show "agg - chain_sum vs_delta ?in chain = (\<Sum>r\<leftarrow>leaf_refs page. if ?in (?get r) then 0 else ref_item_agg ?ai page r)"
    by (simp only: ch(2))
qed

lemma safe_nodes_desc:
  assumes "in_window b r" and "chain_desc b c"
  shows "chain_desc r (safe_nodes r c)"
proof (rule chain_desc_shift [of b])
  have "chain_desc b (safe_nodes r c @ dropWhile (\<lambda>n. \<not> TransactionIdPrecedes (vs_xmin n) r) c)"
    using assms(2) by (simp add: safe_nodes_def)
  then show d: "chain_desc b (safe_nodes r c)" unfolding chain_desc_append by blast
  show "\<forall>n\<in>set (safe_nodes r c). xid_rank b r \<le> xid_rank b (vs_xmin n)"
  proof
    fix n assume n: "n \<in> set (safe_nodes r c)"
    then have "\<not> TransactionIdPrecedes (vs_xmin n) r" by (auto simp: safe_nodes_def dest: set_takeWhileD)
    moreover have "in_window b (vs_xmin n)" using d n by (simp add: chain_desc_def)
    ultimately show "xid_rank b r \<le> xid_rank b (vs_xmin n)" using recent_in_window(2) [OF assms(1)] by blast
  qed
qed

lemma safe_nodes_sum:
  assumes s: "snapshot_from b r s" and d: "chain_desc b c"
  shows "chain_sum f (\<lambda>x. abt_xid_in_snapshot x (Some s)) (safe_nodes r c) = chain_sum f (\<lambda>x. abt_xid_in_snapshot x (Some s)) c"
  using d
proof (induction c)
  case (Cons n c)
  have wf: "wf_snapshot b s" "snapshot_bounds b s" and r: "in_window b r" "xid_rank b r \<le> xid_rank b (s_xmin s)"
    using s by (simp_all add: snapshot_from_def)
  show ?case
  proof (cases "TransactionIdPrecedes (vs_xmin n) r")
    case True
    then have lt: "xid_rank b (vs_xmin n) < xid_rank b r" using Cons.prems r(1) precedes_rank [of b "vs_xmin n" r] by simp
    have "\<not> abt_xid_in_snapshot (vs_xmin m) (Some s)" if "m \<in> set (n # c)" for m
    proof (rule below_xmin_visible [OF wf])
      show "in_window b (vs_xmin m)" using Cons.prems that by (auto simp: chain_desc_def)
      have "xid_rank b (vs_xmin m) \<le> xid_rank b (vs_xmin n)" using Cons.prems that by auto
      then show "xid_rank b (vs_xmin m) < xid_rank b (s_xmin s)" using lt r(2) by linarith
    qed
    then have "chain_sum f (\<lambda>x. abt_xid_in_snapshot x (Some s)) (n # c) = 0" by (rule chain_sum_none)
    then show ?thesis using True by (simp add: safe_nodes_def)
  qed (use Cons in \<open>simp add: safe_nodes_def\<close>)
qed (simp add: safe_nodes_def)

lemma exclude_chain:
  assumes "snapshot_from b r s" and "chain_desc b chain"
  shows "exclude_loop ai s chain 0 agg = agg - chain_sum (node_delta ai) (\<lambda>x. abt_xid_in_snapshot x (Some s)) chain"
  by (rule exclude_loop_sum [of b]) (use assms in \<open>simp_all add: snapshot_from_def\<close>)

lemma internal_chain:
  assumes comp: "abt_compute_page_aggregate_and_version_chain rgx vs index_id page (int8_info m) = Some (agg, chain)"
    and inner: "\<not> ABT_P_ISLEAF (pd_special page)" and s: "snapshot_from b rgx s"
    and ts: "\<forall>t\<in>set (page_data_tuples page). agg_tuple_ok (int8_info m) False t
      \<and> chain_desc b (abtvs_find_chain_head vs (ABTVS_KEY index_id (ABTreeTupleGetDownLink t)))"
  shows "chain_desc rgx chain"
    and "agg - chain_sum vs_delta (\<lambda>x. abt_xid_in_snapshot x (Some s)) chain
      = (\<Sum>t\<leftarrow>page_data_tuples page. abt_read_agg False vs index_id t (Some s) (int8_info m))"
proof -
  let ?ai = "int8_info m"
  let ?get = "abtvs_itup_get_xmin page"
  let ?in = "\<lambda>x. abt_xid_in_snapshot x (Some s)"
  let ?c = "\<lambda>t. abtvs_find_chain_head vs (ABTVS_KEY index_id (ABTreeTupleGetDownLink t))"
  let ?ts = "page_data_tuples page"
  let ?K = "\<lambda>t. safe_nodes rgx (?c t) \<noteq> []"
  obtain heap where col: "collect_internal ?ai rgx vs index_id ?ts 0 [] = Some (agg, heap)"
    and built: "build_chain ?ai rgx page (abtvs_make_xmin_max_heap ?get heap) [] = Some chain"
    using comp inner by (auto simp: abt_compute_page_aggregate_and_version_chain_def int8_agg_init Let_def split: option.splits)
  have agg: "agg = (\<Sum>t\<leftarrow>?ts. it_aggs t ! 0)" and heap: "heap = map (\<lambda>t. NodeRef (?c t)) (filter ?K ?ts)"
    using int8_agg.collect_internal_sum [OF col] ts by (simp_all add: filter_map comp_def)
  have rw: "in_window b rgx" using s by (simp add: snapshot_from_def)
  have ok: "\<forall>r\<in>set heap. ref_ok rgx ?ai page r"
    using ts safe_nodes_desc [OF rw] by (auto simp: heap ref_ok_def ref_nodes_def)
  note ch = make_heap_chain [OF built ok]
  show "chain_desc rgx chain" by (rule ch(1))
  have "agg - (\<Sum>t\<leftarrow>filter ?K ?ts. chain_sum vs_delta ?in (safe_nodes rgx (?c t)))
      = (\<Sum>t\<leftarrow>?ts. abt_read_agg False vs index_id t (Some s) ?ai)"
    unfolding agg
  proof (rule sum_list_filter_diff)
    fix t assume t: "t \<in> set ?ts"
    have "chain_sum vs_delta ?in (safe_nodes rgx (?c t)) = chain_sum vs_delta ?in (?c t)"
      by (rule safe_nodes_sum [OF s]) (use ts t in simp)
    moreover from this have "chain_sum vs_delta ?in (?c t) = 0" if "\<not> ?K t" using that by simp
    moreover have "abt_read_agg False vs index_id t (Some s) ?ai = it_aggs t ! 0 - chain_sum vs_delta ?in (?c t)"
      using exclude_chain [OF s, of "?c t"] ts t by (simp add: abt_read_agg_def abtvs_exclude_agg_in_snapshot_def Let_def)
    ultimately show "it_aggs t ! 0 - (if ?K t then chain_sum vs_delta ?in (safe_nodes rgx (?c t)) else 0)
        = abt_read_agg False vs index_id t (Some s) ?ai" by simp
  qed
  then show "agg - chain_sum vs_delta ?in chain = (\<Sum>t\<leftarrow>?ts. abt_read_agg False vs index_id t (Some s) ?ai)"
    by (simp add: ch(2) heap ref_nodes_def comp_def)
qed

section \<open>Adding to a version\<close>

lemma find_or_create_spec:
  assumes "chain_desc b chain" and "in_window b x" and "find_or_create_loop x chain = (i, c)"
  shows "i < length c" "vs_xmin (c ! i) = x" "chain_desc b c"
    "f \<lparr>vs_xmin = x, vs_delta = 0\<rparr> = 0 \<Longrightarrow> chain_sum f P c = chain_sum f P chain"
    "vs_xmin ` set c = insert x (vs_xmin ` set chain)"
proof -
  have "i < length c \<and> vs_xmin (c ! i) = x \<and> chain_desc b c
      \<and> (f \<lparr>vs_xmin = x, vs_delta = 0\<rparr> = 0 \<longrightarrow> chain_sum f P c = chain_sum f P chain)
      \<and> vs_xmin ` set c = insert x (vs_xmin ` set chain)"
    using assms
  proof (induction x chain arbitrary: i c rule: find_or_create_loop.induct)
    case (2 x n chain)
    have pr: "NormalTransactionIdPrecedes (vs_xmin n) x \<longleftrightarrow> xid_rank b (vs_xmin n) < xid_rank b x"
      using 2(2,3) by (intro normal_precedes_rank) simp_all
    show ?case
    proof (cases "vs_xmin n = x")
      case True
      then show ?thesis using 2(2,4) by auto
    next
      case ne: False
      show ?thesis
      proof (cases "NormalTransactionIdPrecedes (vs_xmin n) x")
        case True
        then have "i = 0" "c = \<lparr>vs_xmin = x, vs_delta = 0\<rparr> # n # chain" using 2(4) ne by simp_all
        moreover have "\<forall>m\<in>set chain. xid_rank b (vs_xmin m) < xid_rank b x" using 2(2) True pr by auto
        ultimately show ?thesis using 2(2,3) True pr by simp
      next
        case False
        then obtain j d where jd: "find_or_create_loop x chain = (j, d)" "i = j + 1" "c = n # d"
          using 2(4) ne by (auto split: prod.splits)
        have ih: "j < length d" "vs_xmin (d ! j) = x" "chain_desc b d"
          "f \<lparr>vs_xmin = x, vs_delta = 0\<rparr> = 0 \<longrightarrow> chain_sum f P d = chain_sum f P chain"
          "vs_xmin ` set d = insert x (vs_xmin ` set chain)"
          using 2(1) [OF ne False _ 2(3) jd(1)] 2(2) by auto
        have "xid_rank b x < xid_rank b (vs_xmin n)" using False pr ne xid_rank_inj [of b x "vs_xmin n"] by auto
        then have "\<forall>y\<in>vs_xmin ` set d. xid_rank b y < xid_rank b (vs_xmin n)" unfolding ih(5) using 2(2) by simp
        then have "\<forall>m\<in>set d. xid_rank b (vs_xmin m) < xid_rank b (vs_xmin n)" by blast
        then show ?thesis using ih 2(2) jd(2,3) by (simp add: insert_commute)
      qed
    qed
  qed auto
  then show "i < length c" "vs_xmin (c ! i) = x" "chain_desc b c"
    "f \<lparr>vs_xmin = x, vs_delta = 0\<rparr> = 0 \<Longrightarrow> chain_sum f P c = chain_sum f P chain"
    "vs_xmin ` set c = insert x (vs_xmin ` set chain)" by blast+
qed

lemma chain_desc_xmins: "map vs_xmin c = map vs_xmin d \<Longrightarrow> chain_desc b c \<longleftrightarrow> chain_desc b d"
proof (induction c arbitrary: d)
  case (Cons n c)
  then obtain m d' where d: "d = m # d'" "vs_xmin m = vs_xmin n" "map vs_xmin c = map vs_xmin d'" by (cases d) auto
  have "vs_xmin ` set c = vs_xmin ` set d'" using d(3) by (metis set_map)
  then have "(\<forall>m\<in>set c. xid_rank b (vs_xmin m) < xid_rank b (vs_xmin n)) \<longleftrightarrow> (\<forall>m\<in>set d'. xid_rank b (vs_xmin m) < xid_rank b (vs_xmin n))"
    by (metis (no_types, lifting) imageE imageI)
  then show ?case using Cons.IH [OF d(3)] d(1,2) by simp
qed simp

lemma chain_sum_update:
  assumes "i < length c" and "vs_xmin n = vs_xmin (c ! i)"
  shows "chain_sum f P (c[i := n]) = chain_sum f P c + (if P (vs_xmin n) then f n - f (c ! i) else 0)"
  using assms
proof (induction c arbitrary: i)
  case (Cons m c)
  then show ?case by (cases i) (auto simp: algebra_simps)
qed simp

lemma add_to_version_chain:
  assumes d: "chain_desc b (abtvs_find_chain_head vs (ABTVS_KEY index_id blkno))" and x: "in_window b xmin"
  shows "chain_desc b (abtvs_find_chain_head (abt_add_to_version vs index_id blkno xmin dval (int8_info m)) (ABTVS_KEY index_id blkno))"
    and "chain_sum vs_delta P (abtvs_find_chain_head (abt_add_to_version vs index_id blkno xmin dval (int8_info m)) (ABTVS_KEY index_id blkno))
      = chain_sum vs_delta P (abtvs_find_chain_head vs (ABTVS_KEY index_id blkno)) + (if P xmin then dval else 0)"
proof -
  let ?k = "ABTVS_KEY index_id blkno"
  obtain i c where ic: "find_or_create_loop xmin (abtvs_find_chain_head vs ?k) = (i, c)" by fastforce
  note sp = find_or_create_spec [OF d x ic]
  let ?n = "(c ! i)\<lparr>vs_delta := vs_delta (c ! i) + dval\<rparr>"
  have "add_delta (int8_info m) a e = a + e" for a e
    by (simp add: add_delta_def abt_fill_agg_info_def abt_compute_tuple_offsets_def Let_def)
  then have new: "abtvs_find_chain_head (abt_add_to_version vs index_id blkno xmin dval (int8_info m)) ?k = c[i := ?n]"
    by (simp add: abt_add_to_version_def abtvs_find_or_create_node_def ic abtvs_find_chain_head_def [of "_(_ \<mapsto> _)"] Let_def)
  have "map vs_xmin (c[i := ?n]) = map vs_xmin c" by (simp add: map_update list_update_same_conv sp(1))
  then show "chain_desc b (abtvs_find_chain_head (abt_add_to_version vs index_id blkno xmin dval (int8_info m)) ?k)"
    using sp(3) chain_desc_xmins unfolding new by blast
  show "chain_sum vs_delta P (abtvs_find_chain_head (abt_add_to_version vs index_id blkno xmin dval (int8_info m)) ?k)
      = chain_sum vs_delta P (abtvs_find_chain_head vs ?k) + (if P xmin then dval else 0)"
    unfolding new using chain_sum_update [OF sp(1), of ?n vs_delta P] sp(2) sp(4) [of vs_delta P] by simp
qed

lemma ABTVS_KEY_get:
  "ABTVS_KEY_GET_OID (ABTVS_KEY oid blkno) = oid" "ABTVS_KEY_GET_BLKNO (ABTVS_KEY oid blkno) = blkno"
proof -
  have "\<not> bit blkno (32 + n)" for n using bit_imp_le_length [of blkno "32 + n"] by auto
  then show "ABTVS_KEY_GET_OID (ABTVS_KEY oid blkno) = oid" "ABTVS_KEY_GET_BLKNO (ABTVS_KEY oid blkno) = blkno"
    by (auto simp: ABTVS_KEY_GET_OID_def ABTVS_KEY_GET_BLKNO_def ABTVS_KEY_def bit_simps intro!: bit_word_eqI)
qed

lemma ABTVS_KEY_inj: "ABTVS_KEY oid blkno = ABTVS_KEY oid' blkno' \<longleftrightarrow> oid = oid' \<and> blkno = blkno'"
  using ABTVS_KEY_get by metis

section \<open>One step of the update along a path\<close>

text \<open>The addition to the aggregation value stored with a downlink, read back as \<^verbatim>\<open>fetch_att\<close> does. For
  a 16-bit value the code adds the sign-extended operand to the 32-bit word at its address, on a
  little-endian machine the value and the two padding bytes that \<^verbatim>\<open>INTALIGN\<close> reserves after it; the
  carry goes to the padding, which is never read (\<^verbatim>\<open>int2_word_low\<close> below) and is taken to be 0
  here.\<close>

definition int2_word :: "16 word \<Rightarrow> 16 word \<Rightarrow> 32 word" where
  "int2_word padding v = push_bit 16 (ucast padding) OR ucast v"

definition agg_fetch_add :: "ABTCachedAggInfo \<Rightarrow> Datum \<Rightarrow> Datum \<Rightarrow> Datum" where
  "agg_fetch_add agg_info agg dval =
     (if agg_typlen agg_info = 8 then agg + dval
      else if agg_typlen agg_info = 4 then scast ((ucast agg :: 32 word) + DatumGetInt32 dval)
      else scast (ucast (int2_word 0 (ucast agg) + scast (DatumGetInt16 dval)) :: 16 word))"

lemma int2_word_low: "(ucast (int2_word padding v + scast w) :: 16 word) = v + w"
proof -
  have "(ucast (int2_word padding v) :: 16 word) = v"
    by (rule bit_word_eqI) (auto simp: int2_word_def bit_simps)
  moreover have "(ucast (scast w :: 32 word) :: 16 word) = w"
    by (rule bit_word_eqI) (auto simp: bit_simps)
  moreover have "(ucast (a + b) :: 16 word) = ucast a + ucast b" for a b :: "32 word"
  proof transfer
    fix a b :: int
    have low: "take_bit 16 (take_bit 32 x) = take_bit 16 x" for x :: int by simp
    have "take_bit 16 (take_bit 32 a + take_bit 32 b) = take_bit 16 (a + b)"
      using take_bit_add [of 16 "take_bit 32 a" "take_bit 32 b"] take_bit_add [of 16 a b] unfolding low by simp
    then show "take_bit LENGTH(16) (take_bit LENGTH(32) (a + b)) = take_bit LENGTH(16) (take_bit LENGTH(32) a + take_bit LENGTH(32) b)"
      by simp
  qed
  ultimately show ?thesis by simp
qed

definition tuple_fetch_add :: "ABTCachedAggInfo \<Rightarrow> Datum \<Rightarrow> IndexTupleData \<Rightarrow> IndexTupleData" where
  "tuple_fetch_add agg_info dval itup =
     itup\<lparr>it_aggs := (it_aggs itup)[0 := agg_fetch_add agg_info (it_aggs itup ! 0) dval]\<rparr>"

text \<open>The part of \<^verbatim>\<open>_abt_fix_path_aggregation_itup\<close> from \<^verbatim>\<open>do_current_update\<close>: the aggregate of the downlink and
  the version chain of the child change by the same value.\<close>

definition do_current_update ::
  "32 word \<Rightarrow> ABTCachedAggInfo \<Rightarrow> TransactionId \<Rightarrow> Datum \<Rightarrow> nat \<Rightarrow> PageData \<times> version_store
     \<Rightarrow> PageData \<times> version_store" where
  "do_current_update index_id agg_info xmin dval off st =
     (let (page, vs) = st;
          itemid = PageGetItemId page off;
          itup = pi_tup itemid;
          cblkno = ABTreeTupleGetDownLink itup
      in (page\<lparr>pd_linp := (pd_linp page)[off - 1 := itemid\<lparr>pi_tup := tuple_fetch_add agg_info dval itup\<rparr>]\<rparr>,
          abt_add_to_version vs index_id cblkno xmin dval agg_info))"

text \<open>Every version chain of the store is in descending order of its ids.\<close>

definition wf_version_store :: "TransactionId \<Rightarrow> version_store \<Rightarrow> bool" where
  "wf_version_store b vs \<longleftrightarrow> (\<forall>key. chain_desc b (abtvs_find_chain_head vs key))"

lemma add_to_version_other:
  "key \<noteq> ABTVS_KEY index_id blkno
     \<Longrightarrow> abtvs_find_chain_head (abt_add_to_version vs index_id blkno xmin dval ai) key = abtvs_find_chain_head vs key"
  by (auto simp: abt_add_to_version_def abtvs_find_chain_head_def Let_def split: prod.splits)

lemma add_to_version_wf:
  assumes "wf_version_store b vs" and "in_window b xmin"
  shows "wf_version_store b (abt_add_to_version vs index_id blkno xmin dval (int8_info m))"
  unfolding wf_version_store_def
proof
  fix key
  show "chain_desc b (abtvs_find_chain_head (abt_add_to_version vs index_id blkno xmin dval (int8_info m)) key)"
    using assms add_to_version_chain(1) [of b vs index_id blkno xmin dval m] add_to_version_other [of key index_id blkno vs xmin dval "int8_info m"]
    by (cases "key = ABTVS_KEY index_id blkno") (simp_all add: wf_version_store_def)
qed

lemma read_agg_chain:
  assumes "snapshot_from b r s" and "chain_desc b (abtvs_find_chain_head vs (ABTVS_KEY index_id (ABTreeTupleGetDownLink t)))"
  shows "abt_read_agg False vs index_id t (Some s) (int8_info m) = it_aggs t ! 0
    - chain_sum vs_delta (\<lambda>x. abt_xid_in_snapshot x (Some s)) (abtvs_find_chain_head vs (ABTVS_KEY index_id (ABTreeTupleGetDownLink t)))"
  using exclude_chain [OF assms] by (simp add: abt_read_agg_def abtvs_exclude_agg_in_snapshot_def Let_def)

lemma tuple_fetch_add_int8:
  assumes "it_aggs t \<noteq> []"
  shows "it_aggs (tuple_fetch_add (int8_info m) d t) ! 0 = it_aggs t ! 0 + d"
  using assms by (simp add: tuple_fetch_add_def agg_fetch_add_def abt_fill_agg_info_def abt_compute_tuple_offsets_def Let_def)

lemma tuple_fetch_add_downlink [simp]: "ABTreeTupleGetDownLink (tuple_fetch_add ai d t) = ABTreeTupleGetDownLink t"
  by (simp add: tuple_fetch_add_def ABTreeTupleGetDownLink_def)

section \<open>What garbage collection leaves\<close>

lemma recycle_safe_nodes:
  assumes "TransactionIdIsNormal r" and "chain_desc b c"
  shows "recycle_chain r c = safe_nodes r c"
proof -
  have "\<forall>n\<in>set c. TransactionIdIsNormal (vs_xmin n)" using assms(2) by (simp add: chain_desc_def in_window_def)
  then show ?thesis
    unfolding recycle_chain_def safe_nodes_def using assms(1) by (auto simp: precedes_normal intro: takeWhile_cong)
qed

lemma recycled_head:
  "abtvs_find_chain_head (abtvs_scan_and_recycle_old_versions r vs) key = recycle_chain r (abtvs_find_chain_head vs key)"
  by (auto simp: abtvs_scan_and_recycle_old_versions_def abtvs_try_delete_maybe_deletable_def abtvs_find_chain_head_def
      recycle_chain_def split: option.splits)

section \<open>Non-negative weights: no overflow\<close>

definition delta_sum :: "ABTVSNode list \<Rightarrow> nat" where
  "delta_sum chain = (\<Sum>n\<leftarrow>chain. unat (vs_delta n))"

lemma int8_add_total: "unat a + unat b < 2 ^ 63 \<Longrightarrow> agg_add_fn (int8_info m) a b = Some (a + b)"
  using int8pl_of_nat [of "unat a" "unat b"] by (simp add: fill_agg_info_fns int8_chk_def)

lemma delta_sum_simps [simp]:
  "delta_sum [] = 0" "delta_sum (n # c) = unat (vs_delta n) + delta_sum c" "delta_sum (c @ d) = delta_sum c + delta_sum d"
  by (simp_all add: delta_sum_def)

lemma add_to_tail_total:
  assumes "delta_sum chain + unat v < 2 ^ 63" and "in_window b x"
  shows "\<exists>c. add_to_tail (int8_info m) x v chain = Some c \<and> delta_sum c = delta_sum chain + unat v"
proof (cases chain rule: rev_cases)
  case Nil
  have "x \<noteq> InvalidTransactionId"
    using assms(2) by (auto simp: in_window_def TransactionIdIsNormal_def InvalidTransactionId_def FirstNormalTransactionId_def)
  then show ?thesis using Nil by (simp add: add_to_tail_def)
next
  case (snoc ns n)
  have lt: "unat (vs_delta n) + unat v < 2 ^ 63" using assms(1) by (simp add: snoc)
  have "unat (vs_delta n + v) = unat (vs_delta n) + unat v" by (rule unat_add_lem [THEN iffD1]) (use lt in simp)
  then show ?thesis using int8_add_total [OF lt] snoc by (simp add: add_to_tail_def Let_def)
qed

lemma build_chain_total:
  assumes "(\<Sum>r\<in>#mset heap. delta_sum (ref_nodes rgx (int8_info m) page r)) + delta_sum chain < 2 ^ 63"
    and "\<forall>r\<in>set heap. ref_ok rgx (int8_info m) page r"
  shows "\<exists>c. build_chain (int8_info m) rgx page heap chain = Some c"
  using assms
proof (induction "sum_mset (image_mset ref_size (mset heap))" arbitrary: heap chain rule: less_induct)
  case less
  let ?ai = "int8_info m"
  let ?N = "\<lambda>r. delta_sum (ref_nodes rgx ?ai page r)"
  let ?get = "abtvs_itup_get_xmin page"
  show ?case
  proof (cases "heap = []")
    case False
    let ?t = "hd heap"
    let ?h = "pop_heap ?get (next_ref rgx ?t) heap"
    have t: "?t \<in> set heap" using False by simp
    note un = ref_nodes_unfold [OF less.prems(2) [rule_format, OF t]]
    have mh: "mset ?h = mset heap - {#?t#} + (case next_ref rgx ?t of None \<Rightarrow> {#} | Some r \<Rightarrow> {#r#})"
      by (rule mset_pop_heap [OF False])
    have "mset heap = add_mset ?t (mset heap - {#?t#})" using t by simp
    from arg_cong [OF this, of "\<lambda>M. \<Sum>r\<in>#M. ?N r"]
    have "(\<Sum>r\<in>#mset heap. ?N r) = ?N ?t + (\<Sum>r\<in>#mset heap - {#?t#}. ?N r)"
      by (simp only: image_mset_add_mset sum_mset.add_mset)
    moreover have "?N ?t = unat (ref_item_agg ?ai page ?t) + (case next_ref rgx ?t of None \<Rightarrow> 0 | Some r \<Rightarrow> ?N r)"
      using un(1) by (simp split: option.splits)
    ultimately have sum: "(\<Sum>r\<in>#mset heap. ?N r) = unat (ref_item_agg ?ai page ?t) + (\<Sum>r\<in>#mset ?h. ?N r)"
      by (simp add: mh split: option.splits)
    obtain c where c: "add_to_tail ?ai (?get ?t) (ref_item_agg ?ai page ?t) chain = Some c"
      "delta_sum c = delta_sum chain + unat (ref_item_agg ?ai page ?t)"
      using add_to_tail_total [OF _ un(2), of chain "ref_item_agg ?ai page ?t" m] less.prems(1) sum by auto
    have "\<exists>c'. build_chain ?ai rgx page ?h c = Some c'"
    proof (rule less.hyps [OF pop_heap_size [OF False]])
      show "(\<Sum>r\<in>#mset ?h. ?N r) + delta_sum c < 2 ^ 63" using less.prems(1) sum c(2) by simp
      show "\<forall>r\<in>set ?h. ref_ok rgx ?ai page r"
      proof
        fix r assume "r \<in> set ?h"
        then have "r \<in># mset heap - {#?t#} + (case next_ref rgx ?t of None \<Rightarrow> {#} | Some r \<Rightarrow> {#r#})"
          unfolding mh [symmetric] by simp
        then show "ref_ok rgx ?ai page r"
          using less.prems(2) un(3) by (auto dest!: in_diffD split: option.splits)
      qed
    qed
    then show ?thesis using c(1) False by (simp add: build_chain.simps [of ?ai rgx page heap])
  qed (simp add: build_chain.simps)
qed

lemma int8_accum_total:
  "unat a + unat v < 2 ^ 63 \<Longrightarrow> abt_accum_value (int8_info m) a v False = Some (a + v) \<and> unat (a + v) = unat a + unat v"
  using int8_add_total [of a v m] unat_add_lem [of a v] by (simp add: abt_accum_value_def)

lemma collect_leaf_total:
  assumes "unat agg + (\<Sum>r\<leftarrow>refs. unat (ref_item_agg (int8_info m) page r)) < 2 ^ 63"
  shows "\<exists>a h. collect_leaf (int8_info m) rgx page refs agg heap = Some (a, h)"
  using assms
proof (induction refs arbitrary: agg heap)
  case (Cons r refs)
  have "unat agg + unat (ref_item_agg (int8_info m) page r) < 2 ^ 63" using Cons.prems by simp
  note acc = int8_accum_total [OF this]
  then show ?case using Cons.IH Cons.prems by (simp add: Let_def acc)
qed simp

lemma collect_internal_total:
  assumes "unat agg + (\<Sum>t\<leftarrow>ts. unat (it_aggs t ! 0)) < 2 ^ 63" and "\<forall>t\<in>set ts. agg_tuple_ok (int8_info m) False t"
  shows "\<exists>a h. collect_internal (int8_info m) rgx vs index_id ts agg heap = Some (a, h)"
  using assms
proof (induction ts arbitrary: agg heap)
  case (Cons t ts)
  have "unat agg + unat (it_aggs t ! 0) < 2 ^ 63" using Cons.prems by simp
  note acc = int8_accum_total [OF this]
  have "ABTreeTupleIsPivot t" using Cons.prems(2) by (simp add: agg_tuple_ok_def)
  then have "\<not> ABTreeTupleIsPosting t" by (simp add: IsPivot_bits IsPosting_bits)
  then have "abt_accum_index_tuple_value (int8_info m) agg t False False = Some (agg + it_aggs t ! 0)"
    using acc by (simp add: abt_accum_index_tuple_value_def)
  then show ?case using Cons.IH [of "agg + it_aggs t ! 0"] Cons.prems acc by (simp add: Let_def)
qed simp

lemma installed_head: "abtvs_find_chain_head (abt_install_version_chain vs index_id blkno chain) (ABTVS_KEY index_id blkno) = chain"
  by (auto simp: abt_install_version_chain_def abtvs_replace_chain_head_def abtvs_find_chain_head_def)

text \<open>The weights of the items of a leaf page that a snapshot sees.\<close>

definition visible_weight :: "ABTCachedAggInfo \<Rightarrow> PageData \<Rightarrow> ABTSnapshotData \<Rightarrow> Datum" where
  "visible_weight ai page s =
     (\<Sum>r\<leftarrow>leaf_refs page. if abt_xid_in_snapshot (abtvs_itup_get_xmin page r) (Some s) then 0 else ref_item_agg ai page r)"

lemma leaf_compute_total:
  assumes leaf: "ABT_P_ISLEAF (pd_special page)" and rw: "in_window b rgx"
    and win: "\<forall>r\<in>set (leaf_refs page). TransactionIdIsNormal (abtvs_itup_get_xmin page r) \<longrightarrow> in_window b (abtvs_itup_get_xmin page r)"
    and fits: "(\<Sum>r\<leftarrow>leaf_refs page. unat (ref_item_agg (int8_info m) page r)) < 2 ^ 63"
  shows "\<exists>agg chain. abt_compute_page_aggregate_and_version_chain rgx vs index_id page (int8_info m) = Some (agg, chain)"
proof -
  let ?ai = "int8_info m"
  let ?get = "abtvs_itup_get_xmin page"
  obtain agg heap where col: "collect_leaf ?ai rgx page (leaf_refs page) 0 [] = Some (agg, heap)"
    using collect_leaf_total [of 0 m page "leaf_refs page" rgx "[]"] fits by auto
  have heap: "heap = filter (\<lambda>r. TransactionIdIsValid (?get r) \<and> \<not> TransactionIdPrecedes (?get r) rgx) (leaf_refs page)"
    using int8_agg.collect_leaf_sum [OF col] by simp
  have ok: "\<forall>r\<in>set heap. ref_ok rgx ?ai page r"
    using recent_in_window(3) [OF rw] win leaf_ref_cases unfolding heap ref_ok_def ref_nodes_def by fastforce
  have "\<forall>r\<in>set heap. in_window rgx (?get r)" using ok ref_nodes_unfold(2) by blast
  note mk = make_heap [OF this]
  have "(\<Sum>r\<leftarrow>heap. delta_sum (ref_nodes rgx ?ai page r)) \<le> (\<Sum>r\<leftarrow>leaf_refs page. unat (ref_item_agg ?ai page r))"
  proof -
    have "(\<Sum>r\<leftarrow>heap. delta_sum (ref_nodes rgx ?ai page r)) = (\<Sum>r\<leftarrow>heap. unat (ref_item_agg ?ai page r))"
      by (rule arg_cong [where f = sum_list], rule map_cong) (use leaf_ref_cases heap in \<open>fastforce simp: ref_nodes_def\<close>)+
    also have "\<dots> \<le> (\<Sum>r\<leftarrow>leaf_refs page. unat (ref_item_agg ?ai page r))" unfolding heap by (rule sum_list_filter_le_nat)
    finally show ?thesis .
  qed
  then have "(\<Sum>r\<in>#mset (abtvs_make_xmin_max_heap ?get heap). delta_sum (ref_nodes rgx ?ai page r)) + delta_sum [] < 2 ^ 63"
    using fits by (simp add: mk(2) flip: sum_mset_sum_list)
  moreover have "\<forall>r\<in>set (abtvs_make_xmin_max_heap ?get heap). ref_ok rgx ?ai page r"
    using ok mk(2) by (metis set_mset_mset)
  ultimately obtain chain where "build_chain ?ai rgx page (abtvs_make_xmin_max_heap ?get heap) [] = Some chain"
    using build_chain_total by blast
  then show ?thesis
    using col leaf by (simp add: abt_compute_page_aggregate_and_version_chain_def int8_agg_init Let_def)
qed

lemma delta_sum_safe: "delta_sum (safe_nodes r c) \<le> delta_sum c"
proof -
  have "delta_sum c = delta_sum (safe_nodes r c @ dropWhile (\<lambda>n. \<not> TransactionIdPrecedes (vs_xmin n) r) c)"
    by (simp only: safe_nodes_def takeWhile_dropWhile_id)
  then show ?thesis by (simp only: delta_sum_simps)
qed

lemma internal_compute_total:
  assumes inner: "\<not> ABT_P_ISLEAF (pd_special page)" and rw: "in_window b rgx" and wf: "wf_version_store b vs"
    and ts: "\<forall>t\<in>set (page_data_tuples page). agg_tuple_ok (int8_info m) False t"
    and fits: "(\<Sum>t\<leftarrow>page_data_tuples page. unat (it_aggs t ! 0)) < 2 ^ 63"
      "(\<Sum>t\<leftarrow>page_data_tuples page. delta_sum (abtvs_find_chain_head vs (ABTVS_KEY index_id (ABTreeTupleGetDownLink t)))) < 2 ^ 63"
  shows "\<exists>agg chain. abt_compute_page_aggregate_and_version_chain rgx vs index_id page (int8_info m) = Some (agg, chain)"
proof -
  let ?ai = "int8_info m"
  let ?get = "abtvs_itup_get_xmin page"
  let ?ts = "page_data_tuples page"
  let ?c = "\<lambda>t. abtvs_find_chain_head vs (ABTVS_KEY index_id (ABTreeTupleGetDownLink t))"
  let ?K = "\<lambda>t. safe_nodes rgx (?c t) \<noteq> []"
  obtain agg heap where col: "collect_internal ?ai rgx vs index_id ?ts 0 [] = Some (agg, heap)"
    using collect_internal_total [OF _ ts, of 0 rgx vs index_id "[]"] fits(1) by auto
  have heap: "heap = map (\<lambda>t. NodeRef (?c t)) (filter ?K ?ts)"
    using int8_agg.collect_internal_sum [OF col] ts by (simp add: filter_map comp_def)
  have ok: "\<forall>r\<in>set heap. ref_ok rgx ?ai page r"
    using wf safe_nodes_desc [OF rw] by (auto simp: heap ref_ok_def ref_nodes_def wf_version_store_def)
  have "\<forall>r\<in>set heap. in_window rgx (?get r)" using ok ref_nodes_unfold(2) by blast
  note mk = make_heap [OF this]
  have "(\<Sum>r\<leftarrow>heap. delta_sum (ref_nodes rgx ?ai page r)) = (\<Sum>t\<leftarrow>filter ?K ?ts. delta_sum (safe_nodes rgx (?c t)))"
    by (simp add: heap ref_nodes_def comp_def)
  also have "\<dots> \<le> (\<Sum>t\<leftarrow>?ts. delta_sum (safe_nodes rgx (?c t)))" by (rule sum_list_filter_le_nat)
  also have "\<dots> \<le> (\<Sum>t\<leftarrow>?ts. delta_sum (?c t))" by (rule sum_list_mono) (rule delta_sum_safe)
  finally have "(\<Sum>r\<in>#mset (abtvs_make_xmin_max_heap ?get heap). delta_sum (ref_nodes rgx ?ai page r)) + delta_sum [] < 2 ^ 63"
    using fits(2) by (simp add: mk(2) flip: sum_mset_sum_list)
  moreover have "\<forall>r\<in>set (abtvs_make_xmin_max_heap ?get heap). ref_ok rgx ?ai page r"
    using ok mk(2) by (metis set_mset_mset)
  ultimately obtain chain where "build_chain ?ai rgx page (abtvs_make_xmin_max_heap ?get heap) [] = Some chain"
    using build_chain_total by blast
  then show ?thesis
    using col inner by (simp add: abt_compute_page_aggregate_and_version_chain_def int8_agg_init Let_def)
qed

section \<open>Properties\<close>

definition ex_vs_page :: PageData where
  "ex_vs_page = \<lparr>pd_linp = map (\<lambda>t. \<lparr>lp_dead = False, lp_len = IndexTupleSize t, pi_tup = t\<rparr>)
       [(ex_plain8 2)\<lparr>it_xmins := [13]\<rparr>, (ex_plain8 3)\<lparr>it_xmins := [0]\<rparr>, ex_posting8\<lparr>it_xmins := [5, 14, 11]\<rparr>],
     pd_special = \<lparr>abtpo_prev = 0, abtpo_next = 0, abtpo_level = 0, abtpo_flags = 1,
       abtpo_cycleid = 0, abtpo_last_update_id = 0\<rparr>\<rparr>"

definition ex_vs_snapshot :: ABTSnapshotData where
  "ex_vs_snapshot = \<lparr>s_xmin = 11, s_xmax = 15, s_xip = [13, 11]\<rparr>"

definition ex_pivot :: "BlockNumber \<Rightarrow> Datum \<Rightarrow> IndexTupleData" where
  "ex_pivot blkno agg = ABTreeTupleSetDownLink
     (ABTreeTupleSetNAtts ((ex_plain 5 1)\<lparr>t_info := 32, it_aggs := [agg], it_xmins := []\<rparr>) 1 False) blkno"

lemma ex_pivot_fields: "ABTreeTupleGetDownLink (ex_pivot blkno agg) = blkno" "it_aggs (ex_pivot blkno agg) ! 0 = agg"
  by (simp_all add: ex_pivot_def ABTreeTupleGetDownLink_def ABTreeTupleSetDownLink_def ABTreeTupleSetNAtts_def ex_plain_def)

lemmas xid_defs = in_window_def xid_rank_def TransactionIdIsNormal_def FirstNormalTransactionId_def

lemma ex_vs_snapshot_from: "snapshot_from 3 10 ex_vs_snapshot"
  by (simp add: snapshot_from_def wf_snapshot_def snapshot_bounds_def xids_descending_def ex_vs_snapshot_def xid_defs)

lemma ex_vs_page_leaf:
  "ABT_P_ISLEAF (pd_special ex_vs_page)" "map (abtvs_itup_get_xmin ex_vs_page) (leaf_refs ex_vs_page) = [13, 0, 5, 14, 11]"
  "(\<Sum>r\<leftarrow>leaf_refs ex_vs_page. unat (ref_item_agg (int8_info None) ex_vs_page r)) = 112"
  by code_simp+


text \<open>
  C2. When the aggregate and the version chain of a leaf page are rebuilt, as a page split does, the
  result is right for every snapshot at once: the computation succeeds whenever the weights fit a
  bigint, and after its two results are installed at the downlink, reading the downlink under any
  snapshot that does not reach behind the global data xmin gives exactly the total weight of the
  items of the page that this snapshot sees. Items whose insertion has not been completed are never
  counted.
\<close>

theorem abt_compute_leaf_visible:
  assumes "ABT_P_ISLEAF (pd_special page)" and "in_window b rgx"
    and "\<forall>r\<in>set (leaf_refs page). TransactionIdIsNormal (abtvs_itup_get_xmin page r) \<longrightarrow> in_window b (abtvs_itup_get_xmin page r)"
    and "(\<Sum>r\<leftarrow>leaf_refs page. unat (ref_item_agg (abt_fill_agg_info INT8OID m) page r)) < 2 ^ 63"
  shows "\<exists>agg chain. abt_compute_page_aggregate_and_version_chain rgx vs index_id page (abt_fill_agg_info INT8OID m) = Some (agg, chain)
    \<and> (\<forall>t s. ABTreeTupleGetDownLink t = blkno \<longrightarrow> it_aggs t ! 0 = agg \<longrightarrow> snapshot_from b rgx s \<longrightarrow>
         abt_read_agg False (abt_install_version_chain vs index_id blkno chain) index_id t (Some s) (abt_fill_agg_info INT8OID m)
         = visible_weight (abt_fill_agg_info INT8OID m) page s)"
proof -
  obtain agg chain where c: "abt_compute_page_aggregate_and_version_chain rgx vs index_id page (int8_info m) = Some (agg, chain)"
    using leaf_compute_total [OF assms] by blast
  have "abt_read_agg False (abt_install_version_chain vs index_id blkno chain) index_id t (Some s) (int8_info m) = visible_weight (int8_info m) page s"
    if t: "ABTreeTupleGetDownLink t = blkno" "it_aggs t ! 0 = agg" and s: "snapshot_from b rgx s" for t s
  proof -
    note lc = leaf_chain [OF c assms(1) s assms(3)]
    have "snapshot_from rgx rgx s" using s snapshot_shift [OF s] by (simp add: snapshot_from_def in_window_def xid_rank_def)
    from read_agg_chain [OF this, of "abt_install_version_chain vs index_id blkno chain" index_id t m]
    show ?thesis using lc t by (simp add: installed_head visible_weight_def)
  qed
  then show ?thesis using c by blast
qed

theorem abt_compute_leaf_visible_witness:
  "\<exists>agg chain. abt_compute_page_aggregate_and_version_chain 10 Map.empty 1 ex_vs_page (abt_fill_agg_info INT8OID None) = Some (agg, chain)
    \<and> abt_read_agg False (abt_install_version_chain Map.empty 1 5 chain) 1 (ex_pivot 5 agg) (Some ex_vs_snapshot)
          (abt_fill_agg_info INT8OID None) = 50"
proof -
  have "\<forall>x\<in>set (map (abtvs_itup_get_xmin ex_vs_page) (leaf_refs ex_vs_page)). TransactionIdIsNormal x \<longrightarrow> in_window 3 x"
    unfolding ex_vs_page_leaf by (simp add: xid_defs)
  then have win: "\<forall>r\<in>set (leaf_refs ex_vs_page). TransactionIdIsNormal (abtvs_itup_get_xmin ex_vs_page r)
      \<longrightarrow> in_window 3 (abtvs_itup_get_xmin ex_vs_page r)" by simp
  have rgx: "in_window 3 10" by (simp add: xid_defs)
  have fits: "(\<Sum>r\<leftarrow>leaf_refs ex_vs_page. unat (ref_item_agg (int8_info None) ex_vs_page r)) < 2 ^ 63" by (simp add: ex_vs_page_leaf)
  have "visible_weight (int8_info None) ex_vs_page ex_vs_snapshot = 50" by code_simp
  with abt_compute_leaf_visible [OF ex_vs_page_leaf(1) rgx win fits, of Map.empty 1 5] ex_vs_snapshot_from
  show ?thesis using ex_pivot_fields by metis
qed

text \<open>
  C4. The aggregate of an internal page agrees with what its children give: reading the rebuilt
  aggregate and merged version chain of the page under a snapshot is the sum of the reads of its
  downlinks under the same snapshot. The merge by the heap of chain heads loses nothing and drops only
  nodes that every such snapshot sees, whatever the lengths and the overlap of the children's chains.
\<close>

theorem abt_compute_internal_sum:
  assumes "\<not> ABT_P_ISLEAF (pd_special page)" and "in_window b rgx" and "wf_version_store b vs"
    and "\<forall>t\<in>set (page_data_tuples page). agg_tuple_ok (abt_fill_agg_info INT8OID m) False t"
    and "(\<Sum>t\<leftarrow>page_data_tuples page. unat (it_aggs t ! 0)) < 2 ^ 63"
    and "(\<Sum>t\<leftarrow>page_data_tuples page. delta_sum (abtvs_find_chain_head vs (ABTVS_KEY index_id (ABTreeTupleGetDownLink t)))) < 2 ^ 63"
  shows "\<exists>agg chain. abt_compute_page_aggregate_and_version_chain rgx vs index_id page (abt_fill_agg_info INT8OID m) = Some (agg, chain)
    \<and> (\<forall>t s. ABTreeTupleGetDownLink t = blkno \<longrightarrow> it_aggs t ! 0 = agg \<longrightarrow> snapshot_from b rgx s \<longrightarrow>
         abt_read_agg False (abt_install_version_chain vs index_id blkno chain) index_id t (Some s) (abt_fill_agg_info INT8OID m)
         = (\<Sum>d\<leftarrow>page_data_tuples page. abt_read_agg False vs index_id d (Some s) (abt_fill_agg_info INT8OID m)))"
proof -
  obtain agg chain where c: "abt_compute_page_aggregate_and_version_chain rgx vs index_id page (int8_info m) = Some (agg, chain)"
    using internal_compute_total [OF assms] by blast
  have ts: "\<forall>t\<in>set (page_data_tuples page). agg_tuple_ok (int8_info m) False t
      \<and> chain_desc b (abtvs_find_chain_head vs (ABTVS_KEY index_id (ABTreeTupleGetDownLink t)))"
    using assms(3,4) by (simp add: wf_version_store_def)
  have "abt_read_agg False (abt_install_version_chain vs index_id blkno chain) index_id t (Some s) (int8_info m)
      = (\<Sum>d\<leftarrow>page_data_tuples page. abt_read_agg False vs index_id d (Some s) (int8_info m))"
    if t: "ABTreeTupleGetDownLink t = blkno" "it_aggs t ! 0 = agg" and s: "snapshot_from b rgx s" for t s
  proof -
    have "snapshot_from rgx rgx s" using s snapshot_shift [OF s] by (simp add: snapshot_from_def in_window_def xid_rank_def)
    from read_agg_chain [OF this, of "abt_install_version_chain vs index_id blkno chain" index_id t m]
    show ?thesis using internal_chain [OF c assms(1) s ts] t by (simp add: installed_head)
  qed
  then show ?thesis using c by blast
qed

definition ex_vs_inner :: PageData where
  "ex_vs_inner = \<lparr>pd_linp = map (\<lambda>t. \<lparr>lp_dead = False, lp_len = IndexTupleSize t, pi_tup = t\<rparr>) [ex_pivot 7 100, ex_pivot 8 30],
     pd_special = \<lparr>abtpo_prev = 0, abtpo_next = 0, abtpo_level = 1, abtpo_flags = 0,
       abtpo_cycleid = 0, abtpo_last_update_id = 0\<rparr>\<rparr>"

definition ex_vs_store :: version_store where
  "ex_vs_store = [ABTVS_KEY 1 7 \<mapsto> [\<lparr>vs_xmin = 14, vs_delta = 5\<rparr>, \<lparr>vs_xmin = 13, vs_delta = 6\<rparr>, \<lparr>vs_xmin = 4, vs_delta = 9\<rparr>],
     ABTVS_KEY 1 8 \<mapsto> [\<lparr>vs_xmin = 16, vs_delta = 2\<rparr>, \<lparr>vs_xmin = 13, vs_delta = 3\<rparr>]]"

lemma ex_vs_inner_eval:
  "\<not> ABT_P_ISLEAF (pd_special ex_vs_inner)" "list_all (agg_tuple_ok (int8_info None) False) (page_data_tuples ex_vs_inner)"
  "(\<Sum>t\<leftarrow>page_data_tuples ex_vs_inner. unat (it_aggs t ! 0)) = 130"
  "(\<Sum>t\<leftarrow>page_data_tuples ex_vs_inner. delta_sum (abtvs_find_chain_head ex_vs_store (ABTVS_KEY 1 (ABTreeTupleGetDownLink t)))) = 25"
  "(\<Sum>d\<leftarrow>page_data_tuples ex_vs_inner. abt_read_agg False ex_vs_store 1 d (Some ex_vs_snapshot) (int8_info None)) = 119"
  by code_simp+

lemma ex_vs_store_wf: "wf_version_store 3 ex_vs_store"
  by (simp add: wf_version_store_def abtvs_find_chain_head_def ex_vs_store_def xid_defs)

theorem abt_compute_internal_sum_witness:
  "\<exists>agg chain. abt_compute_page_aggregate_and_version_chain 10 ex_vs_store 1 ex_vs_inner (abt_fill_agg_info INT8OID None) = Some (agg, chain)
    \<and> abt_read_agg False (abt_install_version_chain ex_vs_store 1 5 chain) 1 (ex_pivot 5 agg) (Some ex_vs_snapshot)
          (abt_fill_agg_info INT8OID None)
      = (\<Sum>d\<leftarrow>page_data_tuples ex_vs_inner. abt_read_agg False ex_vs_store 1 d (Some ex_vs_snapshot) (abt_fill_agg_info INT8OID None))"
proof -
  have "in_window 3 10" by (simp add: xid_defs)
  from abt_compute_internal_sum [OF ex_vs_inner_eval(1) this ex_vs_store_wf, of None 1 5]
  obtain agg chain where "abt_compute_page_aggregate_and_version_chain 10 ex_vs_store 1 ex_vs_inner (int8_info None) = Some (agg, chain)"
    and "\<And>t s. ABTreeTupleGetDownLink t = 5 \<Longrightarrow> it_aggs t ! 0 = agg \<Longrightarrow> snapshot_from 3 10 s \<Longrightarrow>
         abt_read_agg False (abt_install_version_chain ex_vs_store 1 5 chain) 1 t (Some s) (int8_info None)
         = (\<Sum>d\<leftarrow>page_data_tuples ex_vs_inner. abt_read_agg False ex_vs_store 1 d (Some s) (int8_info None))"
    using ex_vs_inner_eval by (auto simp: list_all_iff)
  then show ?thesis using ex_pivot_fields ex_vs_snapshot_from by blast
qed


text \<open>
  C5. Adding a weight to a downlink with a bigint aggregate, as one completed step of the update along a
  path: the aggregate of the downlink and the version chain of its child are changed one after the
  other, and after both changes a snapshot that sees the inserting transaction reads the weight added
  at this downlink, while a snapshot that does not see it reads what it read before; every other
  downlink of the page, which leads to another child, reads as before, and all chains stay ordered.
  The store may hold any ordered chains. Reads between the two changes, and the shorter integer
  types, are outside the statement.
\<close>

theorem do_current_update_snapshot:
  assumes "wf_version_store b vs" and "in_window b xmin" and "snapshot_from b r s"
    and "1 \<le> off" "off \<le> length (pd_linp page)" and "it_aggs (PageGetItem page off) \<noteq> []"
    and "1 \<le> k" "k \<le> length (pd_linp page)"
    and "k \<noteq> off \<longrightarrow> ABTreeTupleGetDownLink (PageGetItem page k) \<noteq> ABTreeTupleGetDownLink (PageGetItem page off)"
    and "do_current_update index_id (abt_fill_agg_info INT8OID m) xmin dval off (page, vs) = (page', vs')"
  shows "wf_version_store b vs'
    \<and> abt_read_agg False vs' index_id (PageGetItem page' k) (Some s) (abt_fill_agg_info INT8OID m)
      = abt_read_agg False vs index_id (PageGetItem page k) (Some s) (abt_fill_agg_info INT8OID m)
        + (if k = off \<and> \<not> abt_xid_in_snapshot xmin (Some s) then dval else 0)"
proof -
  let ?t = "PageGetItem page off"
  let ?key = "\<lambda>t. ABTVS_KEY index_id (ABTreeTupleGetDownLink t)"
  have vs': "vs' = abt_add_to_version vs index_id (ABTreeTupleGetDownLink ?t) xmin dval (int8_info m)"
    and page': "PageGetItem page' k = (if k = off then tuple_fetch_add (int8_info m) dval ?t else PageGetItem page k)"
    using assms(4-8,10) by (auto simp: do_current_update_def Let_def PageGetItem_def PageGetItemId_def nth_list_update)
  have wf': "wf_version_store b vs'" unfolding vs' by (rule add_to_version_wf [OF assms(1,2)])
  note chain = wf' [unfolded wf_version_store_def, rule_format] assms(1) [unfolded wf_version_store_def, rule_format]
  note rd = read_agg_chain [OF assms(3) chain(1), of index_id "PageGetItem page' k" m]
    read_agg_chain [OF assms(3) chain(2), of index_id "PageGetItem page k" m]
  show ?thesis
  proof (cases "k = off")
    case True
    then have p: "PageGetItem page' off = tuple_fetch_add (int8_info m) dval ?t" using page' by simp
    show ?thesis
      using rd wf' add_to_version_chain(2) [OF chain(2) assms(2), where P = "\<lambda>x. abt_xid_in_snapshot x (Some s)"
          and index_id = index_id and blkno = "ABTreeTupleGetDownLink ?t" and dval = dval and m = m]
        tuple_fetch_add_int8 [OF assms(6), of m dval]
      by (simp add: p True vs')
  next
    case False
    then have "?key (PageGetItem page k) \<noteq> ?key ?t" using assms(9) ABTVS_KEY_inj by blast
    then have "abtvs_find_chain_head vs' (?key (PageGetItem page k)) = abtvs_find_chain_head vs (?key (PageGetItem page k))"
      unfolding vs' by (rule add_to_version_other)
    then show ?thesis using rd wf' False by (simp add: page')
  qed
qed

theorem do_current_update_snapshot_witness:
  "wf_version_store 3 (snd (do_current_update 1 (abt_fill_agg_info INT8OID None) 12 40 2 (ex_vs_inner, ex_vs_store)))
    \<and> abt_read_agg False (snd (do_current_update 1 (abt_fill_agg_info INT8OID None) 12 40 2 (ex_vs_inner, ex_vs_store))) 1
        (PageGetItem (fst (do_current_update 1 (abt_fill_agg_info INT8OID None) 12 40 2 (ex_vs_inner, ex_vs_store))) 2)
        (Some ex_vs_snapshot) (abt_fill_agg_info INT8OID None)
      = abt_read_agg False ex_vs_store 1 (PageGetItem ex_vs_inner 2) (Some ex_vs_snapshot) (abt_fill_agg_info INT8OID None)
        + (if (2 :: nat) = 2 \<and> \<not> abt_xid_in_snapshot 12 (Some ex_vs_snapshot) then 40 else 0)"
proof (rule do_current_update_snapshot [OF ex_vs_store_wf _ ex_vs_snapshot_from])
  show "in_window 3 12" by (simp add: xid_defs)
  show "it_aggs (PageGetItem ex_vs_inner 2) \<noteq> []" by code_simp
qed (simp_all add: ex_vs_inner_def)

text \<open>
  C7. Garbage collection is invisible: a pass with an \<^verbatim>\<open>oldestXmin\<close> keeps every chain ordered, leaves no
  node that precedes it, and for every snapshot that does not reach behind \<^verbatim>\<open>oldestXmin\<close> every downlink
  reads the same aggregate before and after.
\<close>

theorem abtvs_scan_and_recycle_invisible:
  assumes "wf_version_store b vs" and "snapshot_from b oldestXmin s"
  shows "wf_version_store b (abtvs_scan_and_recycle_old_versions oldestXmin vs)
    \<and> (\<forall>key. list_all (\<lambda>n. \<not> TransactionIdPrecedes (vs_xmin n) oldestXmin)
         (abtvs_find_chain_head (abtvs_scan_and_recycle_old_versions oldestXmin vs) key))
    \<and> abt_read_agg False (abtvs_scan_and_recycle_old_versions oldestXmin vs) index_id t (Some s) (abt_fill_agg_info INT8OID m)
      = abt_read_agg False vs index_id t (Some s) (abt_fill_agg_info INT8OID m)"
proof -
  note chain = assms(1) [unfolded wf_version_store_def, rule_format]
  have norm: "TransactionIdIsNormal oldestXmin" using assms(2) by (simp add: snapshot_from_def in_window_def)
  have head: "abtvs_find_chain_head (abtvs_scan_and_recycle_old_versions oldestXmin vs) key = safe_nodes oldestXmin (abtvs_find_chain_head vs key)" for key
    using recycled_head recycle_safe_nodes [OF norm chain] by metis
  have desc: "chain_desc b (safe_nodes oldestXmin (abtvs_find_chain_head vs key))" for key
  proof -
    have "chain_desc b (safe_nodes oldestXmin (abtvs_find_chain_head vs key)
        @ dropWhile (\<lambda>n. \<not> TransactionIdPrecedes (vs_xmin n) oldestXmin) (abtvs_find_chain_head vs key))"
      using chain by (simp add: safe_nodes_def)
    then show ?thesis unfolding chain_desc_append by blast
  qed
  then have wf: "wf_version_store b (abtvs_scan_and_recycle_old_versions oldestXmin vs)"
    by (simp add: wf_version_store_def head)
  have "\<not> TransactionIdPrecedes (vs_xmin n) oldestXmin" if "n \<in> set (safe_nodes oldestXmin c)" for n c
    using that by (auto simp: safe_nodes_def dest: set_takeWhileD)
  moreover have "abt_read_agg False (abtvs_scan_and_recycle_old_versions oldestXmin vs) index_id t (Some s) (int8_info m)
      = abt_read_agg False vs index_id t (Some s) (int8_info m)"
    using read_agg_chain [OF assms(2), of "abtvs_scan_and_recycle_old_versions oldestXmin vs" index_id t m]
      read_agg_chain [OF assms(2) chain, of index_id t m] safe_nodes_sum [OF assms(2) chain] desc by (simp add: head)
  ultimately show ?thesis using wf by (simp add: head list_all_iff)
qed

theorem abtvs_scan_and_recycle_invisible_witness:
  "wf_version_store 3 (abtvs_scan_and_recycle_old_versions 10 ex_vs_store)
    \<and> (\<forall>key. list_all (\<lambda>n. \<not> TransactionIdPrecedes (vs_xmin n) 10)
         (abtvs_find_chain_head (abtvs_scan_and_recycle_old_versions 10 ex_vs_store) key))
    \<and> abt_read_agg False (abtvs_scan_and_recycle_old_versions 10 ex_vs_store) 1 (ex_pivot 7 100) (Some ex_vs_snapshot) (abt_fill_agg_info INT8OID None)
      = abt_read_agg False ex_vs_store 1 (ex_pivot 7 100) (Some ex_vs_snapshot) (abt_fill_agg_info INT8OID None)"
  by (rule abtvs_scan_and_recycle_invisible [OF ex_vs_store_wf ex_vs_snapshot_from])

end
