(* ===== verification/Search.thy ===== *)
theory Search
  imports Agg Qsort
begin

unbundle bit_operations_syntax

text \<open>
  Searching a page (\<^verbatim>\<open>abtsearch.c\<close>) with an insertion scan key (\<^verbatim>\<open>_abt_mkscankey\<close> of \<^verbatim>\<open>abtutils.c\<close>): the
  comparison of a scan key with a tuple, in which truncated attributes count as minus infinity and
  the heap TID breaks ties, and the binary searches over a page and over a posting list. The
  comparison functions of the operator classes come from the catalog and are fields of the relation;
  those of the integer types (\<^verbatim>\<open>nbtcompare.c\<close>) are given here.
\<close>

section \<open>Scan keys\<close>

definition SK_ISNULL :: "32 word" where "SK_ISNULL = 0x0001"
definition SK_ABT_INDOPTION_SHIFT :: nat where "SK_ABT_INDOPTION_SHIFT = 24"
definition SK_ABT_DESC :: "32 word" where "SK_ABT_DESC = push_bit SK_ABT_INDOPTION_SHIFT 0x0001"
definition SK_ABT_NULLS_FIRST :: "32 word" where "SK_ABT_NULLS_FIRST = push_bit SK_ABT_INDOPTION_SHIFT 0x0002"

record ScanKeyData =
  sk_flags :: "32 word"
  sk_attno :: nat
  sk_func :: "Datum \<Rightarrow> Datum \<Rightarrow> int"
  sk_argument :: Datum

record ABTScanInsertData =
  heapkeyspace :: bool
  allequalimage :: bool
  anynullkeys :: bool
  nextkey :: bool
  pivotsearch :: bool
  scantid :: "ItemPointerData option"
  keysz :: nat
  scankeys :: "ScanKeyData list"

text \<open>What the routines read of an index relation: the numbers of attributes and of key attributes, the
  options of the columns and their ordering support functions.\<close>

record index_rel =
  rd_natts :: nat
  rd_nkeyatts :: nat
  rd_indoption :: "16 word list"
  rd_orderproc :: "(Datum \<Rightarrow> Datum \<Rightarrow> int) list"

text \<open>\<open>hks\<close> and \<open>aei\<close> are what the metapage says.\<close>

definition abt_mkscankey_entry :: "index_rel \<Rightarrow> IndexTupleData option \<Rightarrow> nat \<Rightarrow> ScanKeyData" where
  "abt_mkscankey_entry rel itup i =
     (let tupnatts = (case itup of None \<Rightarrow> 0 | Some t \<Rightarrow> ABTreeTupleGetNAtts (rd_natts rel) t);
          arg = (case itup of None \<Rightarrow> None | Some t \<Rightarrow> if i < tupnatts then index_getattr t (i + 1) else None);
          flags = (if arg = None then SK_ISNULL else 0)
                    OR push_bit SK_ABT_INDOPTION_SHIFT (ucast (rd_indoption rel ! i))
      in \<lparr>sk_flags = flags, sk_attno = i + 1, sk_func = rd_orderproc rel ! i,
          sk_argument = (case arg of None \<Rightarrow> 0 | Some d \<Rightarrow> d)\<rparr>)"

definition abt_mkscankey :: "index_rel \<Rightarrow> bool \<Rightarrow> bool \<Rightarrow> IndexTupleData option \<Rightarrow> ABTScanInsertData" where
  "abt_mkscankey rel hks aei itup =
     (let tupnatts = (case itup of None \<Rightarrow> 0 | Some t \<Rightarrow> ABTreeTupleGetNAtts (rd_natts rel) t);
          hks' = (if itup = None then True else hks);
          keys = map (abt_mkscankey_entry rel itup) [0..<rd_nkeyatts rel]
      in \<lparr>heapkeyspace = hks', allequalimage = (if itup = None then False else aei),
          anynullkeys = list_ex (\<lambda>k. sk_flags k AND SK_ISNULL \<noteq> 0) keys,
          nextkey = False, pivotsearch = False,
          scantid = (if hks' then case itup of None \<Rightarrow> None | Some t \<Rightarrow> ABTreeTupleGetHeapTID t else None),
          keysz = min (rd_nkeyatts rel) tupnatts,
          scankeys = keys\<rparr>)"

section \<open>Comparing a scan key with a tuple\<close>

definition INVERT_COMPARE_RESULT :: "int \<Rightarrow> int" where
  "INVERT_COMPARE_RESULT var = (if var < 0 then 1 else - var)"

definition compare_att :: "ScanKeyData \<Rightarrow> Datum option \<Rightarrow> int" where
  "compare_att scankey datum =
     (if sk_flags scankey AND SK_ISNULL \<noteq> 0 then
        if datum = None then 0
        else if sk_flags scankey AND SK_ABT_NULLS_FIRST \<noteq> 0 then - 1 else 1
      else
        case datum of
          None \<Rightarrow> if sk_flags scankey AND SK_ABT_NULLS_FIRST \<noteq> 0 then 1 else - 1
        | Some d \<Rightarrow>
            let result = sk_func scankey d (sk_argument scankey)
            in if sk_flags scankey AND SK_ABT_DESC = 0 then INVERT_COMPARE_RESULT result else result)"

primrec compare_atts :: "IndexTupleData \<Rightarrow> ScanKeyData list \<Rightarrow> int" where
  "compare_atts itup [] = 0"
| "compare_atts itup (scankey # sks) =
     (let result = compare_att scankey (index_getattr itup (sk_attno scankey))
      in if result \<noteq> 0 then result else compare_atts itup sks)"

definition abt_compare :: "index_rel \<Rightarrow> ABTScanInsertData \<Rightarrow> PageData \<Rightarrow> nat \<Rightarrow> int" where
  "abt_compare rel key page offnum =
     (let opaque = pd_special page
      in if \<not> ABT_P_ISLEAF opaque \<and> offnum = ABT_P_FIRSTDATAKEY opaque then 1
         else
           let itup = PageGetItem page offnum;
               ntupatts = ABTreeTupleGetNAtts (rd_natts rel) itup;
               ncmpkey = min ntupatts (keysz key);
               result = compare_atts itup (take ncmpkey (scankeys key))
           in if result \<noteq> 0 then result
              else if keysz key > ntupatts then 1
              else
                let heapTid = ABTreeTupleGetHeapTID itup
                in case scantid key of
                     None \<Rightarrow>
                       if heapkeyspace key \<and> \<not> pivotsearch key \<and> keysz key = ntupatts \<and> heapTid = None
                       then 1 else 0
                   | Some tid \<Rightarrow>
                       case heapTid of
                         None \<Rightarrow> 1
                       | Some htid \<Rightarrow>
                           let result = ItemPointerCompare tid htid
                           in if result \<le> 0 \<or> \<not> ABTreeTupleIsPosting itup then result
                              else if ItemPointerCompare tid (ABTreeTupleGetMaxHeapTID itup) > 0 then 1
                              else 0)"

section \<open>Binary search\<close>

function binsrch_loop :: "(nat \<Rightarrow> int) \<Rightarrow> int \<Rightarrow> nat \<Rightarrow> nat \<Rightarrow> nat" where
  "binsrch_loop compare cmpval low high =
     (if high > low then
        let mid = low + (high - low) div 2
        in if compare mid \<ge> cmpval then binsrch_loop compare cmpval (mid + 1) high
           else binsrch_loop compare cmpval low mid
      else low)"
  by pat_completeness auto
termination by (relation "measure (\<lambda>(_, _, low, high). high - low)") auto

declare binsrch_loop.simps [simp del]

definition abt_binsrch :: "index_rel \<Rightarrow> ABTScanInsertData \<Rightarrow> PageData \<Rightarrow> nat" where
  "abt_binsrch rel key page =
     (let opaque = pd_special page;
          low = ABT_P_FIRSTDATAKEY opaque;
          high = PageGetMaxOffsetNumber page
      in if high < low then low
         else
           let high = high + 1;
               cmpval = (if nextkey key then 0 else 1);
               low = binsrch_loop (abt_compare rel key page) cmpval low high
           in if ABT_P_ISLEAF opaque then low else low - 1)"

function binsrch_posting_loop :: "IndexTupleData \<Rightarrow> ItemPointerData \<Rightarrow> nat \<Rightarrow> nat \<Rightarrow> nat" where
  "binsrch_posting_loop itup tid low high =
     (if high > low then
        let mid = low + (high - low) div 2;
            res = ItemPointerCompare tid (ABTreeTupleGetPostingN itup mid)
        in if res > 0 then binsrch_posting_loop itup tid (mid + 1) high
           else if res < 0 then binsrch_posting_loop itup tid low mid
           else mid
      else low)"
  by pat_completeness auto
termination by (relation "measure (\<lambda>(_, _, low, high). high - low)") auto

declare binsrch_posting_loop.simps [simp del]

text \<open>\<open>None\<close> is the use of a missing \<^verbatim>\<open>scantid\<close>.\<close>

definition abt_binsrch_posting :: "ABTScanInsertData \<Rightarrow> PageData \<Rightarrow> nat \<Rightarrow> int option" where
  "abt_binsrch_posting key page offnum =
     (let itemid = PageGetItemId page offnum; itup = pi_tup itemid
      in if \<not> ABTreeTupleIsPosting itup then Some 0
         else if lp_dead itemid then Some (- 1)
         else map_option (\<lambda>tid. int (binsrch_posting_loop itup tid 0 (ABTreeTupleGetNPosting itup))) (scantid key))"

text \<open>The parts of an insert state that the search uses.\<close>

record ABTInsertStateData =
  itup_key :: ABTScanInsertData
  ins_page :: PageData
  bounds_valid :: bool
  ins_low :: nat
  ins_stricthigh :: nat
  postingoff :: int

text \<open>The loop of \<^verbatim>\<open>_abt_binsrch_insert\<close>: low, strict high bound and posting list offset.\<close>

function binsrch_insert_loop ::
  "index_rel \<Rightarrow> ABTScanInsertData \<Rightarrow> PageData \<Rightarrow> nat \<Rightarrow> nat \<Rightarrow> nat \<Rightarrow> int \<Rightarrow> nat \<times> nat \<times> int" where
  "binsrch_insert_loop rel key page low high stricthigh postoff =
     (if high > low then
        let mid = low + (high - low) div 2;
            result = abt_compare rel key page mid;
            postoff' = (if result = 0 \<and> scantid key \<noteq> None
                        then the (abt_binsrch_posting key page mid) else postoff)
        in if result \<ge> 1 then binsrch_insert_loop rel key page (mid + 1) high stricthigh postoff'
           else binsrch_insert_loop rel key page low mid (if result \<noteq> 0 then mid else stricthigh) postoff'
      else (low, stricthigh, postoff))"
  by pat_completeness auto
termination by (relation "measure (\<lambda>(_, _, _, low, high, _, _). high - low)") auto

declare binsrch_insert_loop.simps [simp del]

definition abt_binsrch_insert :: "index_rel \<Rightarrow> ABTInsertStateData \<Rightarrow> nat \<times> ABTInsertStateData" where
  "abt_binsrch_insert rel st =
     (let key = itup_key st; page = ins_page st; opaque = pd_special page;
          (low, high) = (if \<not> bounds_valid st then (ABT_P_FIRSTDATAKEY opaque, PageGetMaxOffsetNumber page)
                         else (ins_low st, ins_stricthigh st))
      in if high < low then (low, st\<lparr>ins_low := 0, ins_stricthigh := 0, bounds_valid := False\<rparr>)
         else
           let high = (if \<not> bounds_valid st then high + 1 else high);
               (low', stricthigh, postoff) = binsrch_insert_loop rel key page low high high (postingoff st)
           in (low', st\<lparr>ins_low := low', ins_stricthigh := stricthigh, bounds_valid := True, postingoff := postoff\<rparr>))"

section \<open>Integer operator classes\<close>

definition btint2cmp :: "Datum \<Rightarrow> Datum \<Rightarrow> int" where
  "btint2cmp a b = sint (DatumGetInt16 a) - sint (DatumGetInt16 b)"

definition btint4cmp :: "Datum \<Rightarrow> Datum \<Rightarrow> int" where
  "btint4cmp a b =
     (if sint (DatumGetInt32 a) > sint (DatumGetInt32 b) then 1
      else if sint (DatumGetInt32 a) = sint (DatumGetInt32 b) then 0 else - 1)"

definition btint8cmp :: "Datum \<Rightarrow> Datum \<Rightarrow> int" where
  "btint8cmp a b = (if sint a > sint b then 1 else if sint a = sint b then 0 else - 1)"

section \<open>Lexicographic comparison\<close>

text \<open>The value of a key column: minus infinity where it was truncated away.\<close>

datatype bound = NegInf | Att "Datum option"

lemma bound_cases: "(x = NegInf \<Longrightarrow> P) \<Longrightarrow> (x = Att None \<Longrightarrow> P) \<Longrightarrow> (\<And>a. x = Att (Some a) \<Longrightarrow> P) \<Longrightarrow> P"
  by (cases x; cases "case x of NegInf \<Rightarrow> None | Att d \<Rightarrow> d") auto

fun att_cmp :: "16 word \<Rightarrow> (Datum \<Rightarrow> Datum \<Rightarrow> int) \<Rightarrow> bound \<Rightarrow> bound \<Rightarrow> int" where
  "att_cmp opt proc NegInf NegInf = 0"
| "att_cmp opt proc NegInf (Att b) = - 1"
| "att_cmp opt proc (Att a) NegInf = 1"
| "att_cmp opt proc (Att None) (Att None) = 0"
| "att_cmp opt proc (Att None) (Att (Some b)) = (if bit opt 1 then - 1 else 1)"
| "att_cmp opt proc (Att (Some a)) (Att None) = (if bit opt 1 then 1 else - 1)"
| "att_cmp opt proc (Att (Some a)) (Att (Some b)) =
     (if bit opt 0 then proc b a else INVERT_COMPARE_RESULT (proc b a))"

primrec lex_sign :: "(nat \<Rightarrow> int) \<Rightarrow> nat \<Rightarrow> int" where
  "lex_sign f 0 = 0"
| "lex_sign f (Suc n) = (if lex_sign f n \<noteq> 0 then lex_sign f n else f n)"

text \<open>The signs of the comparisons of \<open>x\<close> with \<open>y\<close>, \<open>y\<close> with \<open>z\<close> and \<open>x\<close> with \<open>z\<close> fit together.\<close>

definition tri :: "int \<Rightarrow> int \<Rightarrow> int \<Rightarrow> bool" where
  "tri f g h = ((f \<le> 0 \<and> g \<le> 0 \<longrightarrow> h \<le> 0) \<and> (f < 0 \<and> g \<le> 0 \<longrightarrow> h < 0) \<and> (f \<le> 0 \<and> g < 0 \<longrightarrow> h < 0)
     \<and> (f = 0 \<and> g = 0 \<longrightarrow> h = 0))"

lemma lex_tri: "(\<And>i. i < n \<Longrightarrow> tri (f i) (g i) (h i)) \<Longrightarrow> tri (lex_sign f n) (lex_sign g n) (lex_sign h n)"
proof (induction n)
  case 0
  show ?case by (simp add: tri_def)
next
  case (Suc n)
  then have "tri (lex_sign f n) (lex_sign g n) (lex_sign h n)" "tri (f n) (g n) (h n)" by simp_all
  then show ?case
    unfolding tri_def
    by (cases "lex_sign f n" "0 :: int" rule: linorder_cases; cases "lex_sign g n" "0 :: int" rule: linorder_cases) simp_all
qed

lemma lex_prefix: "m \<le> n \<Longrightarrow> lex_sign f m \<noteq> 0 \<Longrightarrow> lex_sign f n = lex_sign f m"
  by (induction n) (auto simp: le_Suc_eq)

lemma lex_anti:
  "(\<And>i. i < n \<Longrightarrow> f i < 0 \<longleftrightarrow> 0 < g i) \<Longrightarrow> (\<And>i. i < n \<Longrightarrow> g i < 0 \<longleftrightarrow> 0 < f i)
     \<Longrightarrow> (lex_sign f n < 0 \<longleftrightarrow> 0 < lex_sign g n) \<and> (lex_sign g n < 0 \<longleftrightarrow> 0 < lex_sign f n)"
proof (induction n)
  case (Suc n)
  have "(lex_sign f n < 0 \<longleftrightarrow> 0 < lex_sign g n) \<and> (lex_sign g n < 0 \<longleftrightarrow> 0 < lex_sign f n)" by (rule Suc.IH) (simp_all add: Suc.prems)
  with Suc.prems(1,2) [of n] show ?case by (cases "lex_sign f n" "0 :: int" rule: linorder_cases) auto
qed simp

lemma lex_cong: "(\<And>i. i < n \<Longrightarrow> f i = g i) \<Longrightarrow> lex_sign f n = lex_sign g n"
  by (induction n) simp_all

context qsort_order
begin

lemma cmp_zero_sym: "x \<in> S \<Longrightarrow> y \<in> S \<Longrightarrow> cmp x y = 0 \<longleftrightarrow> cmp y x = 0"
  using anti [of x y] anti [of y x] by auto

lemma cmp_tri:
  assumes S: "x \<in> S" "y \<in> S" "z \<in> S"
  shows "tri (cmp x y) (cmp y z) (cmp x z)"
proof -
  have lt: "cmp x z < 0" if h: "cmp x y \<le> 0" "cmp y z \<le> 0" "cmp x y < 0 \<or> cmp y z < 0"
  proof (rule ccontr)
    assume "\<not> cmp x z < 0"
    then have zx: "cmp z x \<le> 0" using anti [OF S(1,3)] anti [OF S(3,1)] by linarith
    have "cmp y x \<le> 0" using trans [OF S(2,3,1) h(2) zx] .
    moreover have "cmp z y \<le> 0" using trans [OF S(3,1,2) zx h(1)] .
    ultimately show False using h(3) anti [OF S(1,2)] anti [OF S(2,3)] by linarith
  qed
  have eq: "cmp x z = 0" if h: "cmp x y = 0" "cmp y z = 0"
  proof -
    have "cmp x z \<le> 0" using trans [OF S] h by simp
    moreover have "cmp z x \<le> 0" using trans [OF S(3,2,1)] h cmp_zero_sym [OF S(1,2)] cmp_zero_sym [OF S(2,3)] by simp
    ultimately show ?thesis using anti [OF S(1,3)] by linarith
  qed
  show ?thesis unfolding tri_def using trans [OF S] lt eq by (intro conjI impI) auto
qed

end

text \<open>A column comparison inherits the laws of the operator class, whatever the options of the column.\<close>

lemma att_cmp_order:
  assumes "qsort_order proc UNIV"
  shows "qsort_order (att_cmp opt proc) UNIV"
proof
  note A = qsort_order.anti [OF assms, of _ _, simplified] and T = qsort_order.trans [OF assms, of _ _ _, simplified]
  have inv: "INVERT_COMPARE_RESULT (proc b a) \<le> 0 \<longleftrightarrow> proc a b \<le> 0"
    "INVERT_COMPARE_RESULT (proc b a) < 0 \<longleftrightarrow> proc a b < 0"
    "0 < INVERT_COMPARE_RESULT (proc b a) \<longleftrightarrow> 0 < proc a b" for a b
    using A [of a b] A [of b a] unfolding INVERT_COMPARE_RESULT_def by (simp_all split: if_split) linarith+
  show "att_cmp opt proc x y < 0 \<longleftrightarrow> 0 < att_cmp opt proc y x" for x y
    using A inv by (cases "(opt, proc, x, y)" rule: att_cmp.cases) simp_all
  fix x y z assume h: "att_cmp opt proc x y \<le> 0" "att_cmp opt proc y z \<le> 0"
  have A': "proc b a \<le> 0 \<longleftrightarrow> 0 \<le> proc a b" for a b using A [of a b] by linarith
  have some: "att_cmp opt proc (Att (Some a)) (Att (Some c)) \<le> 0"
    if "att_cmp opt proc (Att (Some a)) (Att (Some b)) \<le> 0" "att_cmp opt proc (Att (Some b)) (Att (Some c)) \<le> 0"
    for a b c
    using that T [of a b c] T [of c b a] by (cases "bit opt 0") (simp_all add: inv)
  show "att_cmp opt proc x z \<le> 0"
  proof (cases "\<exists>a b c. x = Att (Some a) \<and> y = Att (Some b) \<and> z = Att (Some c)")
    case True
    then show ?thesis using h some by blast
  next
    case False
    then show ?thesis
      using h by (cases x rule: bound_cases; cases y rule: bound_cases; cases z rule: bound_cases) (auto split: if_splits)
  qed
qed

section \<open>Order of the tuples of an index\<close>

text \<open>What the catalog promises of a relation: an ordering support function and options for each key
  column, and that each function is a three-way comparison of a total preorder.\<close>

definition wf_rel :: "index_rel \<Rightarrow> bool" where
  "wf_rel rel = (length (rd_orderproc rel) = rd_nkeyatts rel \<and> length (rd_indoption rel) = rd_nkeyatts rel
     \<and> rd_nkeyatts rel \<le> rd_natts rel \<and> (\<forall>proc\<in>set (rd_orderproc rel). qsort_order proc UNIV))"

definition col_cmp :: "index_rel \<Rightarrow> nat \<Rightarrow> bound \<Rightarrow> bound \<Rightarrow> int" where
  "col_cmp rel i = att_cmp (rd_indoption rel ! i) (rd_orderproc rel ! i)"

definition tuple_att :: "index_rel \<Rightarrow> IndexTupleData \<Rightarrow> nat \<Rightarrow> bound" where
  "tuple_att rel t i = (if i < ABTreeTupleGetNAtts (rd_natts rel) t then Att (index_getattr t (i + 1)) else NegInf)"

definition max_tid :: "IndexTupleData \<Rightarrow> ItemPointerData" where
  "max_tid t = (if ABTreeTupleIsPosting t then ABTreeTupleGetMaxHeapTID t else the (ABTreeTupleGetHeapTID t))"

definition tids_before :: "IndexTupleData \<Rightarrow> IndexTupleData \<Rightarrow> bool" where
  "tids_before t1 t2 =
     (case ABTreeTupleGetHeapTID t2 of None \<Rightarrow> False
      | Some m \<Rightarrow> (case ABTreeTupleGetHeapTID t1 of None \<Rightarrow> True | Some _ \<Rightarrow> max_tid t1 < m))"

definition tuple_cmp :: "index_rel \<Rightarrow> IndexTupleData \<Rightarrow> IndexTupleData \<Rightarrow> nat \<Rightarrow> int" where
  "tuple_cmp rel t1 t2 n = lex_sign (\<lambda>i. col_cmp rel i (tuple_att rel t1 i) (tuple_att rel t2 i)) n"

definition tuple_before :: "index_rel \<Rightarrow> IndexTupleData \<Rightarrow> IndexTupleData \<Rightarrow> bool" where
  "tuple_before rel t1 t2 =
     (let c = tuple_cmp rel t1 t2 (rd_nkeyatts rel) in c < 0 \<or> c = 0 \<and> tids_before t1 t2)"

text \<open>The items of a page are in order, apart from the first one of an internal page, whose key is not
  kept; the range of a posting list starts with its first heap TID.\<close>

definition first_key :: "PageData \<Rightarrow> nat" where
  "first_key page = ABT_P_FIRSTDATAKEY (pd_special page) + (if ABT_P_ISLEAF (pd_special page) then 0 else 1)"

definition wf_item :: "IndexTupleData \<Rightarrow> bool" where
  "wf_item t = (ABTreeTupleIsPosting t \<longrightarrow> ABTreeTupleGetPostingN t 0 \<le> ABTreeTupleGetMaxHeapTID t)"

definition sorted_page :: "index_rel \<Rightarrow> PageData \<Rightarrow> bool" where
  "sorted_page rel page =
     ((\<forall>i\<in>{first_key page..PageGetMaxOffsetNumber page}. wf_item (PageGetItem page i)
        \<and> (\<forall>j\<in>{Suc i..PageGetMaxOffsetNumber page}. tuple_before rel (PageGetItem page i) (PageGetItem page j))))"

text \<open>A scan key that fits the relation.\<close>

definition key_att :: "ABTScanInsertData \<Rightarrow> nat \<Rightarrow> bound" where
  "key_att key i = (let k = scankeys key ! i in Att (if sk_flags k AND SK_ISNULL \<noteq> 0 then None else Some (sk_argument k)))"

definition wf_scankey :: "index_rel \<Rightarrow> nat \<Rightarrow> ScanKeyData \<Rightarrow> bool" where
  "wf_scankey rel i k =
     (sk_attno k = i + 1 \<and> sk_func k = rd_orderproc rel ! i
      \<and> (sk_flags k AND SK_ABT_DESC \<noteq> 0 \<longleftrightarrow> bit (rd_indoption rel ! i) 0)
      \<and> (sk_flags k AND SK_ABT_NULLS_FIRST \<noteq> 0 \<longleftrightarrow> bit (rd_indoption rel ! i) 1))"

definition wf_key :: "index_rel \<Rightarrow> ABTScanInsertData \<Rightarrow> bool" where
  "wf_key rel key =
     (keysz key \<le> rd_nkeyatts rel \<and> keysz key \<le> length (scankeys key)
      \<and> (\<forall>i<keysz key. wf_scankey rel i (scankeys key ! i))
      \<and> (scantid key \<noteq> None \<longrightarrow> keysz key = rd_nkeyatts rel))"

definition key_cmp :: "index_rel \<Rightarrow> ABTScanInsertData \<Rightarrow> IndexTupleData \<Rightarrow> int" where
  "key_cmp rel key t = lex_sign (\<lambda>i. col_cmp rel i (key_att key i) (tuple_att rel t i)) (keysz key)"

definition tid_cmp :: "index_rel \<Rightarrow> ABTScanInsertData \<Rightarrow> IndexTupleData \<Rightarrow> int" where
  "tid_cmp rel key t =
     (case scantid key of
        None \<Rightarrow> if heapkeyspace key \<and> \<not> pivotsearch key \<and> keysz key = ABTreeTupleGetNAtts (rd_natts rel) t
                     \<and> ABTreeTupleGetHeapTID t = None then 1 else 0
      | Some tid \<Rightarrow>
          (case ABTreeTupleGetHeapTID t of None \<Rightarrow> 1
           | Some htid \<Rightarrow>
               if tid \<le> htid \<or> \<not> ABTreeTupleIsPosting t then ItemPointerCompare tid htid
               else if ABTreeTupleGetMaxHeapTID t < tid then 1 else 0))"

definition key_tuple_cmp :: "index_rel \<Rightarrow> ABTScanInsertData \<Rightarrow> IndexTupleData \<Rightarrow> int" where
  "key_tuple_cmp rel key t = (if key_cmp rel key t \<noteq> 0 then key_cmp rel key t else tid_cmp rel key t)"

lemma compare_att_col_cmp:
  assumes "wf_scankey rel i k" "scankeys key ! i = k"
  shows "compare_att k d = col_cmp rel i (key_att key i) (Att d)"
  using assms
  by (cases d) (auto simp: compare_att_def col_cmp_def key_att_def wf_scankey_def Let_def)

lemma compare_atts_append:
  "compare_atts t (xs @ [k]) =
     (if compare_atts t xs \<noteq> 0 then compare_atts t xs else compare_att k (index_getattr t (sk_attno k)))"
  by (induction xs) (auto simp: Let_def)

lemma compare_atts_lex:
  assumes "wf_key rel key" "n \<le> keysz key" "n \<le> ABTreeTupleGetNAtts (rd_natts rel) t"
  shows "compare_atts t (take n (scankeys key)) = lex_sign (\<lambda>i. col_cmp rel i (key_att key i) (tuple_att rel t i)) n"
  using assms(2,3)
proof (induction n)
  case (Suc n)
  then have wf: "wf_scankey rel n (scankeys key ! n)" and "n < length (scankeys key)"
    using assms(1) by (simp_all add: wf_key_def)
  then show ?case
    using Suc
    by (simp add: take_Suc_conv_app_nth compare_atts_append compare_att_col_cmp [OF wf refl] tuple_att_def)
      (simp add: wf_scankey_def)
qed simp

text \<open>Apart from the first item of an internal page, \<^verbatim>\<open>_abt_compare\<close> compares the key columns
  lexicographically, truncated columns counting as minus infinity, and then the heap TIDs.\<close>

lemma compare_first_internal:
  "\<not> ABT_P_ISLEAF (pd_special page) \<Longrightarrow> offnum = ABT_P_FIRSTDATAKEY (pd_special page)
     \<Longrightarrow> abt_compare rel key page offnum = 1"
  by (simp add: abt_compare_def)

lemma abt_compare_lex:
  assumes wf: "wf_key rel key"
    and first: "ABT_P_ISLEAF (pd_special page) \<or> offnum \<noteq> ABT_P_FIRSTDATAKEY (pd_special page)"
    and t: "t = PageGetItem page offnum"
  shows "abt_compare rel key page offnum = key_tuple_cmp rel key t"
proof -
  define na where "na = ABTreeTupleGetNAtts (rd_natts rel) t"
  define f where "f = (\<lambda>i. col_cmp rel i (key_att key i) (tuple_att rel t i))"
  define n where "n = min na (keysz key)"
  have r: "compare_atts t (take n (scankeys key)) = lex_sign f n"
    unfolding f_def by (rule compare_atts_lex [OF wf]) (simp_all add: n_def na_def)
  have k: "key_cmp rel key t = (if lex_sign f n \<noteq> 0 then lex_sign f n else if na < keysz key then 1 else 0)"
  proof (cases "na < keysz key")
    case True
    have "f na = 1" by (simp add: f_def tuple_att_def na_def col_cmp_def key_att_def Let_def)
    then have "lex_sign f (Suc na) = (if lex_sign f n \<noteq> 0 then lex_sign f n else 1)" using True by (simp add: n_def)
    then show ?thesis using lex_prefix [of "Suc na" "keysz key" f] True by (simp add: key_cmp_def f_def split: if_splits)
  qed (simp add: key_cmp_def f_def n_def)
  have nf: "\<not> (\<not> ABT_P_ISLEAF (pd_special page) \<and> offnum = ABT_P_FIRSTDATAKEY (pd_special page))" using first by blast
  show ?thesis
    unfolding abt_compare_def Let_def if_not_P [OF nf] t [symmetric] na_def [symmetric] n_def [symmetric] r k tid_cmp_def
      key_tuple_cmp_def
    by (simp split: option.split)
qed

lemma col_cmp_tri: "wf_rel rel \<Longrightarrow> i < rd_nkeyatts rel \<Longrightarrow> tri (col_cmp rel i x y) (col_cmp rel i y z) (col_cmp rel i x z)"
  unfolding col_cmp_def by (rule qsort_order.cmp_tri [OF att_cmp_order]) (auto simp: wf_rel_def)

lemma col_cmp_anti: "wf_rel rel \<Longrightarrow> i < rd_nkeyatts rel \<Longrightarrow> col_cmp rel i x y < 0 \<longleftrightarrow> 0 < col_cmp rel i y x"
  unfolding col_cmp_def by (rule qsort_order.anti [OF att_cmp_order]) (auto simp: wf_rel_def)

lemma col_lex_tri:
  assumes "wf_rel rel" "n \<le> rd_nkeyatts rel"
  shows "tri (lex_sign (\<lambda>i. col_cmp rel i (x i) (y i)) n) (lex_sign (\<lambda>i. col_cmp rel i (y i) (z i)) n)
           (lex_sign (\<lambda>i. col_cmp rel i (x i) (z i)) n)"
  using assms by (intro lex_tri col_cmp_tri) auto

lemma col_lex_anti:
  assumes "wf_rel rel" "n \<le> rd_nkeyatts rel"
  shows "lex_sign (\<lambda>i. col_cmp rel i (x i) (y i)) n < 0 \<longleftrightarrow> 0 < lex_sign (\<lambda>i. col_cmp rel i (y i) (x i)) n"
    "0 < lex_sign (\<lambda>i. col_cmp rel i (x i) (y i)) n \<longleftrightarrow> lex_sign (\<lambda>i. col_cmp rel i (y i) (x i)) n < 0"
proof -
  have a: "col_cmp rel i u v < 0 \<longleftrightarrow> 0 < col_cmp rel i v u" if "i < n" for i u v
    by (rule col_cmp_anti [OF assms(1)]) (use that assms(2) in simp)
  have "lex_sign (\<lambda>i. col_cmp rel i (x i) (y i)) n < 0 \<longleftrightarrow> 0 < lex_sign (\<lambda>i. col_cmp rel i (y i) (x i)) n" "lex_sign (\<lambda>i. col_cmp rel i (y i) (x i)) n < 0 \<longleftrightarrow> 0 < lex_sign (\<lambda>i. col_cmp rel i (x i) (y i)) n"
    using lex_anti [of n "\<lambda>i. col_cmp rel i (x i) (y i)" "\<lambda>i. col_cmp rel i (y i) (x i)"] a by blast+
  then show "lex_sign (\<lambda>i. col_cmp rel i (x i) (y i)) n < 0 \<longleftrightarrow> 0 < lex_sign (\<lambda>i. col_cmp rel i (y i) (x i)) n" "0 < lex_sign (\<lambda>i. col_cmp rel i (x i) (y i)) n \<longleftrightarrow> lex_sign (\<lambda>i. col_cmp rel i (y i) (x i)) n < 0" by blast+
qed

text \<open>A key that is at or above a tuple is strictly above every tuple that comes before it, unless the
  two agree on the columns of a key without a heap TID.\<close>

lemma key_cmp_le:
  assumes "wf_rel rel" "wf_key rel key" and T: "tuple_cmp rel t1 t2 (keysz key) \<le> 0" and ge: "0 \<le> key_cmp rel key t2"
  shows "key_cmp rel key t1 > 0 \<or>
           key_cmp rel key t1 = key_cmp rel key t2 \<and> key_cmp rel key t2 = 0
           \<and> tuple_cmp rel t1 t2 (keysz key) = 0"
proof -
  have n: "keysz key \<le> rd_nkeyatts rel" using assms(2) by (simp add: wf_key_def)
  let ?T = "tuple_cmp rel t1 t2 (keysz key)"
  let ?k2 = "lex_sign (\<lambda>i. col_cmp rel i (tuple_att rel t2 i) (key_att key i)) (keysz key)"
  let ?k1 = "lex_sign (\<lambda>i. col_cmp rel i (tuple_att rel t1 i) (key_att key i)) (keysz key)"
  have "tri ?T ?k2 ?k1" unfolding tuple_cmp_def by (rule col_lex_tri [OF assms(1) n])
  moreover have s2: "?k2 < 0 \<longleftrightarrow> 0 < key_cmp rel key t2" "0 < ?k2 \<longleftrightarrow> key_cmp rel key t2 < 0"
    and s1: "?k1 < 0 \<longleftrightarrow> 0 < key_cmp rel key t1" "0 < ?k1 \<longleftrightarrow> key_cmp rel key t1 < 0"
    unfolding key_cmp_def by (rule col_lex_anti [OF assms(1) n])+
  ultimately have tr: "?k2 \<le> 0" "?T < 0 \<or> ?k2 < 0 \<Longrightarrow> 0 < key_cmp rel key t1"
    "?T = 0 \<Longrightarrow> ?k2 = 0 \<Longrightarrow> ?k1 = 0"
    using T ge unfolding tri_def by auto
  show ?thesis
  proof (cases "?T < 0 \<or> ?k2 < 0")
    case False
    then have z: "?T = 0" "?k2 = 0" using T tr(1) by simp_all
    then have "?k1 = 0" by (rule tr(3))
    then show ?thesis using z s1 s2 by simp
  qed (use tr(2) in blast)
qed

lemma tuple_cmp_prefix: "n \<le> m \<Longrightarrow> tuple_cmp rel t1 t2 m \<le> 0 \<Longrightarrow> tuple_cmp rel t1 t2 n \<le> 0"
  unfolding tuple_cmp_def by (metis lex_prefix order_refl)

lemma tuple_cmp_prefix_zero: "n \<le> m \<Longrightarrow> tuple_cmp rel t1 t2 m = 0 \<Longrightarrow> tuple_cmp rel t1 t2 n = 0"
  unfolding tuple_cmp_def by (metis lex_prefix)

lemma key_cmp_before:
  assumes "wf_rel rel" "wf_key rel key" "tuple_before rel t1 t2"
  shows "0 \<le> key_cmp rel key t2 \<Longrightarrow> key_cmp rel key t1 > 0 \<or>
           key_cmp rel key t1 = key_cmp rel key t2 \<and> key_cmp rel key t2 = 0
           \<and> tuple_cmp rel t1 t2 (keysz key) = 0"
proof (rule key_cmp_le [OF assms(1,2)])
  have "tuple_cmp rel t1 t2 (rd_nkeyatts rel) \<le> 0" using assms(3) by (auto simp: tuple_before_def Let_def)
  then show "tuple_cmp rel t1 t2 (keysz key) \<le> 0"
    by (rule tuple_cmp_prefix [rotated]) (use assms(2) in \<open>simp add: wf_key_def\<close>)
qed

text \<open>Minus infinity in every remaining column is the least continuation: nothing comes before it.\<close>

lemma lex_neginf_nonneg:
  assumes "wf_rel rel" "n \<le> rd_nkeyatts rel" "m \<le> n" "\<And>i. m \<le> i \<Longrightarrow> i < n \<Longrightarrow> y i = NegInf"
    and "0 \<le> lex_sign (\<lambda>i. col_cmp rel i (x i) (y i)) m"
  shows "0 \<le> lex_sign (\<lambda>i. col_cmp rel i (x i) (y i)) n"
  using assms(3,2,4,5)
proof (induction n rule: dec_induct)
  case (step n)
  have "0 \<le> col_cmp rel n (x n) NegInf" by (cases "x n" rule: bound_cases) (simp_all add: col_cmp_def)
  then show ?case using step by simp
qed

lemma tid_cmp_before:
  assumes "wf_rel rel" "wf_key rel key" "tuple_before rel t1 t2" "wf_item t1"
    and c: "tuple_cmp rel t1 t2 (keysz key) = 0" and ge: "0 \<le> tid_cmp rel key t2"
  shows "tid_cmp rel key t2 \<le> tid_cmp rel key t1" "scantid key \<noteq> None \<Longrightarrow> 1 \<le> tid_cmp rel key t1"
proof -
  have n: "keysz key \<le> rd_nkeyatts rel" using assms(2) by (simp add: wf_key_def)
  have some: "tids_before t1 t2" if "scantid key \<noteq> None"
    using that assms(2,3) c by (auto simp: wf_key_def tuple_before_def Let_def)
  have one: "1 \<le> tid_cmp rel key t1" if s: "scantid key = Some tid" for tid
  proof (cases "ABTreeTupleGetHeapTID t1")
    case None
    then show ?thesis using s by (simp add: tid_cmp_def)
  next
    case (Some h1)
    obtain h2 where h2: "ABTreeTupleGetHeapTID t2 = Some h2" "max_tid t1 < h2"
      using some s Some by (auto simp: tids_before_def split: option.splits)
    have "h2 \<le> tid"
    proof (rule ccontr)
      assume "\<not> h2 \<le> tid"
      then have "tid \<le> h2" "ItemPointerCompare tid h2 < 0" by simp_all
      then have "tid_cmp rel key t2 < 0" using s h2(1) by (simp only: tid_cmp_def option.case simp_thms if_True)
      then show False using ge by simp
    qed
    then have lt: "max_tid t1 < tid" using h2(2) by simp
    show ?thesis
    proof (cases "ABTreeTupleIsPosting t1")
      case True
      then have "h1 = ABTreeTupleGetPostingN t1 0" using Some by (simp add: ABTreeTupleGetHeapTID_def)
      then have "h1 < tid" using True lt assms(4) by (simp add: wf_item_def max_tid_def)
      then have "\<not> tid \<le> h1" "ABTreeTupleGetMaxHeapTID t1 < tid" using True lt by (simp_all add: max_tid_def)
      then show ?thesis using True Some s by (simp only: tid_cmp_def option.case simp_thms if_True if_False)
    next
      case False
      have "0 < ItemPointerCompare tid h1" using False lt Some by (simp add: max_tid_def)
      then have "1 \<le> ItemPointerCompare tid h1" by linarith
      then show ?thesis using False Some s by (simp only: tid_cmp_def option.case simp_thms if_True)
    qed
  qed
  then show "scantid key \<noteq> None \<Longrightarrow> 1 \<le> tid_cmp rel key t1" by blast
  show "tid_cmp rel key t2 \<le> tid_cmp rel key t1"
  proof (cases "scantid key")
    case None
    have "tid_cmp rel key t2 = 0"
    proof (rule ccontr)
      assume "tid_cmp rel key t2 \<noteq> 0"
      then have t2: "ABTreeTupleGetNAtts (rd_natts rel) t2 = keysz key" "ABTreeTupleGetHeapTID t2 = None"
        using None by (simp_all add: tid_cmp_def split: if_splits)
      have "0 \<le> tuple_cmp rel t1 t2 (rd_nkeyatts rel)"
        unfolding tuple_cmp_def
        by (rule lex_neginf_nonneg [OF assms(1) order_refl n])
          (use c t2 in \<open>simp_all add: tuple_cmp_def tuple_att_def\<close>)
      then show False using assms(3) t2 by (auto simp: tuple_before_def Let_def tids_before_def)
    qed
    then show ?thesis using None by (simp add: tid_cmp_def)
  next
    case (Some tid)
    have "tid_cmp rel key t2 \<le> 1"
      using Some by (simp add: tid_cmp_def ItemPointerCompare_def Let_def split: option.split)
    then show ?thesis using one [OF Some] by simp
  qed
qed

lemma key_tuple_cmp_mono:
  assumes "wf_rel rel" "wf_key rel key" "tuple_before rel t1 t2" "wf_item t1" "0 \<le> key_tuple_cmp rel key t2"
  shows "0 \<le> key_tuple_cmp rel key t1
    \<and> (1 \<le> key_tuple_cmp rel key t2 \<or> scantid key \<noteq> None \<longrightarrow> 1 \<le> key_tuple_cmp rel key t1)"
proof -
  have "0 \<le> key_cmp rel key t2" using assms(5) by (simp add: key_tuple_cmp_def split: if_splits)
  from key_cmp_before [OF assms(1-3) this] show ?thesis
  proof (elim disjE conjE)
    assume eq: "key_cmp rel key t1 = key_cmp rel key t2" "key_cmp rel key t2 = 0"
      "tuple_cmp rel t1 t2 (keysz key) = 0"
    then have "0 \<le> tid_cmp rel key t2" using assms(5) by (simp add: key_tuple_cmp_def)
    from tid_cmp_before [OF assms(1-4) eq(3) this] this show ?thesis
      using eq by (auto simp: key_tuple_cmp_def)
  qed (simp add: key_tuple_cmp_def)
qed

lemma abt_compare_mono:
  assumes "wf_rel rel" "wf_key rel key" "sorted_page rel page"
    and "ABT_P_FIRSTDATAKEY (pd_special page) \<le> i" "i < j" "j \<le> PageGetMaxOffsetNumber page"
    and "0 \<le> abt_compare rel key page j"
  shows "0 \<le> abt_compare rel key page i
    \<and> (1 \<le> abt_compare rel key page j \<or> scantid key \<noteq> None \<longrightarrow> 1 \<le> abt_compare rel key page i)"
proof (cases "\<not> ABT_P_ISLEAF (pd_special page) \<and> i = ABT_P_FIRSTDATAKEY (pd_special page)")
  case True
  then show ?thesis using compare_first_internal [of page i rel key] by simp
next
  case False
  then have nf: "ABT_P_ISLEAF (pd_special page) \<or> i \<noteq> ABT_P_FIRSTDATAKEY (pd_special page)" by blast
  then have "first_key page \<le> i" using assms(4) by (auto simp: first_key_def)
  then have o: "tuple_before rel (PageGetItem page i) (PageGetItem page j)" "wf_item (PageGetItem page i)"
    using assms(3,5,6) unfolding sorted_page_def by auto
  have nf2: "ABT_P_ISLEAF (pd_special page) \<or> j \<noteq> ABT_P_FIRSTDATAKEY (pd_special page)" using assms(4,5) by auto
  show ?thesis
    using key_tuple_cmp_mono [OF assms(1,2) o] assms(7)
    unfolding abt_compare_lex [OF assms(2) nf refl] abt_compare_lex [OF assms(2) nf2 refl] .
qed

section \<open>Correctness of the page searches\<close>

text \<open>The binary search splits a range at the point where the comparison falls below its threshold.\<close>

lemma binsrch_loop_split:
  assumes "low \<le> high" "\<And>i j. low \<le> i \<Longrightarrow> i < j \<Longrightarrow> j < high \<Longrightarrow> c \<le> f j \<Longrightarrow> c \<le> f i"
  shows "low \<le> binsrch_loop f c low high \<and> binsrch_loop f c low high \<le> high
    \<and> (\<forall>i\<in>{low..<binsrch_loop f c low high}. c \<le> f i) \<and> (\<forall>i\<in>{binsrch_loop f c low high..<high}. f i < c)"
  using assms
proof (induction f c low high rule: binsrch_loop.induct)
  case (1 f c low high)
  show ?case
  proof (cases "low < high")
    case False
    then show ?thesis using 1(3) by (simp add: binsrch_loop.simps)
  next
    case True
    define mid where "mid = low + (high - low) div 2"
    have m: "low \<le> mid" "mid < high" using True by (auto simp: mid_def)
    show ?thesis
    proof (cases "c \<le> f mid")
      case hi: True
      let ?r = "binsrch_loop f c (mid + 1) high"
      have r: "binsrch_loop f c low high = ?r" using True hi by (subst binsrch_loop.simps) (simp add: mid_def)
      have "mid + 1 \<le> ?r \<and> ?r \<le> high \<and> (\<forall>i\<in>{mid + 1..<?r}. c \<le> f i) \<and> (\<forall>i\<in>{?r..<high}. f i < c)"
        by (rule 1(1) [OF True mid_def hi]) (use m 1(4) in auto)
      moreover have "c \<le> f i" if "low \<le> i" "i \<le> mid" for i
        using 1(4) [OF that(1), of mid] that m hi by (cases "i = mid") auto
      ultimately show ?thesis unfolding r using m by (auto simp: not_less_eq_eq)
    next
      case lo: False
      let ?r = "binsrch_loop f c low mid"
      have r: "binsrch_loop f c low high = ?r" using True lo by (subst binsrch_loop.simps) (simp add: mid_def)
      have "low \<le> ?r \<and> ?r \<le> mid \<and> (\<forall>i\<in>{low..<?r}. c \<le> f i) \<and> (\<forall>i\<in>{?r..<mid}. f i < c)"
        by (rule 1(2) [OF True mid_def lo]) (use m 1(4) in auto)
      moreover have "f i < c" if "mid \<le> i" "i < high" for i
      proof (rule ccontr)
        assume n: "\<not> f i < c"
        then have "mid < i" using that lo by (cases "i = mid") auto
        then show False using 1(4) [OF m(1), of i] that(2) n lo by simp
      qed
      ultimately show ?thesis unfolding r using m by (auto simp: not_less)
    qed
  qed
qed

text \<open>The slot at which a key belongs: everything before it is below the key, nothing from it on is.\<close>

definition is_slot :: "index_rel \<Rightarrow> ABTScanInsertData \<Rightarrow> PageData \<Rightarrow> int \<Rightarrow> nat \<Rightarrow> bool" where
  "is_slot rel key page c r =
     (ABT_P_FIRSTDATAKEY (pd_special page) \<le> r \<and> r \<le> PageGetMaxOffsetNumber page + 1
      \<and> (\<forall>i\<in>{ABT_P_FIRSTDATAKEY (pd_special page)..<r}. c \<le> abt_compare rel key page i)
      \<and> (\<forall>i\<in>{r..PageGetMaxOffsetNumber page}. abt_compare rel key page i < c))"

lemma is_slot_unique:
  assumes "is_slot rel key page c r" "is_slot rel key page c r'"
  shows "r = r'"
proof (rule ccontr)
  have *: False if "is_slot rel key page c r" "is_slot rel key page c r'" "r < r'" for r r'
    using that unfolding is_slot_def by (metis Suc_eq_plus1 atLeastAtMost_iff atLeastLessThan_iff leD less_Suc_eq_le
        order_less_le_trans order_refl)
  assume "r \<noteq> r'"
  then show False using * [OF assms] * [OF assms(2,1)] by linarith
qed

lemma cmp_threshold_mono:
  assumes "wf_rel rel" "wf_key rel key" "sorted_page rel page" "c = 0 \<or> c = 1"
    and "ABT_P_FIRSTDATAKEY (pd_special page) \<le> i" "i < j" "j \<le> PageGetMaxOffsetNumber page"
    and "c \<le> abt_compare rel key page j"
  shows "c \<le> abt_compare rel key page i"
  using abt_compare_mono [OF assms(1-3,5-7)] assms(4,8) by auto

lemma binsrch_slot:
  assumes "wf_rel rel" "wf_key rel key" "sorted_page rel page"
    and "ABT_P_FIRSTDATAKEY (pd_special page) \<le> PageGetMaxOffsetNumber page + 1" "c = 0 \<or> c = 1"
  shows "is_slot rel key page c (binsrch_loop (abt_compare rel key page) c
    (ABT_P_FIRSTDATAKEY (pd_special page)) (PageGetMaxOffsetNumber page + 1))"
  using binsrch_loop_split [OF assms(4), of c "abt_compare rel key page"]
    cmp_threshold_mono [OF assms(1-3,5)]
  unfolding is_slot_def by (auto simp: less_Suc_eq_le)

text \<open>\<^verbatim>\<open>_abt_binsrch\<close> finds the slot on a leaf page and the last item before the slot on an internal page.\<close>

lemma abt_binsrch_slot:
  assumes "wf_rel rel" "wf_key rel key" "sorted_page rel page"
    and "ABT_P_FIRSTDATAKEY (pd_special page) \<le> PageGetMaxOffsetNumber page + 1"
  shows "ABT_P_ISLEAF (pd_special page) \<Longrightarrow> is_slot rel key page (if nextkey key then 0 else 1) (abt_binsrch rel key page)"
    "\<not> ABT_P_ISLEAF (pd_special page) \<Longrightarrow> ABT_P_FIRSTDATAKEY (pd_special page) \<le> PageGetMaxOffsetNumber page
       \<Longrightarrow> is_slot rel key page (if nextkey key then 0 else 1) (abt_binsrch rel key page + 1)
         \<and> ABT_P_FIRSTDATAKEY (pd_special page) \<le> abt_binsrch rel key page"
proof -
  define c :: int where "c = (if nextkey key then 0 else 1)"
  have cc: "c = 0 \<or> c = 1" by (simp add: c_def)
  note S = binsrch_slot [OF assms cc]
  let ?low = "ABT_P_FIRSTDATAKEY (pd_special page)" and ?max = "PageGetMaxOffsetNumber page"
  define r where "r = binsrch_loop (abt_compare rel key page) c ?low (?max + 1)"
  have S: "is_slot rel key page c r" using S by (simp add: r_def)
  have eq: "abt_binsrch rel key page = (if ?max < ?low then ?low else if ABT_P_ISLEAF (pd_special page) then r else r - 1)"
    unfolding abt_binsrch_def Let_def c_def [symmetric] r_def by simp
  have e: "r = ?low" if "?max < ?low" using S that assms(4) by (simp add: is_slot_def)
  show "is_slot rel key page (if nextkey key then 0 else 1) (abt_binsrch rel key page)"
    if "ABT_P_ISLEAF (pd_special page)"
    using S e that unfolding eq c_def [symmetric] by (cases "?max < ?low") simp_all
  assume i: "\<not> ABT_P_ISLEAF (pd_special page)" "?low \<le> ?max"
  have "?low < r"
  proof (rule ccontr)
    assume "\<not> ?low < r"
    then have "abt_compare rel key page ?low < c" using S i(2) by (simp add: is_slot_def)
    then show False using compare_first_internal [OF i(1) refl, of rel key] cc by auto
  qed
  then show "is_slot rel key page (if nextkey key then 0 else 1) (abt_binsrch rel key page + 1)
    \<and> ?low \<le> abt_binsrch rel key page"
    using S i unfolding eq c_def [symmetric] by simp
qed

lemma insert_loop_up:
  assumes "low < high" "mid = low + (high - low) div 2" "1 \<le> abt_compare rel key page mid"
  shows "binsrch_insert_loop rel key page low high sh po = binsrch_insert_loop rel key page (mid + 1) high sh po"
  by (subst binsrch_insert_loop.simps) (use assms in \<open>simp add: Let_def\<close>)

lemma insert_loop_down:
  assumes "low < high" "mid = low + (high - low) div 2" "\<not> 1 \<le> abt_compare rel key page mid"
  shows "binsrch_insert_loop rel key page low high sh po =
    binsrch_insert_loop rel key page low mid (if abt_compare rel key page mid \<noteq> 0 then mid else sh)
      (if abt_compare rel key page mid = 0 \<and> scantid key \<noteq> None then the (abt_binsrch_posting key page mid) else po)"
  unfolding binsrch_insert_loop.simps [of rel key page low high] Let_def
  using assms(1,3) unfolding assms(2) by (simp only: if_True if_False)

lemma insert_loop_end: "\<not> low < high \<Longrightarrow> binsrch_insert_loop rel key page low high sh po = (low, sh, po)"
  by (subst binsrch_insert_loop.simps) simp

lemma insert_loop_fst: "fst (binsrch_insert_loop rel key page low high sh po) = binsrch_loop (abt_compare rel key page) 1 low high"
proof (induction rel key page low high sh po rule: binsrch_insert_loop.induct)
  case (1 rel key page low high sh po)
  define mid where "mid = low + (high - low) div 2"
  consider "\<not> low < high" | "low < high" "1 \<le> abt_compare rel key page mid" | "low < high" "\<not> 1 \<le> abt_compare rel key page mid"
    by blast
  then show ?case
  proof cases
    case 1
    then show ?thesis by (simp add: insert_loop_end binsrch_loop.simps)
  next
    case 2
    then show ?thesis
      using 1 [OF 2(1) mid_def refl refl] insert_loop_up [OF 2(1) mid_def 2(2), of sh po]
      by (subst binsrch_loop.simps) (simp add: Let_def mid_def [symmetric])
  next
    case 3
    then show ?thesis
      using 1 [OF 3(1) mid_def refl refl] insert_loop_down [OF 3(1) mid_def 3(2), of sh po]
      by (subst binsrch_loop.simps) (simp add: Let_def mid_def [symmetric])
  qed
qed

lemma insert_loop_stricthigh:
  "low \<le> high \<Longrightarrow> high \<le> sh \<Longrightarrow> binsrch_insert_loop rel key page low high sh po = (r, sh', po')
     \<Longrightarrow> r \<le> sh' \<and> (sh' = sh \<or> low \<le> sh' \<and> sh' < high \<and> abt_compare rel key page sh' < 0)"
proof (induction rel key page low high sh po rule: binsrch_insert_loop.induct)
  case (1 rel key page low high sh po)
  show ?case
  proof (cases "low < high")
    case True
    define mid where "mid = low + (high - low) div 2"
    define po1 where "po1 = (if abt_compare rel key page mid = 0 \<and> scantid key \<noteq> None
      then the (abt_binsrch_posting key page mid) else po)"
    have m: "low \<le> mid" "mid < high" using True by (auto simp: mid_def)
    show ?thesis
    proof (cases "1 \<le> abt_compare rel key page mid")
      case hi: True
      have e: "binsrch_insert_loop rel key page (mid + 1) high sh po1 = (r, sh', po')"
        using 1(5) insert_loop_up [OF True mid_def hi] hi by (simp add: po1_def)
      show ?thesis using 1(1) [OF True mid_def refl po1_def hi _ 1(4) e] m by auto
    next
      case lo: False
      define sh1 where "sh1 = (if abt_compare rel key page mid \<noteq> 0 then mid else sh)"
      have e: "binsrch_insert_loop rel key page low mid sh1 po1 = (r, sh', po')"
        using 1(5) insert_loop_down [OF True mid_def lo] unfolding po1_def sh1_def by simp
      have "mid \<le> sh1" using m 1(4) by (simp add: sh1_def)
      from 1(2) [OF True mid_def refl po1_def lo m(1), folded sh1_def, OF this e]
      show ?thesis using m lo by (auto simp: sh1_def split: if_splits)
    qed
  next
    case False
    then show ?thesis using 1(3-5) by (simp add: insert_loop_end)
  qed
qed

text \<open>With a heap TID in the key at most one item of the page matches, and the posting list offset is
  that of the matching item.\<close>

lemma insert_loop_postingoff:
  "low \<le> high \<Longrightarrow> (\<And>i j. low \<le> i \<Longrightarrow> i < j \<Longrightarrow> j < high \<Longrightarrow> 0 \<le> abt_compare rel key page j \<Longrightarrow> 1 \<le> abt_compare rel key page i)
     \<Longrightarrow> scantid key \<noteq> None \<Longrightarrow> binsrch_insert_loop rel key page low high sh po = (r, sh', po')
     \<Longrightarrow> po' = (if r < high \<and> abt_compare rel key page r = 0 then the (abt_binsrch_posting key page r) else po)"
proof (induction rel key page low high sh po rule: binsrch_insert_loop.induct)
  case (1 rel key page low high sh po)
  show ?case
  proof (cases "low < high")
    case True
    define mid where "mid = low + (high - low) div 2"
    define po1 where "po1 = (if abt_compare rel key page mid = 0 \<and> scantid key \<noteq> None
      then the (abt_binsrch_posting key page mid) else po)"
    have m: "low \<le> mid" "mid < high" using True by (auto simp: mid_def)
    show ?thesis
    proof (cases "1 \<le> abt_compare rel key page mid")
      case hi: True
      have e: "binsrch_insert_loop rel key page (mid + 1) high sh po1 = (r, sh', po')"
        using 1(6) insert_loop_up [OF True mid_def hi] hi by (simp add: po1_def)
      have "po' = (if r < high \<and> abt_compare rel key page r = 0 then the (abt_binsrch_posting key page r) else po1)"
        by (rule 1(1) [OF True mid_def refl po1_def hi _ _ 1(5) e]) (use m 1(4) in auto)
      then show ?thesis using hi by (simp add: po1_def)
    next
      case lo: False
      define sh1 where "sh1 = (if abt_compare rel key page mid \<noteq> 0 then mid else sh)"
      have e: "binsrch_insert_loop rel key page low mid sh1 po1 = (r, sh', po')"
        using 1(6) insert_loop_down [OF True mid_def lo] unfolding po1_def sh1_def by simp
      have p: "po' = (if r < mid \<and> abt_compare rel key page r = 0 then the (abt_binsrch_posting key page r) else po1)"
        by (rule 1(2) [OF True mid_def refl po1_def lo m(1), folded sh1_def, OF _ 1(5) e]) (use m 1(4) in auto)
      have r: "r = binsrch_loop (abt_compare rel key page) 1 low mid"
        using insert_loop_fst [of rel key page low mid sh1 po1] e by simp
      have mono: "1 \<le> abt_compare rel key page i" if "low \<le> i" "i < j" "j < mid" "1 \<le> abt_compare rel key page j" for i j
        using 1(4) [of i j] that m by simp
      have B: "low \<le> r \<and> r \<le> mid \<and> (\<forall>i\<in>{low..<r}. 1 \<le> abt_compare rel key page i)
          \<and> (\<forall>i\<in>{r..<mid}. abt_compare rel key page i < 1)"
        unfolding r by (rule binsrch_loop_split [OF m(1)]) (rule mono)
      show ?thesis
      proof (cases "abt_compare rel key page mid = 0")
        case True
        have "r = mid"
        proof (rule ccontr)
          assume "r \<noteq> mid"
          then have "low \<le> r" "r < mid" "abt_compare rel key page r < 1" using B by auto
          then show False using 1(4) [of r mid] m True by simp
        qed
        then show ?thesis using p m True 1(5) by (simp add: po1_def)
      next
        case False
        then have "po1 = po" by (simp add: po1_def)
        then show ?thesis using p m False B by (auto simp: le_less)
      qed
    qed
  next
    case False
    then show ?thesis using 1(6,3) by (simp add: insert_loop_end)
  qed
qed

lemma insert_loop_no_scantid:
  "scantid key = None \<Longrightarrow> snd (snd (binsrch_insert_loop rel key page low high sh po)) = po"
proof (induction rel key page low high sh po rule: binsrch_insert_loop.induct)
  case (1 rel key page low high sh po)
  show ?case
    by (subst binsrch_insert_loop.simps) (use 1(1,2) [OF _ refl refl refl] 1(3) in \<open>simp add: Let_def\<close>)
qed

text \<open>The cached bounds of an insert state enclose the slot.\<close>

definition bounds_ok :: "index_rel \<Rightarrow> ABTInsertStateData \<Rightarrow> bool" where
  "bounds_ok rel st = (let page = ins_page st; key = itup_key st in
     bounds_valid st \<longrightarrow>
       ABT_P_FIRSTDATAKEY (pd_special page) \<le> ins_low st \<and> ins_low st \<le> ins_stricthigh st
       \<and> ins_stricthigh st \<le> PageGetMaxOffsetNumber page + 1
       \<and> (\<forall>i\<in>{ABT_P_FIRSTDATAKEY (pd_special page)..<ins_low st}. 1 \<le> abt_compare rel key page i)
       \<and> (\<forall>i\<in>{ins_stricthigh st..PageGetMaxOffsetNumber page}. abt_compare rel key page i < 0))"

lemma binsrch_insert_search:
  assumes wf: "wf_rel rel" "wf_key rel (itup_key st)" "sorted_page rel (ins_page st)"
    and leaf: "ABT_P_ISLEAF (pd_special (ins_page st))"
    and low: "ABT_P_FIRSTDATAKEY (pd_special (ins_page st)) \<le> PageGetMaxOffsetNumber (ins_page st) + 1"
    and ok: "bounds_ok rel st"
    and r: "abt_binsrch_insert rel st = (off, st')"
  shows "is_slot rel (itup_key st) (ins_page st) 1 off" "bounds_ok rel st'"
    "bounds_valid st' \<Longrightarrow> ins_low st' = off"
    "itup_key st' = itup_key st" "ins_page st' = ins_page st"
    "postingoff st' = (if scantid (itup_key st) \<noteq> None \<and> off \<le> PageGetMaxOffsetNumber (ins_page st)
         \<and> abt_compare rel (itup_key st) (ins_page st) off = 0
       then the (abt_binsrch_posting (itup_key st) (ins_page st) off) else postingoff st)"
proof -
  define key where "key = itup_key st"
  define page where "page = ins_page st"
  define fdk where "fdk = ABT_P_FIRSTDATAKEY (pd_special page)"
  define mx where "mx = PageGetMaxOffsetNumber page"
  define cmp where "cmp = abt_compare rel key page"
  have mono: "0 \<le> cmp i \<and> (1 \<le> cmp j \<or> scantid key \<noteq> None \<longrightarrow> 1 \<le> cmp i)"
    if "fdk \<le> i" "i < j" "j \<le> mx" "0 \<le> cmp j" for i j
    unfolding cmp_def
    by (rule abt_compare_mono [OF wf [folded key_def page_def]])
      (use that in \<open>simp_all add: fdk_def mx_def cmp_def\<close>)
  have ok': "bounds_valid st \<Longrightarrow> fdk \<le> ins_low st \<and> ins_low st \<le> ins_stricthigh st \<and> ins_stricthigh st \<le> mx + 1
      \<and> (\<forall>i\<in>{fdk..<ins_low st}. 1 \<le> cmp i) \<and> (\<forall>i\<in>{ins_stricthigh st..mx}. cmp i < 0)"
    using ok unfolding bounds_ok_def Let_def fdk_def mx_def cmp_def key_def page_def by blast
  define lo where "lo = (if bounds_valid st then ins_low st else fdk)"
  define hi where "hi = (if bounds_valid st then ins_stricthigh st else mx + 1)"
  have lohi: "fdk \<le> lo" "lo \<le> hi" "hi \<le> mx + 1" and below: "\<And>i. fdk \<le> i \<Longrightarrow> i < lo \<Longrightarrow> 1 \<le> cmp i"
    and above: "\<And>i. hi \<le> i \<Longrightarrow> i \<le> mx \<Longrightarrow> cmp i < 0"
    using ok' low unfolding lo_def hi_def fdk_def mx_def page_def [symmetric] by (cases "bounds_valid st"; auto)+
  have all: "is_slot rel key page 1 off \<and> bounds_ok rel st' \<and> (bounds_valid st' \<longrightarrow> ins_low st' = off)
    \<and> itup_key st' = key \<and> ins_page st' = page
    \<and> postingoff st' = (if scantid key \<noteq> None \<and> off \<le> mx \<and> cmp off = 0
         then the (abt_binsrch_posting key page off) else postingoff st)"
  proof (cases "\<not> bounds_valid st \<and> mx < fdk")
    case True
    then have "off = fdk" "st' = st\<lparr>ins_low := 0, ins_stricthigh := 0, bounds_valid := False\<rparr>"
      using r by (simp_all add: abt_binsrch_insert_def Let_def fdk_def mx_def page_def)
    then show ?thesis
      using True low by (simp add: is_slot_def bounds_ok_def fdk_def mx_def page_def key_def)
  next
    case False
    obtain sh po where L: "binsrch_insert_loop rel key page lo hi hi (postingoff st) = (off, sh, po)"
      and st': "st' = st\<lparr>ins_low := off, ins_stricthigh := sh, bounds_valid := True, postingoff := po\<rparr>"
      using r False ok'
      by (cases "bounds_valid st")
        (auto simp: abt_binsrch_insert_def Let_def lo_def hi_def fdk_def mx_def page_def key_def split: prod.splits)
    have off: "off = binsrch_loop cmp 1 lo hi"
      using insert_loop_fst [of rel key page lo hi hi "postingoff st"] L by (simp add: cmp_def)
    have B: "lo \<le> off \<and> off \<le> hi \<and> (\<forall>i\<in>{lo..<off}. 1 \<le> cmp i) \<and> (\<forall>i\<in>{off..<hi}. cmp i < 1)"
      unfolding off by (rule binsrch_loop_split [OF lohi(2)]) (use mono lohi in auto)
    have slot: "is_slot rel key page 1 off"
      unfolding is_slot_def fdk_def [symmetric] mx_def [symmetric] cmp_def [symmetric]
    proof (intro conjI ballI)
      show "cmp i < 1" if "i \<in> {off..mx}" for i using B above [of i] that by (cases "i < hi") auto
      show "1 \<le> cmp i" if "i \<in> {fdk..<off}" for i using B below [of i] that by (cases "i < lo") auto
    qed (use B lohi in auto)
    have SH: "off \<le> sh \<and> (sh = hi \<or> lo \<le> sh \<and> sh < hi \<and> cmp sh < 0)"
      using insert_loop_stricthigh [OF lohi(2) order_refl L] by (simp add: cmp_def)
    have neg: "cmp i < 0" if "sh \<le> i" "i \<le> mx" for i
    proof (rule ccontr)
      assume "\<not> cmp i < 0"
      then have ge: "0 \<le> cmp i" by simp
      have "i < hi" using above [of i] that(2) ge by (cases "hi \<le> i") auto
      then have "lo \<le> sh" "cmp sh < 0" using SH that by auto
      then show False using mono [of sh i] ge that lohi by (cases "sh = i") auto
    qed
    have "bounds_ok rel st'"
      unfolding bounds_ok_def Let_def st'
      using slot SH neg lohi B by (auto simp: is_slot_def fdk_def mx_def cmp_def key_def page_def)
    moreover have "po = (if scantid key \<noteq> None \<and> off \<le> mx \<and> cmp off = 0
        then the (abt_binsrch_posting key page off) else postingoff st)"
    proof (cases "scantid key = None")
      case True
      then show ?thesis using insert_loop_no_scantid [OF True, of rel page lo hi hi "postingoff st"] L by simp
    next
      case False
      have "po = (if off < hi \<and> abt_compare rel key page off = 0
          then the (abt_binsrch_posting key page off) else postingoff st)"
        by (rule insert_loop_postingoff [OF lohi(2) _ False L])
          (use mono False lohi in \<open>auto simp: cmp_def\<close>)
      moreover have "off < hi \<longleftrightarrow> off \<le> mx" if "cmp off = 0" using above [of off] that B lohi by (cases "off = hi") auto
      ultimately show ?thesis using False by (auto simp: cmp_def)
    qed
    ultimately show ?thesis using slot by (simp add: st' key_def page_def)
  qed
  then show "is_slot rel (itup_key st) (ins_page st) 1 off" "bounds_ok rel st'"
    "bounds_valid st' \<Longrightarrow> ins_low st' = off"
    "itup_key st' = itup_key st" "ins_page st' = ins_page st"
    "postingoff st' = (if scantid (itup_key st) \<noteq> None \<and> off \<le> PageGetMaxOffsetNumber (ins_page st)
         \<and> abt_compare rel (itup_key st) (ins_page st) off = 0
       then the (abt_binsrch_posting (itup_key st) (ins_page st) off) else postingoff st)"
    unfolding key_def page_def mx_def cmp_def by blast+
qed

text \<open>Bounds found with a key that has no heap TID stay valid when the heap TID is filled in.\<close>

lemma key_tuple_cmp_scantid:
  assumes "scantid key = None"
  shows "1 \<le> key_tuple_cmp rel key t \<Longrightarrow> 1 \<le> key_tuple_cmp rel (key\<lparr>scantid := Some tid\<rparr>) t"
    "key_tuple_cmp rel key t < 0 \<Longrightarrow> key_tuple_cmp rel (key\<lparr>scantid := Some tid\<rparr>) t < 0"
proof -
  have k: "key_cmp rel (key\<lparr>scantid := Some tid\<rparr>) t = key_cmp rel key t"
    by (simp add: key_cmp_def key_att_def)
  show "1 \<le> key_tuple_cmp rel key t \<Longrightarrow> 1 \<le> key_tuple_cmp rel (key\<lparr>scantid := Some tid\<rparr>) t"
    "key_tuple_cmp rel key t < 0 \<Longrightarrow> key_tuple_cmp rel (key\<lparr>scantid := Some tid\<rparr>) t < 0"
    using assms unfolding key_tuple_cmp_def k by (auto simp: tid_cmp_def split: if_splits)
qed

lemma bounds_ok_scantid:
  assumes "wf_key rel key" "scantid key = None" "keysz key = rd_nkeyatts rel" "itup_key st = key"
    and "ABT_P_ISLEAF (pd_special (ins_page st))" "bounds_ok rel st"
  shows "bounds_ok rel (st\<lparr>itup_key := key\<lparr>scantid := Some tid\<rparr>\<rparr>)"
proof -
  have wf': "wf_key rel (key\<lparr>scantid := Some tid\<rparr>)" using assms(1,3) by (simp add: wf_key_def)
  show ?thesis
    using assms(4,6) key_tuple_cmp_scantid [OF assms(2), of rel _ tid]
    unfolding bounds_ok_def Let_def
    by (simp add: abt_compare_lex [OF assms(1) disjI1 [OF assms(5)] refl]
        abt_compare_lex [OF wf' disjI1 [OF assms(5)] refl])
qed

section \<open>Posting list search\<close>

lemma binsrch_posting_loop_split:
  assumes "low \<le> high" "high \<le> ABTreeTupleGetNPosting itup"
    and "\<And>i j. i < j \<Longrightarrow> j < ABTreeTupleGetNPosting itup \<Longrightarrow> ABTreeTupleGetPostingN itup i < ABTreeTupleGetPostingN itup j"
    and "\<And>i. i < low \<Longrightarrow> ABTreeTupleGetPostingN itup i < tid"
    and "\<And>i. high \<le> i \<Longrightarrow> i < ABTreeTupleGetNPosting itup \<Longrightarrow> tid < ABTreeTupleGetPostingN itup i"
  shows "binsrch_posting_loop itup tid low high \<le> ABTreeTupleGetNPosting itup
    \<and> (\<forall>i<(binsrch_posting_loop itup tid low high). ABTreeTupleGetPostingN itup i < tid)
    \<and> (\<forall>i. binsrch_posting_loop itup tid low high \<le> i \<longrightarrow> i < ABTreeTupleGetNPosting itup
         \<longrightarrow> tid \<le> ABTreeTupleGetPostingN itup i)"
  using assms
proof (induction itup tid low high rule: binsrch_posting_loop.induct)
  case (1 itup tid low high)
  let ?p = "ABTreeTupleGetPostingN itup" and ?n = "ABTreeTupleGetNPosting itup"
  define mid where "mid = low + (high - low) div 2"
  consider "\<not> low < high" | "low < high" "?p mid < tid" | "low < high" "tid < ?p mid" | "low < high" "?p mid = tid"
    by fastforce
  then show ?case
  proof cases
    case 1
    then show ?thesis
      using \<open>low \<le> high\<close> \<open>high \<le> ?n\<close> "1.prems"(4,5) by (simp add: binsrch_posting_loop.simps less_imp_le)
  next
    case 2
    then have m: "low \<le> mid" "mid < high" by (auto simp: mid_def)
    have e: "binsrch_posting_loop itup tid low high = binsrch_posting_loop itup tid (mid + 1) high"
      using 2 by (subst binsrch_posting_loop.simps) (simp add: Let_def mid_def [symmetric])
    have le: "?p i < tid" if "i < mid + 1" for i
      using "1.prems"(3) [of i mid] "1.prems"(2) m that 2(2) by (cases "i = mid") auto
    show ?thesis unfolding e
      by (rule 1(1) [OF 2(1) mid_def refl]) (use 2 m le "1.prems" in auto)
  next
    case 3
    then have m: "low \<le> mid" "mid < high" by (auto simp: mid_def)
    then have ng: "\<not> ?p mid < tid" using 3 by simp
    have e: "binsrch_posting_loop itup tid low high = binsrch_posting_loop itup tid low mid"
      using 3 ng by (subst binsrch_posting_loop.simps) (simp add: Let_def mid_def [symmetric])
    have ge: "tid < ?p i" if "mid \<le> i" "i < ?n" for i
      using "1.prems"(3) [of mid i] that 3(2) by (cases "i = mid") auto
    show ?thesis unfolding e
      by (rule 1(2) [OF 3(1) mid_def refl]) (use 3 ng m ge "1.prems" in auto)
  next
    case 4
    then have m: "mid < high" by (auto simp: mid_def)
    have e: "binsrch_posting_loop itup tid low high = mid"
      using 4 by (subst binsrch_posting_loop.simps) (simp add: Let_def mid_def [symmetric])
    show ?thesis unfolding e
      using "1.prems"(3) [of _ mid] "1.prems"(3) [of mid] "1.prems"(2) m 4(2) by (auto simp: le_less)
  qed
qed

section \<open>Scan keys made from tuples\<close>

lemma and_exp_zero: "(x :: 32 word) AND push_bit n 1 = 0 \<longleftrightarrow> \<not> bit x n"
  by (simp add: push_bit_eq_mult and_exp_eq_0_iff_not_bit)

lemma sk_flag_bits:
  "(x AND SK_ISNULL = 0) = (\<not> bit x 0)" "(x AND SK_ABT_DESC = 0) = (\<not> bit x 24)"
  "(x AND SK_ABT_NULLS_FIRST = 0) = (\<not> bit x 25)"
  using and_exp_zero [of x 0] and_exp_zero [of x 24] and_exp_zero [of x 25]
  by (simp_all add: SK_ISNULL_def SK_ABT_DESC_def SK_ABT_NULLS_FIRST_def SK_ABT_INDOPTION_SHIFT_def push_bit_eq_mult)

lemma mkscankey_flag_bits:
  fixes opt :: "16 word"
  shows "bit ((if b then SK_ISNULL else 0) OR push_bit SK_ABT_INDOPTION_SHIFT (ucast opt)) 0 \<longleftrightarrow> b"
    "bit ((if b then SK_ISNULL else 0) OR push_bit SK_ABT_INDOPTION_SHIFT (ucast opt)) 24 \<longleftrightarrow> bit opt 0"
    "bit ((if b then SK_ISNULL else 0) OR push_bit SK_ABT_INDOPTION_SHIFT (ucast opt)) 25 \<longleftrightarrow> bit opt 1"
  by (auto simp: SK_ISNULL_def SK_ABT_INDOPTION_SHIFT_def bit_or_iff bit_push_bit_iff bit_ucast_iff
      dest: bit_imp_le_length)

lemma mkscankey_entry_wf: "wf_scankey rel i (abt_mkscankey_entry rel itup i)"
  unfolding wf_scankey_def abt_mkscankey_entry_def Let_def
  by (simp add: sk_flag_bits mkscankey_flag_bits)

lemma mkscankey_key_att:
  assumes "i < rd_nkeyatts rel" "i < ABTreeTupleGetNAtts (rd_natts rel) t"
  shows "key_att (abt_mkscankey rel hks aei (Some t)) i = tuple_att rel t i"
  using assms
  by (simp add: key_att_def abt_mkscankey_def abt_mkscankey_entry_def Let_def sk_flag_bits mkscankey_flag_bits
      tuple_att_def split: option.split)

text \<open>A pivot tuple that keeps a heap TID keeps all key columns.\<close>

definition wf_natts :: "index_rel \<Rightarrow> IndexTupleData \<Rightarrow> bool" where
  "wf_natts rel t = (ABTreeTupleIsPivot t \<and> ABTreeTupleGetHeapTID t \<noteq> None
     \<longrightarrow> rd_nkeyatts rel \<le> ABTreeTupleGetNAtts (rd_natts rel) t)"

lemma mkscankey_wf:
  assumes "wf_rel rel" "case itup of None \<Rightarrow> True | Some t \<Rightarrow> wf_natts rel t"
  shows "wf_key rel (abt_mkscankey rel hks aei itup)"
  using assms
  by (auto simp: wf_key_def abt_mkscankey_def Let_def mkscankey_entry_wf wf_natts_def wf_rel_def
      ABTreeTupleGetNAtts_def split: option.splits if_splits)

lemma col_cmp_refl: "wf_rel rel \<Longrightarrow> i < rd_nkeyatts rel \<Longrightarrow> col_cmp rel i x x = 0"
  using col_cmp_anti [of rel i x x] by linarith

lemma lex_all_zero: "(\<And>i. i < n \<Longrightarrow> f i = 0) \<Longrightarrow> lex_sign f n = 0"
  by (induction n) simp_all

lemma mkscankey_sel:
  "keysz (abt_mkscankey rel hks aei (Some t)) = min (rd_nkeyatts rel) (ABTreeTupleGetNAtts (rd_natts rel) t)"
  "scantid (abt_mkscankey rel hks aei (Some t)) = (if hks then ABTreeTupleGetHeapTID t else None)"
  "heapkeyspace (abt_mkscankey rel hks aei (Some t)) = hks"
  "nextkey (abt_mkscankey rel hks aei (Some t)) = False"
  "pivotsearch (abt_mkscankey rel hks aei (Some t)) = False"
  by (simp_all add: abt_mkscankey_def Let_def)

text \<open>The key made from a tuple that is not a pivot compares with the tuples of a page as the tuple itself does.\<close>

lemma mkscankey_key_cmp:
  assumes "wf_rel rel" "\<not> ABTreeTupleIsPivot t"
  shows "key_cmp rel (abt_mkscankey rel hks aei (Some t)) s = tuple_cmp rel t s (rd_nkeyatts rel)"
proof -
  have n: "ABTreeTupleGetNAtts (rd_natts rel) t = rd_natts rel" "rd_nkeyatts rel \<le> rd_natts rel"
    using assms by (simp_all add: ABTreeTupleGetNAtts_def wf_rel_def)
  then have k: "keysz (abt_mkscankey rel hks aei (Some t)) = rd_nkeyatts rel" by (simp add: mkscankey_sel)
  show ?thesis
    unfolding key_cmp_def tuple_cmp_def k
    by (rule lex_cong) (use n in \<open>simp add: mkscankey_key_att\<close>)
qed

lemma tuple_cmp_anti:
  assumes "wf_rel rel" "n \<le> rd_nkeyatts rel"
  shows "tuple_cmp rel t s n < 0 \<longleftrightarrow> 0 < tuple_cmp rel s t n" "tuple_cmp rel t s n = 0 \<longleftrightarrow> tuple_cmp rel s t n = 0"
  using col_lex_anti [OF assms, of "tuple_att rel t" "tuple_att rel s"] unfolding tuple_cmp_def by linarith+

lemma tid_cmp_one:
  assumes "scantid key = Some tid" "1 \<le> tid_cmp rel key s" "ABTreeTupleGetHeapTID s = Some h"
  shows "max_tid s < tid"
proof (cases "tid \<le> h \<or> \<not> ABTreeTupleIsPosting s")
  case True
  then have "1 \<le> ItemPointerCompare tid h" using assms by (simp add: tid_cmp_def)
  then have "0 < ItemPointerCompare tid h" by linarith
  then have "h < tid" by (simp only: ItemPointerCompare_order)
  then have "\<not> ABTreeTupleIsPosting s" using True by auto
  then show ?thesis using \<open>h < tid\<close> assms(3) by (simp add: max_tid_def)
next
  case False
  then show ?thesis using assms by (simp add: tid_cmp_def max_tid_def split: if_splits)
qed

lemma tid_cmp_neg:
  assumes "scantid key = Some tid" "tid_cmp rel key s < 0"
  shows "\<exists>h. ABTreeTupleGetHeapTID s = Some h \<and> tid < h"
proof (cases "ABTreeTupleGetHeapTID s")
  case None
  then show ?thesis using assms by (simp add: tid_cmp_def)
next
  case (Some h)
  then have "ItemPointerCompare tid h < 0" using assms by (simp add: tid_cmp_def split: if_splits)
  then show ?thesis using Some by simp
qed

lemma mkscankey_compare:
  assumes "wf_rel rel" "\<not> ABTreeTupleIsPivot t" "\<not> ABTreeTupleIsPosting t"
    and key: "key = abt_mkscankey rel True aei (Some t)"
  shows "1 \<le> key_tuple_cmp rel key s \<Longrightarrow> wf_item s \<Longrightarrow> tuple_before rel s t"
    "key_tuple_cmp rel key s < 0 \<Longrightarrow> tuple_before rel t s"
proof -
  have tid: "ABTreeTupleGetHeapTID t = Some (t_tid t)" using assms(2,3) by (simp add: ABTreeTupleGetHeapTID_def)
  then have sc: "scantid key = Some (t_tid t)" by (simp add: key mkscankey_sel)
  have kc: "key_cmp rel key s = tuple_cmp rel t s (rd_nkeyatts rel)" unfolding key by (rule mkscankey_key_cmp [OF assms(1,2)])
  note anti = tuple_cmp_anti [OF assms(1) order_refl]
  show "tuple_before rel s t" if h: "1 \<le> key_tuple_cmp rel key s" "wf_item s"
  proof (cases "key_cmp rel key s = 0")
    case True
    then have "1 \<le> tid_cmp rel key s" using h by (simp add: key_tuple_cmp_def)
    then have "tids_before s t"
      using tid_cmp_one [OF sc] tid by (simp add: tids_before_def split: option.split)
    then show ?thesis using True kc anti(2) [of s t] by (simp add: tuple_before_def)
  next
    case False
    then have "0 < tuple_cmp rel t s (rd_nkeyatts rel)" using h kc by (simp add: key_tuple_cmp_def)
    then show ?thesis using anti(1) [of s t] by (simp add: tuple_before_def)
  qed
  show "tuple_before rel t s" if h: "key_tuple_cmp rel key s < 0"
  proof (cases "key_cmp rel key s = 0")
    case True
    then have "tid_cmp rel key s < 0" using h by (simp add: key_tuple_cmp_def)
    then obtain h where "ABTreeTupleGetHeapTID s = Some h" "t_tid t < h" using tid_cmp_neg [OF sc] by blast
    then have "tids_before t s" using tid assms(3) by (simp add: tids_before_def max_tid_def)
    then show ?thesis using True kc by (simp add: tuple_before_def)
  next
    case False
    then show ?thesis using h kc by (simp add: tuple_before_def key_tuple_cmp_def)
  qed
qed

lemma mkscankey_self:
  assumes "wf_rel rel" "\<not> ABTreeTupleIsPivot t"
  shows "key_tuple_cmp rel (abt_mkscankey rel True aei (Some t)) t = 0"
proof -
  have "key_cmp rel (abt_mkscankey rel True aei (Some t)) t = 0"
    unfolding mkscankey_key_cmp [OF assms] tuple_cmp_def
    by (rule lex_all_zero) (simp add: col_cmp_refl [OF assms(1)])
  then show ?thesis using assms(2) by (auto simp: key_tuple_cmp_def tid_cmp_def mkscankey_sel ABTreeTupleGetHeapTID_def)
qed

text \<open>Every tuple of a leaf page is found again with the key made from it.\<close>

lemma refind_slot:
  assumes "wf_rel rel" "sorted_page rel page" and leaf: "ABT_P_ISLEAF (pd_special page)"
    and i: "ABT_P_FIRSTDATAKEY (pd_special page) \<le> i" "i \<le> PageGetMaxOffsetNumber page"
    and np: "\<not> ABTreeTupleIsPivot (PageGetItem page i)"
    and key: "key = abt_mkscankey rel True aei (Some (PageGetItem page i))"
  shows "is_slot rel key page 1 i"
proof -
  have wf: "wf_key rel key"
    unfolding key by (rule mkscankey_wf [OF assms(1)]) (simp add: wf_natts_def np)
  have z: "abt_compare rel key page i = 0"
    unfolding abt_compare_lex [OF wf disjI1 [OF leaf] refl] unfolding key by (rule mkscankey_self [OF assms(1) np])
  have s: "scantid key \<noteq> None" using np by (simp add: key mkscankey_sel ABTreeTupleGetHeapTID_def)
  show ?thesis
    unfolding is_slot_def
  proof (intro conjI ballI)
    fix j assume j: "j \<in> {ABT_P_FIRSTDATAKEY (pd_special page)..<i}"
    then show "1 \<le> abt_compare rel key page j"
      using abt_compare_mono [OF assms(1) wf assms(2), of j i] i z s by simp
  next
    fix j assume j: "j \<in> {i..PageGetMaxOffsetNumber page}"
    show "abt_compare rel key page j < 1"
    proof (cases "j = i")
      case False
      then show ?thesis using abt_compare_mono [OF assms(1) wf assms(2) i(1), of j] j z by fastforce
    qed (simp add: z)
  qed (use i in auto)
qed

text \<open>Inserting a new tuple at the slot found for it keeps the page in order, unless it falls into the
  range of a posting list there.\<close>

lemma PageAddItem_item:
  assumes "PageAddItem page t sz off = Some page'" "1 \<le> off" "1 \<le> i" "i \<le> PageGetMaxOffsetNumber page'"
  shows "PageGetItem page' i = (if i < off then PageGetItem page i else if i = off then t else PageGetItem page (i - 1))"
    "PageGetMaxOffsetNumber page' = Suc (PageGetMaxOffsetNumber page)" "pd_special page' = pd_special page"
    "off \<le> PageGetMaxOffsetNumber page + 1"
proof -
  have p: "page' = page\<lparr>pd_linp := take (off - 1) (pd_linp page)
      @ [\<lparr>lp_dead = False, lp_len = sz, pi_tup = t\<rparr>] @ drop (off - 1) (pd_linp page)\<rparr>" "off \<le> length (pd_linp page) + 1"
    using assms(1,2) by (auto simp: PageAddItem_def Let_def PageGetMaxOffsetNumber_def split: if_splits)
  show "PageGetMaxOffsetNumber page' = Suc (PageGetMaxOffsetNumber page)" "pd_special page' = pd_special page"
    "off \<le> PageGetMaxOffsetNumber page + 1"
    using p by (simp_all add: PageGetMaxOffsetNumber_def)
  then have "i \<le> Suc (length (pd_linp page))" using assms(4) by (simp add: PageGetMaxOffsetNumber_def)
  then show "PageGetItem page' i = (if i < off then PageGetItem page i else if i = off then t else PageGetItem page (i - 1))"
    using p assms(2,3) by (auto simp: PageGetItem_def PageGetItemId_def nth_append nth_Cons' min_def numeral_2_eq_2)
qed

lemma PageAddItem_sorted:
  assumes "wf_rel rel" "sorted_page rel page" "ABT_P_ISLEAF (pd_special page)"
    and t: "\<not> ABTreeTupleIsPivot t" "\<not> ABTreeTupleIsPosting t"
    and key: "key = abt_mkscankey rel True aei (Some t)"
    and slot: "is_slot rel key page 1 off"
    and nm: "off \<le> PageGetMaxOffsetNumber page \<Longrightarrow> abt_compare rel key page off \<noteq> 0"
    and add: "PageAddItem page t sz off = Some page'"
  shows "sorted_page rel page'"
proof -
  let ?f = "ABT_P_FIRSTDATAKEY (pd_special page)" and ?m = "PageGetMaxOffsetNumber page"
  have wf: "wf_key rel key" unfolding key by (rule mkscankey_wf [OF assms(1)]) (simp add: wf_natts_def t)
  note C = abt_compare_lex [OF wf disjI1 [OF assms(3)] refl]
  have f1: "1 \<le> ?f" by (simp add: ABT_P_FIRSTDATAKEY_def ABTP_HIKEY_def ABTP_FIRSTKEY_def)
  have off1: "1 \<le> off" "?f \<le> off" using f1 slot by (simp_all add: is_slot_def)
  have o: "wf_item (PageGetItem page i)" "tuple_before rel (PageGetItem page i) (PageGetItem page j)"
    if "?f \<le> i" "i < j" "j \<le> ?m" for i j
    using assms(2,3) that unfolding sorted_page_def by (auto simp: first_key_def)
  have wi: "wf_item (PageGetItem page i)" if "?f \<le> i" "i \<le> ?m" for i
    using assms(2,3) that unfolding sorted_page_def by (auto simp: first_key_def)
  have lo: "tuple_before rel (PageGetItem page i) t" if "?f \<le> i" "i < off" "i \<le> ?m" for i
    by (rule mkscankey_compare(1) [OF assms(1) t key]) (use slot that wi in \<open>auto simp: is_slot_def C\<close>)
  have hi: "tuple_before rel t (PageGetItem page i)" if "off \<le> i" "i \<le> ?m" for i
  proof (rule mkscankey_compare(2) [OF assms(1) t key])
    have "abt_compare rel key page i < 0"
    proof (rule ccontr)
      assume n: "\<not> abt_compare rel key page i < 0"
      have lt1: "abt_compare rel key page off < 1" "abt_compare rel key page off \<noteq> 0"
        using slot nm that by (auto simp: is_slot_def)
      then have "i \<noteq> off" using n by auto
      then have "off < i" using that(1) by simp
      then have "0 \<le> abt_compare rel key page off"
        using abt_compare_mono [OF assms(1) wf assms(2) off1(2) _ that(2)] n by simp
      then show False using lt1 by linarith
    qed
    then show "key_tuple_cmp rel key (PageGetItem page i) < 0" by (simp add: C)
  qed
  have wt: "wf_item t" using t by (simp add: wf_item_def)
  note A = PageAddItem_item [OF add off1(1)]
  have sp: "pd_special page' = pd_special page" and mx: "PageGetMaxOffsetNumber page' = Suc ?m" and ofm: "off \<le> ?m + 1"
    using A(2-4) [of off] add off1(1) by (auto simp: PageAddItem_def PageGetMaxOffsetNumber_def Let_def split: if_splits)
  show ?thesis
    unfolding sorted_page_def first_key_def sp mx
  proof (intro ballI conjI)
    fix i assume i: "i \<in> {?f + (if ABT_P_ISLEAF (pd_special page) then 0 else 1)..Suc ?m}"
    then have i': "?f \<le> i" "i \<le> Suc ?m" "1 \<le> i" using f1 by auto
    show "wf_item (PageGetItem page' i)"
      using wi [of i] wi [of "i - 1"] wt i' off1 ofm A(1) [of i] mx by auto
    fix j assume j: "j \<in> {Suc i..Suc ?m}"
    then have j': "i < j" "j \<le> Suc ?m" "1 \<le> j" by auto
    have e: "PageGetItem page' k = (if k < off then PageGetItem page k else if k = off then t else PageGetItem page (k - 1))"
      if "1 \<le> k" "k \<le> Suc ?m" for k using A(1) [OF that(1)] that(2) mx by simp
    consider "j < off" | "j = off" | "i < off" "off < j" | "i = off" | "off < i" using j'(1) by linarith
    then show "tuple_before rel (PageGetItem page' i) (PageGetItem page' j)"
    proof cases
      case 1
      then show ?thesis using o(2) [of i j] i' j' ofm by (simp add: e)
    next
      case 2
      then show ?thesis using lo [of i] i' j' ofm by (simp add: e)
    next
      case 3
      then show ?thesis using o(2) [of i "j - 1"] i' j' by (simp add: e)
    next
      case 4
      then show ?thesis using hi [of "j - 1"] i' j' by (simp add: e)
    next
      case 5
      then show ?thesis using o(2) [of "i - 1" "j - 1"] i' j' off1 by (simp add: e)
    qed
  qed
qed

section \<open>Integer columns\<close>

interpretation int8_order: qsort_order btint8cmp UNIV
  by unfold_locales (auto simp: btint8cmp_def split: if_splits)

interpretation int4_order: qsort_order btint4cmp UNIV
  by unfold_locales (auto simp: btint4cmp_def split: if_splits)

interpretation int2_order: qsort_order btint2cmp UNIV
  by unfold_locales (auto simp: btint2cmp_def)

lemma int_orderproc [simp]: "qsort_order btint8cmp UNIV" "qsort_order btint4cmp UNIV" "qsort_order btint2cmp UNIV"
  by (rule int8_order.qsort_order_axioms int4_order.qsort_order_axioms int2_order.qsort_order_axioms)+

text \<open>An index on a bigint column and a descending integer column with the nulls first, and a leaf page of it.\<close>

definition ex_rel :: index_rel where
  "ex_rel = \<lparr>rd_natts = 2, rd_nkeyatts = 2, rd_indoption = [0, 3], rd_orderproc = [btint8cmp, btint4cmp]\<rparr>"

definition ex_row :: "Datum \<Rightarrow> Datum option \<Rightarrow> OffsetNumber \<Rightarrow> IndexTupleData" where
  "ex_row a b off = (ex_plain 5 off)\<lparr>it_attrs := [Some a, b]\<rparr>"

definition ex_rows :: IndexTupleData where
  "ex_rows = (abt_form_posting (ex_row 2 None 1) [ItemPointer 7 1, ItemPointer 7 4, ItemPointer 7 6] ex_agg_info)
     \<lparr>it_xmins := [11, 14, 16]\<rparr>"

definition ex_leaf :: PageData where
  "ex_leaf = \<lparr>pd_linp = map (\<lambda>t. \<lparr>lp_dead = False, lp_len = IndexTupleSize t, pi_tup = t\<rparr>)
       [ex_row 1 (Some 9) 5, ex_rows, ex_row 2 (Some 7) 2, ex_row 2 (Some 4) 3],
     pd_special = \<lparr>abtpo_prev = 0, abtpo_next = 0, abtpo_level = 0, abtpo_flags = 1,
       abtpo_cycleid = 0, abtpo_last_update_id = 0\<rparr>\<rparr>"

lemma ex_rel_wf: "wf_rel ex_rel"
  by (simp add: wf_rel_def ex_rel_def)

lemma ex_leaf_ok: "sorted_page ex_rel ex_leaf" "ABT_P_ISLEAF (pd_special ex_leaf)"
  "PageGetMaxOffsetNumber ex_leaf = 4" "ABT_P_FIRSTDATAKEY (pd_special ex_leaf) = 1"
  by code_simp+

section \<open>Properties\<close>

definition ex_key :: ABTScanInsertData where
  "ex_key = (abt_mkscankey ex_rel True True (Some (ex_row 2 None 5)))\<lparr>scantid := None\<rparr>"

lemma ex_key_wf: "wf_key ex_rel ex_key" "wf_key ex_rel (ex_key\<lparr>scantid := Some t\<rparr>)"
proof -
  have "wf_key ex_rel (abt_mkscankey ex_rel True True (Some (ex_row 2 None 5)))"
    by (rule mkscankey_wf [OF ex_rel_wf]) (simp; code_simp)
  moreover have "keysz ex_key = rd_nkeyatts ex_rel" by code_simp
  ultimately show "wf_key ex_rel ex_key" "wf_key ex_rel (ex_key\<lparr>scantid := Some t\<rparr>)"
    by (simp_all add: wf_key_def ex_key_def)
qed

text \<open>
  C17. The binary search of a page. On a page whose items are in order, for every scan key that fits
  the relation, with or without a heap TID, with nulls, descending columns and fewer columns than the
  index has, the search of a leaf page returns the first slot whose item is not below the key (not at
  or below it for a next-key search), possibly one past the last item; on an internal page it returns
  the last item before that slot, and there always is one.
\<close>

theorem abt_binsrch_correct:
  assumes "wf_rel rel" "wf_key rel key" "sorted_page rel page"
    and "ABT_P_FIRSTDATAKEY (pd_special page) \<le> PageGetMaxOffsetNumber page + (if ABT_P_ISLEAF (pd_special page) then 1 else 0)"
  shows "if ABT_P_ISLEAF (pd_special page)
    then is_slot rel key page (if nextkey key then 0 else 1) (abt_binsrch rel key page)
    else ABT_P_FIRSTDATAKEY (pd_special page) \<le> abt_binsrch rel key page
      \<and> is_slot rel key page (if nextkey key then 0 else 1) (abt_binsrch rel key page + 1)"
  using abt_binsrch_slot [OF assms(1-3)] assms(4) by auto

theorem abt_binsrch_correct_witness:
  "is_slot ex_rel ex_key ex_leaf 1 (abt_binsrch ex_rel ex_key ex_leaf) \<and> abt_binsrch ex_rel ex_key ex_leaf = 2"
proof -
  have "abt_binsrch ex_rel ex_key ex_leaf = 2" "\<not> nextkey ex_key" by code_simp+
  then show ?thesis using abt_binsrch_correct [OF ex_rel_wf ex_key_wf(1) ex_leaf_ok(1)] ex_leaf_ok by simp
qed

text \<open>
  C10. Cached search bounds. An insertion first searches the leaf page with a key without a heap TID
  (for the uniqueness check) and later again with the heap TID of the new tuple, starting from the
  cached bounds. The second search returns what a fresh binary search of the whole page returns, and
  the posting list offset is set, to the position within the posting list, exactly when the item at
  that slot matches the key.
\<close>

theorem abt_binsrch_insert_cached:
  assumes "wf_rel rel" "wf_key rel key" "sorted_page rel page"
    and "scantid key = None" "\<not> nextkey key" "keysz key = rd_nkeyatts rel"
    and "ABT_P_ISLEAF (pd_special page)" "ABT_P_FIRSTDATAKEY (pd_special page) \<le> PageGetMaxOffsetNumber page + 1"
    and "abt_binsrch_insert rel \<lparr>itup_key = key, ins_page = page, bounds_valid = False, ins_low = lo,
           ins_stricthigh = sh, postingoff = 0\<rparr> = (off1, st1)"
    and "key2 = key\<lparr>scantid := Some tid\<rparr>"
    and "abt_binsrch_insert rel (st1\<lparr>itup_key := key2\<rparr>) = (off2, st2)"
  shows "off1 = abt_binsrch rel key page \<and> off2 = abt_binsrch rel key2 page
    \<and> postingoff st2 = (if off2 \<le> PageGetMaxOffsetNumber page \<and> abt_compare rel key2 page off2 = 0
        then the (abt_binsrch_posting key2 page off2) else 0)"
proof -
  let ?st = "\<lparr>itup_key = key, ins_page = page, bounds_valid = False, ins_low = lo, ins_stricthigh = sh, postingoff = 0\<rparr>"
  have wf2: "wf_key rel key2" using assms(2,6,10) by (simp add: wf_key_def)
  have b: "bounds_ok rel ?st" by (simp add: bounds_ok_def)
  note S1 = binsrch_insert_search [OF assms(1) _ _ _ _ b assms(9), simplified, OF assms(2,3,7) assms(8)[simplified]]
  have po: "postingoff st1 = 0" using S1(6) assms(4) by simp
  have b2: "bounds_ok rel (st1\<lparr>itup_key := key2\<rparr>)"
    unfolding assms(10)
    by (rule bounds_ok_scantid [OF assms(2,4,6) S1(4)]) (use S1(2,5) assms(7) in simp_all)
  note S2 = binsrch_insert_search [OF assms(1) _ _ _ _ b2 assms(11), simplified, unfolded S1(5), OF wf2 assms(3,7) assms(8)[simplified]]
  have nk: "\<not> nextkey key2" using assms(5,10) by simp
  have "off1 = abt_binsrch rel key page"
    using is_slot_unique [OF S1(1)] abt_binsrch_slot(1) [OF assms(1-3,8,7)] assms(5) by simp
  moreover have "off2 = abt_binsrch rel key2 page"
    using is_slot_unique [OF S2(1)] abt_binsrch_slot(1) [OF assms(1) wf2 assms(3,8,7)] nk by simp
  ultimately show ?thesis using S2(6) po assms(10) S1(5) by simp
qed

theorem abt_binsrch_insert_cached_witness:
  "let st = \<lparr>itup_key = ex_key, ins_page = ex_leaf, bounds_valid = False, ins_low = 0, ins_stricthigh = 0, postingoff = 0\<rparr>;
       key2 = ex_key\<lparr>scantid := Some (ItemPointer 7 5)\<rparr>;
       (off2, st2) = abt_binsrch_insert ex_rel ((snd (abt_binsrch_insert ex_rel st))\<lparr>itup_key := key2\<rparr>)
   in off2 = abt_binsrch ex_rel key2 ex_leaf \<and> off2 = 2 \<and> postingoff st2 = 2"
proof -
  define st where "st = \<lparr>itup_key = ex_key, ins_page = ex_leaf, bounds_valid = False, ins_low = 0, ins_stricthigh = 0, postingoff = 0\<rparr>"
  define key2 where "key2 = ex_key\<lparr>scantid := Some (ItemPointer 7 5)\<rparr>"
  obtain off1 st1 where 1: "abt_binsrch_insert ex_rel st = (off1, st1)" by fastforce
  obtain off2 st2 where 2: "abt_binsrch_insert ex_rel (st1\<lparr>itup_key := key2\<rparr>) = (off2, st2)" by fastforce
  have k: "scantid ex_key = None" "\<not> nextkey ex_key" "keysz ex_key = rd_nkeyatts ex_rel" by code_simp+
  have v: "abt_binsrch ex_rel key2 ex_leaf = 2" "abt_compare ex_rel key2 ex_leaf 2 = 0"
    "the (abt_binsrch_posting key2 ex_leaf 2) = 2" unfolding key2_def by code_simp+
  from abt_binsrch_insert_cached [OF ex_rel_wf ex_key_wf(1) ex_leaf_ok(1) k ex_leaf_ok(2) _ 1 [unfolded st_def] key2_def 2]
  have "off2 = 2" "postingoff st2 = 2" using v ex_leaf_ok by simp_all
  then show ?thesis using 1 2 v unfolding st_def key2_def by (simp add: Let_def)
qed

text \<open>
  C23. A stored tuple is found again. For every tuple of a leaf page, plain or posting list, the scan
  key made from that tuple leads the binary search to exactly the position of the tuple, although
  other tuples may have the same column values.
\<close>

theorem abt_binsrch_refind:
  assumes "wf_rel rel" "sorted_page rel page" "ABT_P_ISLEAF (pd_special page)"
    and "ABT_P_FIRSTDATAKEY (pd_special page) \<le> i" "i \<le> PageGetMaxOffsetNumber page"
    and "\<not> ABTreeTupleIsPivot (PageGetItem page i)"
  shows "abt_binsrch rel (abt_mkscankey rel True aei (Some (PageGetItem page i))) page = i"
proof -
  let ?key = "abt_mkscankey rel True aei (Some (PageGetItem page i))"
  have "wf_key rel ?key" by (rule mkscankey_wf [OF assms(1)]) (simp add: wf_natts_def assms(6))
  then have "is_slot rel ?key page (if nextkey ?key then 0 else 1) (abt_binsrch rel ?key page)"
    using abt_binsrch_slot(1) [OF assms(1) _ assms(2) _ assms(3)] assms(4,5) by simp
  then show ?thesis using is_slot_unique [OF _ refind_slot [OF assms refl]] by (simp add: mkscankey_sel)
qed

theorem abt_binsrch_refind_witness:
  "abt_binsrch ex_rel (abt_mkscankey ex_rel True True (Some (PageGetItem ex_leaf 3))) ex_leaf = 3"
  by (rule abt_binsrch_refind [OF ex_rel_wf ex_leaf_ok(1,2)]) (simp_all add: ex_leaf_ok, code_simp)

text \<open>
  C11. Insertion keeps a leaf page in order. When a new tuple is added at the slot that the search with
  its own scan key found, and it does not fall into a posting list there, all items of the page,
  the new one included, are again in ascending order of columns and heap TIDs.
\<close>

theorem insert_at_slot_sorted:
  assumes "wf_rel rel" "sorted_page rel page" "ABT_P_ISLEAF (pd_special page)"
    and "ABT_P_FIRSTDATAKEY (pd_special page) \<le> PageGetMaxOffsetNumber page + 1"
    and "\<not> ABTreeTupleIsPivot t" "\<not> ABTreeTupleIsPosting t"
    and "st = \<lparr>itup_key = abt_mkscankey rel True aei (Some t), ins_page = page, bounds_valid = False,
           ins_low = lo, ins_stricthigh = sh, postingoff = 0\<rparr>"
    and "off \<le> PageGetMaxOffsetNumber page \<Longrightarrow> abt_compare rel (itup_key st) page off \<noteq> 0"
    and "abt_binsrch_insert rel st = (off, st')" "PageAddItem page t sz off = Some page'"
  shows "sorted_page rel page'"
proof -
  let ?key = "abt_mkscankey rel True aei (Some t)"
  have wf: "wf_key rel ?key" by (rule mkscankey_wf [OF assms(1)]) (simp add: wf_natts_def assms(5))
  have "is_slot rel ?key page 1 off"
    using binsrch_insert_search(1) [OF assms(1) _ _ _ _ _ assms(9)] wf assms(2-4) unfolding assms(7)
    by (simp add: bounds_ok_def)
  then show ?thesis
    using PageAddItem_sorted [OF assms(1-3,5,6) refl _ _ assms(10)] assms(8) unfolding assms(7) by simp
qed

theorem insert_at_slot_sorted_witness:
  "(case PageAddItem ex_leaf (ex_row 2 (Some 5) 8) 24 4 of None \<Rightarrow> False | Some page' \<Rightarrow> sorted_page ex_rel page')"
proof -
  define st where "st = \<lparr>itup_key = abt_mkscankey ex_rel True True (Some (ex_row 2 (Some 5) 8)), ins_page = ex_leaf,
    bounds_valid = False, ins_low = 0, ins_stricthigh = 0, postingoff = 0\<rparr>"
  obtain off st' where 1: "abt_binsrch_insert ex_rel st = (off, st')" by fastforce
  have "fst (abt_binsrch_insert ex_rel st) = 4" unfolding st_def by code_simp
  then have 4: "off = 4" using 1 by simp
  have c: "abt_compare ex_rel (itup_key st) ex_leaf 4 \<noteq> 0" unfolding st_def by code_simp
  have "PageAddItem ex_leaf (ex_row 2 (Some 5) 8) 24 4 \<noteq> None" by code_simp
  then obtain page' where p: "PageAddItem ex_leaf (ex_row 2 (Some 5) 8) 24 4 = Some page'" by blast
  have "\<not> ABTreeTupleIsPivot (ex_row 2 (Some 5) 8)" "\<not> ABTreeTupleIsPosting (ex_row 2 (Some 5) 8)" by code_simp+
  from insert_at_slot_sorted [OF ex_rel_wf ex_leaf_ok(1,2) _ this st_def _ 1] have "sorted_page ex_rel page'"
    using c p 4 ex_leaf_ok by simp
  then show ?thesis using p by simp
qed

text \<open>
  C33. Bounds of a posting list split. For a live posting list tuple with ascending heap TIDs and a
  scan TID strictly between its first and its last one and not among them, the offset found is at
  least one and less than the number of heap TIDs, which is what the split of the posting list needs,
  and the heap TIDs with the new one put in at that offset are in ascending order.
\<close>

theorem abt_binsrch_posting_bounds:
  assumes "itup = PageGetItem page offnum" "ABTreeTupleIsPosting itup" "\<not> lp_dead (PageGetItemId page offnum)"
    and "length (it_htids itup) = ABTreeTupleGetNPosting itup" "sorted_wrt (<) (it_htids itup)"
    and "2 \<le> ABTreeTupleGetNPosting itup"
    and "scantid key = Some tid" "hd (it_htids itup) < tid" "tid < last (it_htids itup)" "tid \<notin> set (it_htids itup)"
  shows "\<exists>p. abt_binsrch_posting key page offnum = Some (int p) \<and> 0 < p \<and> p < ABTreeTupleGetNPosting itup
    \<and> sorted_wrt (<) (shift_in p tid (it_htids itup) @ [last (it_htids itup)])"
proof -
  define n where "n = ABTreeTupleGetNPosting itup"
  define p where "p = binsrch_posting_loop itup tid 0 n"
  have nth: "ABTreeTupleGetPostingN itup i = it_htids itup ! i" for i
    by (simp add: ABTreeTupleGetPostingN_def ABTreeTupleGetPosting_def)
  have asc: "it_htids itup ! i < it_htids itup ! j" if "i < j" "j < n" for i j
    using sorted_wrt_nth_less [OF assms(5) that(1)] that(2) assms(4) by (simp add: n_def)
  have P: "p \<le> n \<and> (\<forall>i<p. it_htids itup ! i < tid) \<and> (\<forall>i. p \<le> i \<longrightarrow> i < n \<longrightarrow> tid \<le> it_htids itup ! i)"
    unfolding p_def n_def nth [symmetric]
    by (rule binsrch_posting_loop_split) (use asc in \<open>simp_all add: nth n_def\<close>)
  have ne: "it_htids itup \<noteq> []" using assms(4,6) by auto
  have "0 < p"
  proof (rule ccontr)
    assume "\<not> 0 < p"
    then have "tid \<le> hd (it_htids itup)" using P ne assms(4,6) by (simp add: n_def hd_conv_nth)
    then show False using assms(8) by simp
  qed
  have "p < n"
  proof (rule ccontr)
    assume "\<not> p < n"
    then have "it_htids itup ! (n - 1) < tid" using P \<open>0 < p\<close> by simp
    then show False using assms(4,9) ne by (simp add: n_def last_conv_nth)
  qed
  have "it_htids itup ! p \<noteq> tid" using assms(4,10) \<open>p < n\<close> by (auto simp: n_def)
  then have "it_htids itup ! (p - 1) < tid" "tid < it_htids itup ! p" using P \<open>0 < p\<close> \<open>p < n\<close> by (auto simp: le_less)
  then have "sorted_wrt (<) (shift_in p tid (it_htids itup) @ [last (it_htids itup)])"
    using shift_in_sorted [OF assms(5) \<open>0 < p\<close>] \<open>p < n\<close> assms(4) by (simp add: n_def)
  moreover have "abt_binsrch_posting key page offnum = Some (int p)"
    using assms(1-3,7) by (simp add: abt_binsrch_posting_def Let_def PageGetItem_def p_def n_def)
  ultimately show ?thesis using \<open>0 < p\<close> \<open>p < n\<close> by (auto simp: n_def)
qed

theorem abt_binsrch_posting_bounds_witness:
  "abt_binsrch_posting (ex_key\<lparr>scantid := Some (ItemPointer 7 5)\<rparr>) ex_leaf 2 = Some 2
    \<and> ABTreeTupleGetNPosting (PageGetItem ex_leaf 2) = 3
    \<and> sorted_wrt (<) (shift_in 2 (ItemPointer 7 5) (it_htids (PageGetItem ex_leaf 2)) @ [last (it_htids (PageGetItem ex_leaf 2))])"
proof -
  have *: "ABTreeTupleIsPosting (PageGetItem ex_leaf 2)" "\<not> lp_dead (PageGetItemId ex_leaf 2)"
    "length (it_htids (PageGetItem ex_leaf 2)) = ABTreeTupleGetNPosting (PageGetItem ex_leaf 2)"
    "sorted_wrt (<) (it_htids (PageGetItem ex_leaf 2))" "2 \<le> ABTreeTupleGetNPosting (PageGetItem ex_leaf 2)"
    "scantid (ex_key\<lparr>scantid := Some (ItemPointer 7 5)\<rparr>) = Some (ItemPointer 7 5)"
    "hd (it_htids (PageGetItem ex_leaf 2)) < ItemPointer 7 5" "ItemPointer 7 5 < last (it_htids (PageGetItem ex_leaf 2))"
    "ItemPointer 7 5 \<notin> set (it_htids (PageGetItem ex_leaf 2))" by code_simp+
  have v: "abt_binsrch_posting (ex_key\<lparr>scantid := Some (ItemPointer 7 5)\<rparr>) ex_leaf 2 = Some 2"
    "ABTreeTupleGetNPosting (PageGetItem ex_leaf 2) = 3" by code_simp+
  show ?thesis using abt_binsrch_posting_bounds [OF refl *] v by auto
qed

text \<open>
  C34. Scan keys are well formed. The scan key made from any tuple, or from none, fits the relation:
  its entries name the key columns in order with their comparison functions, carry exactly the
  null flag and the options of the column in their flag bits, and it has a heap TID only when it has
  all key columns; \<^verbatim>\<open>anynullkeys\<close> is set exactly when some column has no value.
\<close>

theorem abt_mkscankey_type:
  assumes "wf_rel rel" "case itup of None \<Rightarrow> True | Some t \<Rightarrow> wf_natts rel t"
    and "key = abt_mkscankey rel hks aei itup"
  shows "wf_key rel key \<and> length (scankeys key) = rd_nkeyatts rel
    \<and> list_all2 (\<lambda>k i. (sk_flags k AND SK_ISNULL \<noteq> 0)
          = (case itup of None \<Rightarrow> True | Some t \<Rightarrow> ABTreeTupleGetNAtts (rd_natts rel) t \<le> i \<or> index_getattr t (i + 1) = None))
        (scankeys key) [0..<rd_nkeyatts rel]
    \<and> (anynullkeys key \<longleftrightarrow> (\<exists>k\<in>set (scankeys key). sk_flags k AND SK_ISNULL \<noteq> 0))"
proof -
  have "(sk_flags (abt_mkscankey_entry rel itup i) AND SK_ISNULL \<noteq> 0)
      = (case itup of None \<Rightarrow> True | Some t \<Rightarrow> ABTreeTupleGetNAtts (rd_natts rel) t \<le> i \<or> index_getattr t (i + 1) = None)" for i
    unfolding abt_mkscankey_entry_def Let_def
    by (simp add: sk_flag_bits mkscankey_flag_bits not_less split: option.split)
  moreover have "scankeys key = map (abt_mkscankey_entry rel itup) [0..<rd_nkeyatts rel]"
    "anynullkeys key = list_ex (\<lambda>k. sk_flags k AND SK_ISNULL \<noteq> 0) (scankeys key)"
    unfolding assms(3) abt_mkscankey_def Let_def by simp_all
  ultimately show ?thesis
    using mkscankey_wf [OF assms(1,2), of hks aei, folded assms(3)] unfolding list_ex_iff
    by (simp add: list_all2_map1 list.rel_refl_strong)
qed

theorem abt_mkscankey_type_witness:
  "wf_key ex_rel (abt_mkscankey ex_rel True True (Some (ex_row 2 None 5)))
    \<and> anynullkeys (abt_mkscankey ex_rel True True (Some (ex_row 2 None 5)))"
proof -
  have "anynullkeys (abt_mkscankey ex_rel True True (Some (ex_row 2 None 5)))" "wf_natts ex_rel (ex_row 2 None 5)" by code_simp+
  then show ?thesis using abt_mkscankey_type [OF ex_rel_wf _ refl, of "Some (ex_row 2 None 5)" True True] by simp
qed

end
