(* ===== verification/Descend.thy ===== *)
theory Descend
  imports Search
begin

text \<open>
  Descent of the tree (\<^verbatim>\<open>_abt_search_extended\<close>) and the moves to the right that make it safe against
  page splits (\<^verbatim>\<open>_abt_moveright\<close>), for readers: the pages of the index are a function from block numbers,
  and each level of a tree is the chain of its pages along the right links. The theorems say that the
  descent ends on the same page as walking the whole level from its leftmost page, also when pages were
  split without a downlink yet or are deleted, and that the slot found there is the position of the key
  among all items of the leaf level.
\<close>

section \<open>Definitions\<close>

datatype search_error = FellOffEnd | LevelNotFound

record ABTStackData =
  abts_blkno :: BlockNumber
  abts_offset :: nat
  abts_last_update_id :: "16 word"

type_synonym page_store = "BlockNumber \<Rightarrow> PageData"

text \<open>\<open>None\<close> stands for a walk that does not end.\<close>

partial_function (option) abt_moveright ::
  "index_rel \<Rightarrow> ABTScanInsertData \<Rightarrow> page_store \<Rightarrow> BlockNumber \<Rightarrow> (search_error + BlockNumber) option" where
  "abt_moveright rel key store buf =
     (let page = store buf; opaque = pd_special page; cmpval = (if nextkey key then 0 else 1)
      in if ABT_P_RIGHTMOST opaque then Some (if ABT_P_IGNORE opaque then Inl FellOffEnd else Inr buf)
         else if ABT_P_IGNORE opaque \<or> abt_compare rel key page ABTP_HIKEY \<ge> cmpval
         then abt_moveright rel key store (abtpo_next opaque)
         else Some (Inr buf))"

partial_function (option) search_loop ::
  "index_rel \<Rightarrow> ABTScanInsertData \<Rightarrow> page_store \<Rightarrow> 32 word \<Rightarrow> ABTStackData list \<Rightarrow> BlockNumber
     \<Rightarrow> (search_error + BlockNumber \<times> ABTStackData list) option" where
  "search_loop rel key store level stack_in buf =
     Option.bind (abt_moveright rel key store buf) (\<lambda>r. case r of
       Inl e \<Rightarrow> Some (Inl e)
     | Inr buf \<Rightarrow>
         let page = store buf; opaque = pd_special page
         in if abtpo_level opaque = level then Some (Inr (buf, stack_in))
            else if abtpo_level opaque < level then Some (Inl LevelNotFound)
            else
              let offnum = abt_binsrch rel key page;
                  itup = PageGetItem page offnum;
                  blkno = ABTreeTupleGetDownLink itup;
                  new_stack = \<lparr>abts_blkno = buf, abts_offset = offnum,
                               abts_last_update_id = abtpo_last_update_id opaque\<rparr>
              in search_loop rel key store level (new_stack # stack_in) blkno)"

text \<open>\<open>root\<close> is the page that \<^verbatim>\<open>_abt_getroot\<close> returns, if any.\<close>

definition abt_search_extended ::
  "index_rel \<Rightarrow> ABTScanInsertData \<Rightarrow> page_store \<Rightarrow> BlockNumber option \<Rightarrow> 32 word
     \<Rightarrow> (search_error + (BlockNumber \<times> ABTStackData list) option) option" where
  "abt_search_extended rel key store root level =
     (case root of None \<Rightarrow> Some (Inr None)
      | Some buf \<Rightarrow> map_option (map_sum id Some) (search_loop rel key store level [] buf))"

section \<open>Trees\<close>

definition hikey :: "page_store \<Rightarrow> BlockNumber \<Rightarrow> IndexTupleData" where
  "hikey store b = PageGetItem (store b) ABTP_HIKEY"

abbreviation live :: "page_store \<Rightarrow> BlockNumber \<Rightarrow> bool" where
  "live store b \<equiv> \<not> ABT_P_IGNORE (pd_special (store b))"

fun right_chain :: "page_store \<Rightarrow> BlockNumber list \<Rightarrow> bool" where
  "right_chain store [] = False"
| "right_chain store [b] = ABT_P_RIGHTMOST (pd_special (store b))"
| "right_chain store (b # c # cs) = (\<not> ABT_P_RIGHTMOST (pd_special (store b))
     \<and> abtpo_next (pd_special (store b)) = c \<and> right_chain store (c # cs))"

text \<open>The order of high keys, pivots and leaf tuples; a high key and the pivot made from it are equal.\<close>

definition same_key :: "index_rel \<Rightarrow> IndexTupleData \<Rightarrow> IndexTupleData \<Rightarrow> bool" where
  "same_key rel t1 t2 = (ABTreeTupleGetNAtts (rd_natts rel) t1 = ABTreeTupleGetNAtts (rd_natts rel) t2
     \<and> (\<forall>a\<in>{1..rd_nkeyatts rel}. index_getattr t1 a = index_getattr t2 a)
     \<and> ABTreeTupleGetHeapTID t1 = ABTreeTupleGetHeapTID t2
     \<and> \<not> ABTreeTupleIsPosting t1 \<and> \<not> ABTreeTupleIsPosting t2)"

text \<open>A high key that keeps a heap TID bounds the items with the same key up to that TID.\<close>

definition tid_bound :: "index_rel \<Rightarrow> IndexTupleData \<Rightarrow> IndexTupleData \<Rightarrow> bool" where
  "tid_bound rel t1 t2 = (tuple_cmp rel t1 t2 (rd_nkeyatts rel) = 0 \<and> \<not> ABTreeTupleIsPosting t2
     \<and> ABTreeTupleGetHeapTID t1 \<noteq> None
     \<and> (case ABTreeTupleGetHeapTID t2 of None \<Rightarrow> False | Some m \<Rightarrow> max_tid t1 \<le> m))"

definition tuple_le :: "index_rel \<Rightarrow> IndexTupleData \<Rightarrow> IndexTupleData \<Rightarrow> bool" where
  "tuple_le rel t1 t2 = (wf_item t1 \<and> (tuple_before rel t1 t2 \<or> same_key rel t1 t2 \<or> tid_bound rel t1 t2))"

text \<open>The downlinks of a level lead to pages of the level below, and everything to the left of a page
  is at most its downlink's key or, for the first downlink of a page, at most the high key of a page
  further left.\<close>

definition linked :: "index_rel \<Rightarrow> page_store \<Rightarrow> BlockNumber list \<Rightarrow> BlockNumber list \<Rightarrow> bool" where
  "linked rel store ps cs =
     (\<forall>p<length ps. live store (ps ! p) \<longrightarrow>
       (let page = store (ps ! p); fdk = ABT_P_FIRSTDATAKEY (pd_special page) in
        \<forall>i\<in>{fdk..PageGetMaxOffsetNumber page}.
          \<exists>k<length cs. ABTreeTupleGetDownLink (PageGetItem page i) = cs ! k
            \<and> (\<forall>k'<k. live store (cs ! k') \<longrightarrow>
                 (if fdk < i then tuple_le rel (hikey store (cs ! k')) (PageGetItem page i)
                  else \<exists>p'<p. live store (ps ! p') \<and> tuple_le rel (hikey store (cs ! k')) (hikey store (ps ! p'))))))"

definition wf_level :: "index_rel \<Rightarrow> page_store \<Rightarrow> BlockNumber list \<Rightarrow> nat \<Rightarrow> bool" where
  "wf_level rel store bs l =
     (right_chain store bs \<and> live store (last bs)
      \<and> (\<forall>b\<in>set bs. live store b \<longrightarrow>
           abtpo_level (pd_special (store b)) = of_nat l \<and> sorted_page rel (store b)
           \<and> (ABT_P_ISLEAF (pd_special (store b)) \<longleftrightarrow> l = 0)
           \<and> ABT_P_FIRSTDATAKEY (pd_special (store b)) \<le> PageGetMaxOffsetNumber (store b) + (if l = 0 then 1 else 0)))"

definition wf_tree :: "index_rel \<Rightarrow> page_store \<Rightarrow> BlockNumber list list \<Rightarrow> bool" where
  "wf_tree rel store levels =
     (levels \<noteq> [] \<and> length levels \<le> 2 ^ 32
      \<and> (\<forall>l<length levels. wf_level rel store (levels ! l) l)
      \<and> (\<forall>l<length levels - 1. linked rel store (levels ! Suc l) (levels ! l)))"

section \<open>Moving right\<close>

definition passed :: "index_rel \<Rightarrow> ABTScanInsertData \<Rightarrow> page_store \<Rightarrow> BlockNumber \<Rightarrow> bool" where
  "passed rel key store b =
     (\<not> ABT_P_RIGHTMOST (pd_special (store b))
      \<and> (\<not> live store b \<or> (if nextkey key then 0 else 1) \<le> abt_compare rel key (store b) ABTP_HIKEY))"

definition target :: "index_rel \<Rightarrow> ABTScanInsertData \<Rightarrow> page_store \<Rightarrow> BlockNumber list \<Rightarrow> BlockNumber" where
  "target rel key store bs = hd (dropWhile (passed rel key store) bs)"

lemma right_chain_nonempty [simp]: "right_chain store bs \<Longrightarrow> bs \<noteq> []"
  by (cases bs) auto

lemma right_chain_drop: "right_chain store bs \<Longrightarrow> k < length bs \<Longrightarrow> right_chain store (drop k bs)"
proof (induction store bs arbitrary: k rule: right_chain.induct)
  case (3 store b c cs)
  then show ?case by (cases k) simp_all
qed simp_all

lemma right_chain_inner: "right_chain store bs \<Longrightarrow> k < length bs \<Longrightarrow> ABT_P_RIGHTMOST (pd_special (store (bs ! k))) \<longleftrightarrow> Suc k = length bs"
proof (induction store bs arbitrary: k rule: right_chain.induct)
  case (3 store b c cs)
  then show ?case by (cases k) simp_all
qed simp_all

lemma moveright_chain:
  "right_chain store bs \<Longrightarrow> live store (last bs) \<Longrightarrow> abt_moveright rel key store (hd bs) = Some (Inr (target rel key store bs))"
proof (induction store bs rule: right_chain.induct)
  case (2 store b)
  then show ?case by (subst abt_moveright.simps) (simp add: target_def passed_def)
next
  case (3 store b c cs)
  show ?case
  proof (cases "passed rel key store b")
    case True
    then have "target rel key store (b # c # cs) = target rel key store (c # cs)" by (simp add: target_def)
    then show ?thesis using 3 True by (subst abt_moveright.simps) (auto simp: passed_def Let_def)
  next
    case False
    then have "target rel key store (b # c # cs) = b" by (simp add: target_def)
    then show ?thesis using 3 False by (subst abt_moveright.simps) (auto simp: passed_def Let_def)
  qed
qed simp

lemma target_drop:
  assumes "\<And>i. i < k \<Longrightarrow> passed rel key store (bs ! i)" "k < length bs"
  shows "target rel key store bs = target rel key store (drop k bs)"
proof -
  have "dropWhile (passed rel key store) (take k bs @ drop k bs) = dropWhile (passed rel key store) (drop k bs)"
    by (rule dropWhile_append2) (use assms in \<open>auto simp: in_set_conv_nth\<close>)
  then show ?thesis by (simp add: target_def)
qed

lemma target_index:
  assumes "right_chain store bs" "live store (last bs)"
  shows "\<exists>k<length bs. target rel key store bs = bs ! k \<and> (\<forall>i<k. passed rel key store (bs ! i))
    \<and> \<not> passed rel key store (bs ! k) \<and> live store (bs ! k)"
proof -
  let ?P = "passed rel key store"
  define k where "k = length (takeWhile ?P bs)"
  have "\<not> ?P (last bs)"
    using right_chain_inner [OF assms(1), of "length bs - 1"] right_chain_nonempty [OF assms(1)]
    by (simp add: passed_def last_conv_nth)
  then have "takeWhile ?P bs \<noteq> bs"
    by (metis assms(1) last_in_set right_chain_nonempty set_takeWhileD)
  then have k: "k < length bs" unfolding k_def
    by (metis length_takeWhile_le linorder_not_le order_antisym takeWhile_eq_take take_all)
  have np: "\<not> ?P (bs ! k)" using k unfolding k_def by (simp add: nth_length_takeWhile)
  have "?P (bs ! i)" if "i < k" for i using that unfolding k_def by (metis nth_mem set_takeWhileD takeWhile_nth)
  moreover have "target rel key store bs = bs ! k"
    unfolding target_def dropWhile_eq_drop k_def [symmetric] using k by (simp add: hd_drop_conv_nth)
  moreover have "live store (bs ! k)"
  proof (cases "Suc k = length bs")
    case True
    then show ?thesis using assms(2) right_chain_nonempty [OF assms(1)] by (simp add: last_conv_nth flip: True)
  next
    case False
    then show ?thesis using np right_chain_inner [OF assms(1) k] by (simp add: passed_def)
  qed
  ultimately show ?thesis using k np by blast
qed

section \<open>Descending\<close>

lemma same_key_cmp:
  assumes "wf_key rel key" "same_key rel t1 t2"
  shows "key_tuple_cmp rel key t1 = key_tuple_cmp rel key t2"
proof -
  have n: "keysz key \<le> rd_nkeyatts rel" using assms(1) by (simp add: wf_key_def)
  have "key_cmp rel key t1 = key_cmp rel key t2"
    unfolding key_cmp_def
    by (rule lex_cong) (use assms(2) n in \<open>auto simp: same_key_def tuple_att_def\<close>)
  moreover have "tid_cmp rel key t1 = tid_cmp rel key t2"
    using assms(2) by (simp add: same_key_def tid_cmp_def split: option.split)
  ultimately show ?thesis by (simp add: key_tuple_cmp_def)
qed

lemma tid_bound_cmp:
  assumes "wf_rel rel" "wf_key rel key" "tid_bound rel t1 t2" "wf_item t1" "c = 0 \<or> c = 1" "c \<le> key_tuple_cmp rel key t2"
  shows "c \<le> key_tuple_cmp rel key t1"
proof -
  have n: "keysz key \<le> rd_nkeyatts rel" using assms(2) by (simp add: wf_key_def)
  have z: "tuple_cmp rel t1 t2 (keysz key) = 0"
    by (rule tuple_cmp_prefix_zero [OF n]) (use assms(3) in \<open>simp add: tid_bound_def\<close>)
  obtain h m where t: "ABTreeTupleGetHeapTID t1 = Some h" "ABTreeTupleGetHeapTID t2 = Some m" "max_tid t1 \<le> m"
    "\<not> ABTreeTupleIsPosting t2" using assms(3) by (auto simp: tid_bound_def split: option.splits)
  have "0 \<le> key_cmp rel key t2" using assms(5,6) by (auto simp: key_tuple_cmp_def split: if_splits)
  with z consider "0 < key_cmp rel key t1" | "key_cmp rel key t1 = 0" "key_cmp rel key t2 = 0"
    using key_cmp_le [OF assms(1,2), of t1 t2] by auto
  then show ?thesis
  proof cases
    case 1
    then show ?thesis using assms(5) by (auto simp: key_tuple_cmp_def)
  next
    case 2
    have "c \<le> tid_cmp rel key t2" using assms(6) 2 by (simp add: key_tuple_cmp_def)
    then have "c \<le> tid_cmp rel key t1"
    proof (cases "scantid key")
      case None
      then show ?thesis using t \<open>c \<le> tid_cmp rel key t2\<close> by (simp add: tid_cmp_def)
    next
      case (Some tid)
      then have c: "c \<le> ItemPointerCompare tid m" using \<open>c \<le> tid_cmp rel key t2\<close> t by (simp add: tid_cmp_def)
      have h: "h \<le> max_tid t1" using t(1) assms(4) by (auto simp: max_tid_def wf_item_def ABTreeTupleGetHeapTID_def split: if_splits)
      have "0 \<le> c" using assms(5) by auto
      then have "\<not> ItemPointerCompare tid m < 0" using c by linarith
      then have le: "m \<le> tid" by simp
      have lt: "m < tid" if "c = 1"
      proof -
        have "0 < ItemPointerCompare tid m" using c that by linarith
        then show ?thesis by simp
      qed
      show ?thesis
      proof (cases "tid \<le> h \<or> \<not> ABTreeTupleIsPosting t1")
        case True
        then have "tid_cmp rel key t1 = ItemPointerCompare tid h" using Some t by (simp add: tid_cmp_def)
        moreover have "\<not> tid < h" using h t(3) le by auto
        then have "0 \<le> ItemPointerCompare tid h" using ItemPointerCompare_order(1) [of tid h] by linarith
        moreover have "1 \<le> ItemPointerCompare tid h" if "c = 1"
        proof -
          have "h < tid" using lt [OF that] h t(3) by simp
          then show ?thesis using ItemPointerCompare_order(3) [of tid h] by linarith
        qed
        ultimately show ?thesis using assms(5) by auto
      next
        case False
        then have "tid_cmp rel key t1 = (if ABTreeTupleGetMaxHeapTID t1 < tid then 1 else 0)"
          using Some t by (simp add: tid_cmp_def)
        moreover have "max_tid t1 = ABTreeTupleGetMaxHeapTID t1" using False by (simp add: max_tid_def)
        ultimately show ?thesis using lt t(3) assms(5) by auto
      qed
    qed
    then show ?thesis using 2 by (simp add: key_tuple_cmp_def)
  qed
qed

lemma tuple_le_cmp:
  assumes "wf_rel rel" "wf_key rel key" "tuple_le rel t1 t2" "c = 0 \<or> c = 1" "c \<le> key_tuple_cmp rel key t2"
  shows "c \<le> key_tuple_cmp rel key t1"
proof -
  have "wf_item t1" using assms(3) by (simp add: tuple_le_def)
  from assms(3) consider "same_key rel t1 t2" | "tid_bound rel t1 t2" | "tuple_before rel t1 t2" by (auto simp: tuple_le_def)
  then show ?thesis
  proof cases
    case 1
    then show ?thesis using same_key_cmp [OF assms(2)] assms(5) by simp
  next
    case 2
    then show ?thesis by (rule tid_bound_cmp [OF assms(1,2) _ \<open>wf_item t1\<close> assms(4,5)])
  next
    case 3
    from key_tuple_cmp_mono [OF assms(1,2) this \<open>wf_item t1\<close>] show ?thesis using assms(4,5) by auto
  qed
qed

lemma compare_hikey:
  assumes "wf_key rel key" "\<not> ABT_P_RIGHTMOST (pd_special (store b))"
  shows "abt_compare rel key (store b) ABTP_HIKEY = key_tuple_cmp rel key (hikey store b)"
  unfolding hikey_def
  by (rule abt_compare_lex [OF assms(1) _ refl])
    (use assms(2) in \<open>simp add: ABT_P_FIRSTDATAKEY_def ABTP_HIKEY_def ABTP_FIRSTKEY_def\<close>)

text \<open>A downlink followed by the search leads to a page before which every page is passed.\<close>

lemma downlink_passed:
  assumes wf: "wf_rel rel" "wf_key rel key" "linked rel store ps cs" "wf_level rel store ps (Suc l)" "wf_level rel store cs l"
    and p: "p < length ps" "live store (ps ! p)" "\<And>i. i < p \<Longrightarrow> passed rel key store (ps ! i)"
  shows "\<exists>k<length cs. ABTreeTupleGetDownLink (PageGetItem (store (ps ! p)) (abt_binsrch rel key (store (ps ! p)))) = cs ! k
    \<and> (\<forall>i<k. passed rel key store (cs ! i))"
proof -
  define page where "page = store (ps ! p)"
  define fdk where "fdk = ABT_P_FIRSTDATAKEY (pd_special page)"
  define off where "off = abt_binsrch rel key page"
  define c :: int where "c = (if nextkey key then 0 else 1)"
  have c01: "c = 0 \<or> c = 1" by (simp add: c_def)
  have pg: "sorted_page rel page" "\<not> ABT_P_ISLEAF (pd_special page)" "fdk \<le> PageGetMaxOffsetNumber page"
    using wf(4) p(1,2) unfolding wf_level_def page_def fdk_def by auto
  have slot: "is_slot rel key page c (off + 1)" "fdk \<le> off"
    using abt_binsrch_slot(2) [OF wf(1,2) pg(1) _ pg(2) pg(3) [unfolded fdk_def]] pg(3)
    unfolding c_def off_def fdk_def by auto
  then have off: "off \<le> PageGetMaxOffsetNumber page" "c \<le> abt_compare rel key page off"
    unfolding is_slot_def fdk_def [symmetric] by auto
  obtain k where k: "k < length cs" "ABTreeTupleGetDownLink (PageGetItem page off) = cs ! k"
    and left: "\<And>k'. k' < k \<Longrightarrow> live store (cs ! k') \<Longrightarrow>
        (if fdk < off then tuple_le rel (hikey store (cs ! k')) (PageGetItem page off)
         else \<exists>p'<p. live store (ps ! p') \<and> tuple_le rel (hikey store (cs ! k')) (hikey store (ps ! p')))"
    using wf(3) p(1,2) slot(2) off(1) unfolding linked_def Let_def page_def [symmetric] fdk_def [symmetric]
    by (metis atLeastAtMost_iff page_def fdk_def)
  have pass: "passed rel key store (cs ! k')" if k': "k' < k" for k'
  proof (cases "live store (cs ! k')")
    case True
    have nr: "\<not> ABT_P_RIGHTMOST (pd_special (store (cs ! k')))"
      using right_chain_inner [of store cs k'] wf(5) k' k(1) by (simp add: wf_level_def)
    have "c \<le> key_tuple_cmp rel key (hikey store (cs ! k'))"
    proof (cases "fdk < off")
      case lt: True
      then have "c \<le> key_tuple_cmp rel key (PageGetItem page off)"
        using off(2) abt_compare_lex [OF wf(2) _ refl, of page off] by (simp add: fdk_def)
      then show ?thesis using tuple_le_cmp [OF wf(1,2) _ c01] left [OF k' True] lt by simp
    next
      case False
      then obtain p' where p': "p' < p" "live store (ps ! p')" "tuple_le rel (hikey store (cs ! k')) (hikey store (ps ! p'))"
        using left [OF k' True] by auto
      have nr': "\<not> ABT_P_RIGHTMOST (pd_special (store (ps ! p')))"
        using p(3) [OF p'(1)] by (simp add: passed_def)
      have "c \<le> key_tuple_cmp rel key (hikey store (ps ! p'))"
        using p(3) [OF p'(1)] p'(2) compare_hikey [of rel key store "ps ! p'", OF wf(2) nr'] by (simp add: passed_def c_def)
      then show ?thesis using tuple_le_cmp [OF wf(1,2) p'(3) c01] by simp
    qed
    then show ?thesis using nr compare_hikey [of rel key store "cs ! k'", OF wf(2) nr] by (simp add: passed_def c_def)
  next
    case False
    then show ?thesis
      using right_chain_inner [of store cs k'] wf(5) k' k(1) by (simp add: wf_level_def passed_def)
  qed
  show ?thesis using k pass unfolding page_def off_def by blast
qed

lemma search_loop_target:
  assumes wf: "wf_rel rel" "wf_key rel key" "wf_tree rel store levels"
    and l: "l < length levels" "lv \<le> l" "k < length (levels ! l)" "\<And>i. i < k \<Longrightarrow> passed rel key store (levels ! l ! i)"
  shows "\<exists>stack. search_loop rel key store (of_nat lv) stack_in (levels ! l ! k)
    = Some (Inr (target rel key store (levels ! lv), stack))"
  using l
proof (induction "l - lv" arbitrary: l k stack_in)
  case 0
  then have lv: "lv = l" by simp
  have W: "wf_level rel store (levels ! l) l" using wf(3) 0(2) by (simp add: wf_tree_def)
  then have ch: "right_chain store (levels ! l)" "live store (last (levels ! l))" by (simp_all add: wf_level_def)
  have "abt_moveright rel key store (levels ! l ! k) = Some (Inr (target rel key store (levels ! l)))"
    using moveright_chain [OF right_chain_drop [OF ch(1) 0(4)], of rel key] ch(2) 0(4) target_drop [OF 0(5,4)]
    by (simp add: hd_drop_conv_nth)
  moreover have "abtpo_level (pd_special (store (target rel key store (levels ! l)))) = of_nat l"
    using target_index [OF ch, of rel key] W by (auto simp: wf_level_def)
  ultimately show ?case by (subst search_loop.simps) (simp add: lv Let_def)
next
  case (Suc d)
  then obtain m where m: "l = Suc m" "lv \<le> m" "d = m - lv" by (cases l) auto
  have W: "wf_level rel store (levels ! l) l" "wf_level rel store (levels ! m) m"
    and lk: "linked rel store (levels ! Suc m) (levels ! m)"
    using wf(3) Suc.prems(1) m(1) by (simp_all add: wf_tree_def)
  then have ch: "right_chain store (levels ! l)" "live store (last (levels ! l))" by (simp_all add: wf_level_def)
  obtain p where p: "p < length (levels ! l)" "target rel key store (levels ! l) = levels ! l ! p"
    "live store (levels ! l ! p)" "\<And>i. i < p \<Longrightarrow> passed rel key store (levels ! l ! i)"
    using target_index [OF ch] by blast
  have mr: "abt_moveright rel key store (levels ! l ! k) = Some (Inr (levels ! l ! p))"
    using moveright_chain [OF right_chain_drop [OF ch(1) Suc.prems(3)], of rel key] ch(2) Suc.prems(3)
      target_drop [OF Suc.prems(4,3)] p(2)
    by (simp add: hd_drop_conv_nth)
  have "length levels \<le> 2 ^ 32" using wf(3) by (simp add: wf_tree_def)
  then have "unat (of_nat l :: 32 word) = l" "unat (of_nat lv :: 32 word) = lv"
    using Suc.prems(1,2) by (simp_all add: unat_of_nat_small)
  moreover have "abtpo_level (pd_special (store (levels ! l ! p))) = of_nat l"
    using W(1) p(1,3) by (simp add: wf_level_def)
  ultimately have lev: "unat (abtpo_level (pd_special (store (levels ! l ! p)))) = l" "unat (of_nat lv :: 32 word) = lv"
    by simp_all
  then have ne: "abtpo_level (pd_special (store (levels ! l ! p))) \<noteq> of_nat lv"
    "\<not> abtpo_level (pd_special (store (levels ! l ! p))) < of_nat lv"
    using m by (auto simp: word_less_nat_alt)
  obtain q where q: "q < length (levels ! m)"
    "ABTreeTupleGetDownLink (PageGetItem (store (levels ! l ! p)) (abt_binsrch rel key (store (levels ! l ! p)))) = levels ! m ! q"
    "\<And>i. i < q \<Longrightarrow> passed rel key store (levels ! m ! i)"
    using downlink_passed [OF wf(1,2) lk W(1)[unfolded m(1)] W(2) p(1,3,4)[unfolded m(1)]] unfolding m(1) by blast
  have "\<exists>stack. search_loop rel key store (of_nat lv) st (levels ! m ! q) = Some (Inr (target rel key store (levels ! lv), stack))" for st
    by (rule Suc.hyps(1) [OF m(3) _ m(2) q(1) q(3)]) (use Suc.prems(1) m(1) in auto)
  then show ?case by (subst search_loop.simps) (simp add: mr ne q(2) Let_def)
qed

section \<open>Position in the leaf level\<close>

text \<open>The items of a leaf page are at most its high key, which is at most everything further right.\<close>

definition leaf_order :: "index_rel \<Rightarrow> page_store \<Rightarrow> BlockNumber list \<Rightarrow> bool" where
  "leaf_order rel store cs =
     (\<forall>a<length cs. live store (cs ! a) \<longrightarrow>
        (Suc a < length cs \<longrightarrow>
           (\<forall>i\<in>{ABT_P_FIRSTDATAKEY (pd_special (store (cs ! a)))..PageGetMaxOffsetNumber (store (cs ! a))}.
              tuple_le rel (PageGetItem (store (cs ! a)) i) (hikey store (cs ! a))))
        \<and> (\<forall>b<length cs. a < b \<longrightarrow> live store (cs ! b) \<longrightarrow>
           (\<forall>i\<in>{ABT_P_FIRSTDATAKEY (pd_special (store (cs ! b)))..PageGetMaxOffsetNumber (store (cs ! b))}.
              tuple_le rel (hikey store (cs ! a)) (PageGetItem (store (cs ! b)) i))))"

lemma leaf_sides:
  assumes wf: "wf_rel rel" "wf_key rel key" "wf_level rel store cs 0" "leaf_order rel store cs"
    and t: "f < length cs" "live store (cs ! f)" "\<not> passed rel key store (cs ! f)" "\<And>i. i < f \<Longrightarrow> passed rel key store (cs ! i)"
    and g: "g < length cs" "live store (cs ! g)"
      "i \<in> {ABT_P_FIRSTDATAKEY (pd_special (store (cs ! g)))..PageGetMaxOffsetNumber (store (cs ! g))}"
    and c: "c = (if nextkey key then 0 else 1)"
  shows "g < f \<Longrightarrow> c \<le> abt_compare rel key (store (cs ! g)) i" "f < g \<Longrightarrow> abt_compare rel key (store (cs ! g)) i < c"
proof -
  have ch: "right_chain store cs" using wf(3) by (simp add: wf_level_def)
  have leaf: "ABT_P_ISLEAF (pd_special (store (cs ! g)))" using wf(3) g(1,2) by (simp add: wf_level_def)
  note C = abt_compare_lex [OF wf(2) disjI1 [OF leaf] refl, of i]
  have c01: "c = 0 \<or> c = 1" by (simp add: c)
  show "c \<le> abt_compare rel key (store (cs ! g)) i" if "g < f"
  proof -
    have nr: "\<not> ABT_P_RIGHTMOST (pd_special (store (cs ! g)))" using t(4) [OF that] by (simp add: passed_def)
    have "c \<le> key_tuple_cmp rel key (hikey store (cs ! g))"
      using t(4) [OF that] g(2) compare_hikey [of rel key store "cs ! g", OF wf(2) nr] by (simp add: passed_def c)
    moreover have "tuple_le rel (PageGetItem (store (cs ! g)) i) (hikey store (cs ! g))"
      using wf(4) g that t(1) by (simp add: leaf_order_def)
    ultimately show ?thesis unfolding C using tuple_le_cmp [OF wf(1,2) _ c01] by blast
  qed
  show "abt_compare rel key (store (cs ! g)) i < c" if "f < g"
  proof -
    have nr: "\<not> ABT_P_RIGHTMOST (pd_special (store (cs ! f)))"
      using right_chain_inner [OF ch t(1)] that g(1) by simp
    have "\<not> c \<le> key_tuple_cmp rel key (hikey store (cs ! f))"
      using t(2,3) nr compare_hikey [of rel key store "cs ! f", OF wf(2) nr] by (simp add: passed_def c)
    moreover have "tuple_le rel (hikey store (cs ! f)) (PageGetItem (store (cs ! g)) i)"
      using wf(4) g that t(1,2) by (simp add: leaf_order_def)
    ultimately have "\<not> c \<le> key_tuple_cmp rel key (PageGetItem (store (cs ! g)) i)"
      using tuple_le_cmp [OF wf(1,2) _ c01] by blast
    then show ?thesis unfolding C by simp
  qed
qed

section \<open>An example tree\<close>

text \<open>The leaf 5 was split off leaf 1 and has no downlink yet; leaf 4 between them is deleted.\<close>

definition ex_pivot :: "Datum option list \<Rightarrow> BlockNumber \<Rightarrow> IndexTupleData" where
  "ex_pivot atts blkno = (ex_plain 0 1)\<lparr>t_tid := ItemPointer blkno (of_nat (length atts)), t_info := 0x2018, it_attrs := atts\<rparr>"

definition ex_page :: "BlockNumber \<Rightarrow> 32 word \<Rightarrow> 16 word \<Rightarrow> IndexTupleData list \<Rightarrow> PageData" where
  "ex_page next level flags ts =
     \<lparr>pd_linp = map (\<lambda>t. \<lparr>lp_dead = False, lp_len = IndexTupleSize t, pi_tup = t\<rparr>) ts,
      pd_special = \<lparr>abtpo_prev = 0, abtpo_next = next, abtpo_level = level, abtpo_flags = flags,
        abtpo_cycleid = 0, abtpo_last_update_id = 0\<rparr>\<rparr>"

definition ex_store :: page_store where
  "ex_store b =
     (if b = 1 then ex_page 4 0 1 [ex_pivot [Some 2] 0, ex_row 1 (Some 9) 5]
      else if b = 4 then ex_page 5 0 5 [ex_pivot [Some 2] 0]
      else if b = 5 then ex_page 2 0 1 [ex_pivot [Some 4] 0, ex_rows, ex_row 2 (Some 7) 2]
      else if b = 2 then ex_page 0 0 1 [ex_row 6 None 3]
      else ex_page 0 1 2 [ex_pivot [] 1, ex_pivot [Some 5] 2])"

definition ex_levels :: "BlockNumber list list" where
  "ex_levels = [[1, 4, 5, 2], [3]]"

lemma ex_level_ok: "wf_level ex_rel ex_store [1, 4, 5, 2] 0" "wf_level ex_rel ex_store [3] 1"
  by code_simp+

lemma ex_pages:
  "live ex_store 1" "\<not> live ex_store 4" "live ex_store 5" "live ex_store 2" "live ex_store 3"
  "ABT_P_FIRSTDATAKEY (pd_special (ex_store 1)) = 2" "PageGetMaxOffsetNumber (ex_store 1) = 2"
  "ABT_P_FIRSTDATAKEY (pd_special (ex_store 5)) = 2" "PageGetMaxOffsetNumber (ex_store 5) = 3"
  "ABT_P_FIRSTDATAKEY (pd_special (ex_store 2)) = 1" "PageGetMaxOffsetNumber (ex_store 2) = 1"
  "ABT_P_FIRSTDATAKEY (pd_special (ex_store 3)) = 1" "PageGetMaxOffsetNumber (ex_store 3) = 2"
  by code_simp+

lemma ex_separators:
  "ABTreeTupleGetDownLink (PageGetItem (ex_store 3) 1) = 1" "ABTreeTupleGetDownLink (PageGetItem (ex_store 3) 2) = 2"
  "tuple_le ex_rel (hikey ex_store 1) (PageGetItem (ex_store 3) 2)" "tuple_le ex_rel (hikey ex_store 5) (PageGetItem (ex_store 3) 2)"
  "tuple_le ex_rel (PageGetItem (ex_store 1) 2) (hikey ex_store 1)" "tuple_le ex_rel (PageGetItem (ex_store 5) 2) (hikey ex_store 5)"
  "tuple_le ex_rel (PageGetItem (ex_store 5) 3) (hikey ex_store 5)" "tuple_le ex_rel (hikey ex_store 1) (PageGetItem (ex_store 5) 2)"
  "tuple_le ex_rel (hikey ex_store 1) (PageGetItem (ex_store 5) 3)" "tuple_le ex_rel (hikey ex_store 1) (PageGetItem (ex_store 2) 1)"
  "tuple_le ex_rel (hikey ex_store 5) (PageGetItem (ex_store 2) 1)"
  by code_simp+

lemma ball_two_three: "(\<forall>i\<in>{2..3 :: nat}. P i) \<longleftrightarrow> P 2 \<and> P 3"
proof -
  have "{2..3 :: nat} = {2, 3}" by auto
  then show ?thesis by simp
qed

lemma all_less_four: "(\<forall>a<4 :: nat. P a) \<longleftrightarrow> P 0 \<and> P 1 \<and> P 2 \<and> P 3"
proof -
  have "a < 4 \<longleftrightarrow> a = 0 \<or> a = 1 \<or> a = 2 \<or> a = 3" for a :: nat by auto
  then show ?thesis by auto
qed

lemma ex_leaf_order: "leaf_order ex_rel ex_store (ex_levels ! 0)"
proof -
  have l: "ex_levels ! 0 = [1, 4, 5, 2]" "length [1, 4, 5, 2 :: BlockNumber] = 4" by (simp_all add: ex_levels_def)
  show ?thesis
    unfolding leaf_order_def l all_less_four
    by (simp add: ex_pages ex_separators [unfolded One_nat_def] ball_two_three)
qed

lemma linked_root:
  assumes "ABT_P_FIRSTDATAKEY (pd_special (store r)) = 1" "PageGetMaxOffsetNumber (store r) = 2" "cs \<noteq> []"
    and "ABTreeTupleGetDownLink (PageGetItem (store r) 1) = cs ! 0"
    and "ABTreeTupleGetDownLink (PageGetItem (store r) 2) = cs ! k" "k < length cs"
    and "\<forall>k'<k. live store (cs ! k') \<longrightarrow> tuple_le rel (hikey store (cs ! k')) (PageGetItem (store r) 2)"
  shows "linked rel store [r] cs"
proof -
  let ?P = "\<lambda>i k. ABTreeTupleGetDownLink (PageGetItem (store r) i) = cs ! k
      \<and> (\<forall>k'<k. live store (cs ! k') \<longrightarrow>
           (if 1 < i then tuple_le rel (hikey store (cs ! k')) (PageGetItem (store r) i)
            else \<exists>p'<0. live store ([r] ! p') \<and> tuple_le rel (hikey store (cs ! k')) (hikey store ([r] ! p'))))"
  have "\<exists>k<length cs. ?P i k" if i: "i \<in> {1..2}" for i
  proof (cases "i = 1")
    case True
    then have "?P i 0" using assms(4) by simp
    then show ?thesis using assms(3) by blast
  next
    case False
    then have "i = 2" using i by auto
    then have "?P i k" using assms(5,7) by simp
    then show ?thesis using assms(6) by blast
  qed
  then have all: "\<forall>i\<in>{1..2}. \<exists>k<length cs. ?P i k" by blast
  show ?thesis
    unfolding linked_def Let_def
  proof (intro allI impI, goal_cases)
    case (1 p)
    then have "p = 0" by simp
    then show ?case using all by (simp only: nth_Cons_0 assms(1,2))
  qed
qed

lemma ex_linked: "linked ex_rel ex_store [3] [1, 4, 5, 2]"
proof (rule linked_root [where k = 3])
  show "\<forall>k'<3. live ex_store ([1, 4, 5, 2] ! k') \<longrightarrow>
      tuple_le ex_rel (hikey ex_store ([1, 4, 5, 2] ! k')) (PageGetItem (ex_store 3) 2)"
    using ex_pages ex_separators by (auto simp: less_Suc_eq numeral_3_eq_3)
qed (simp_all add: ex_pages ex_separators [unfolded One_nat_def])

lemma ex_tree_ok: "wf_tree ex_rel ex_store ex_levels"
  using ex_level_ok ex_linked by (simp add: wf_tree_def ex_levels_def All_less_Suc2)

section \<open>Properties\<close>

text \<open>
  C22. Moving right terminates on the right page. From any page of a level whose right links lead to a
  live rightmost page, the walk returns, without an error, the first page from there on that is not
  deleted or half dead and whose high key is not below the key (not at or below it for a next-key
  search), or the rightmost page.
\<close>

theorem abt_moveright_returns:
  assumes "right_chain store bs" "live store (last bs)"
  shows "\<exists>k<length bs. abt_moveright rel key store (hd bs) = Some (Inr (bs ! k)) \<and> live store (bs ! k)
    \<and> (ABT_P_RIGHTMOST (pd_special (store (bs ! k)))
        \<or> abt_compare rel key (store (bs ! k)) ABTP_HIKEY < (if nextkey key then 0 else 1))
    \<and> (\<forall>i<k. \<not> live store (bs ! i) \<or> (if nextkey key then 0 else 1) \<le> abt_compare rel key (store (bs ! i)) ABTP_HIKEY)"
proof -
  obtain k where k: "k < length bs" "target rel key store bs = bs ! k" "\<forall>i<k. passed rel key store (bs ! i)"
    "\<not> passed rel key store (bs ! k)" "live store (bs ! k)"
    using target_index [OF assms] by blast
  show ?thesis
  proof (intro exI conjI)
    show "abt_moveright rel key store (hd bs) = Some (Inr (bs ! k))" using moveright_chain [OF assms] k(2) by simp
    show "ABT_P_RIGHTMOST (pd_special (store (bs ! k)))
        \<or> abt_compare rel key (store (bs ! k)) ABTP_HIKEY < (if nextkey key then 0 else 1)"
      using k(4) by (simp only: passed_def de_Morgan_conj de_Morgan_disj not_not not_le) blast
    show "\<forall>i<k. \<not> live store (bs ! i) \<or> (if nextkey key then 0 else 1) \<le> abt_compare rel key (store (bs ! i)) ABTP_HIKEY"
      using k(3) unfolding passed_def by blast
  qed (use k in auto)
qed

theorem abt_moveright_returns_witness:
  "abt_moveright ex_rel ex_key ex_store 1 = Some (Inr 5)"
proof -
  have c: "right_chain ex_store [1, 4, 5, 2]" "live ex_store (last [1, 4, 5, 2])" by code_simp+
  have v: "1 \<le> abt_compare ex_rel ex_key (ex_store 1) ABTP_HIKEY" "\<not> ABT_P_RIGHTMOST (pd_special (ex_store 1))"
    "\<not> live ex_store 4" "live ex_store 5" "abt_compare ex_rel ex_key (ex_store 5) ABTP_HIKEY < 1" "\<not> nextkey ex_key" by code_simp+
  have ex4: "length [1, 4, 5, 2 :: BlockNumber] = 4" "hd [1, 4, 5, 2 :: BlockNumber] = 1" by simp_all
  obtain k where k: "k < 4" "abt_moveright ex_rel ex_key ex_store 1 = Some (Inr ([1, 4, 5, 2] ! k))" "live ex_store ([1, 4, 5, 2] ! k)"
    "ABT_P_RIGHTMOST (pd_special (ex_store ([1, 4, 5, 2] ! k))) \<or> abt_compare ex_rel ex_key (ex_store ([1, 4, 5, 2] ! k)) ABTP_HIKEY < 1"
    "\<forall>i<k. \<not> live ex_store ([1, 4, 5, 2] ! i) \<or> 1 \<le> abt_compare ex_rel ex_key (ex_store ([1, 4, 5, 2] ! i)) ABTP_HIKEY"
    using abt_moveright_returns [OF c, of ex_rel ex_key] v(6) unfolding ex4 by (elim exE conjE) simp
  have "k \<noteq> 0" using k(4) v by (intro notI) simp
  moreover have "k \<noteq> 1" using k(3) v by (intro notI) simp
  moreover have "k \<noteq> 3" using k(5) v by (intro notI) (auto dest: spec [of _ 2])
  ultimately have "k = 2" using k(1) by linarith
  then show ?thesis using k(2) by simp
qed

text \<open>
  C12. The descent is equivalent to walking the level. In a tree in which every level is a chain along
  the right links, whose downlinks point to the level below and whose keys separate the pages, and in
  which pages may be split without a downlink yet or be deleted, the search from the root down to any
  level returns, without an error, the same page as walking that level from its leftmost page.
\<close>

theorem abt_search_extended_walk:
  assumes "wf_rel rel" "wf_key rel key" "wf_tree rel store levels" "lv < length levels"
  shows "\<exists>b stack. abt_search_extended rel key store (Some (hd (last levels))) (of_nat lv) = Some (Inr (Some (b, stack)))
    \<and> abt_moveright rel key store (hd (levels ! lv)) = Some (Inr b)"
proof -
  let ?top = "length levels - 1"
  have ne: "levels \<noteq> []" and le: "lv \<le> ?top" using assms(4) by auto
  have W: "wf_level rel store (levels ! l) l" if "l < length levels" for l using assms(3) that by (simp add: wf_tree_def)
  have top: "right_chain store (levels ! ?top)" using W [of ?top] ne by (simp add: wf_level_def)
  have lvl: "right_chain store (levels ! lv)" "live store (last (levels ! lv))"
    using W [OF assms(4)] by (simp_all add: wf_level_def)
  obtain stack where "search_loop rel key store (of_nat lv) [] (levels ! ?top ! 0)
      = Some (Inr (target rel key store (levels ! lv), stack))"
    using search_loop_target [OF assms(1-3), of ?top lv 0 "[]"] le right_chain_nonempty [OF top] ne by auto
  then have "abt_search_extended rel key store (Some (hd (last levels))) (of_nat lv)
      = Some (Inr (Some (target rel key store (levels ! lv), stack)))"
    using right_chain_nonempty [OF top] ne by (simp add: abt_search_extended_def last_conv_nth hd_conv_nth)
  then show ?thesis using moveright_chain [OF lvl] by blast
qed

theorem abt_search_extended_walk_witness:
  "\<exists>b stack. abt_search_extended ex_rel ex_key ex_store (Some 3) 0 = Some (Inr (Some (b, stack)))
    \<and> abt_moveright ex_rel ex_key ex_store 1 = Some (Inr b)"
  using abt_search_extended_walk [OF ex_rel_wf ex_key_wf(1) ex_tree_ok, of 0] by (simp add: ex_levels_def)

text \<open>
  C3. The search finds the position of the key in the whole leaf level. The leaf and the slot that the
  descent and the binary search of that leaf return split all items of the index: every item on a live
  leaf further left and every item before the slot is below the key, and no item from the slot on or
  on a live leaf further right is (for a next-key search: at or below the key).
\<close>

theorem abt_search_leaf_position:
  assumes "wf_rel rel" "wf_key rel key" "wf_tree rel store levels" "cs = levels ! 0" "leaf_order rel store cs"
    and "c = (if nextkey key then 0 else 1)"
  shows "\<exists>f stack. f < length cs \<and> live store (cs ! f)
    \<and> abt_search_extended rel key store (Some (hd (last levels))) 0 = Some (Inr (Some (cs ! f, stack)))
    \<and> is_slot rel key (store (cs ! f)) c (abt_binsrch rel key (store (cs ! f)))
    \<and> (\<forall>g<length cs. live store (cs ! g) \<longrightarrow>
         (\<forall>i\<in>{ABT_P_FIRSTDATAKEY (pd_special (store (cs ! g)))..PageGetMaxOffsetNumber (store (cs ! g))}.
            (g < f \<longrightarrow> c \<le> abt_compare rel key (store (cs ! g)) i)
            \<and> (f < g \<longrightarrow> abt_compare rel key (store (cs ! g)) i < c)))"
proof -
  have ne: "levels \<noteq> []" using assms(3) by (simp add: wf_tree_def)
  have W: "wf_level rel store (levels ! l) l" if "l < length levels" for l using assms(3) that by (simp add: wf_tree_def)
  have W0: "wf_level rel store cs 0" using W [of 0] ne assms(4) by simp
  have top: "right_chain store (levels ! (length levels - 1))" using W ne by (simp add: wf_level_def)
  have lvl: "right_chain store cs" "live store (last cs)" using W0 by (simp_all add: wf_level_def)
  obtain f where f: "f < length cs" "target rel key store cs = cs ! f" "live store (cs ! f)" "\<not> passed rel key store (cs ! f)"
    and p: "\<And>i. i < f \<Longrightarrow> passed rel key store (cs ! i)"
    using target_index [OF lvl] by blast
  obtain stack where "search_loop rel key store (of_nat 0) [] (levels ! (length levels - 1) ! 0)
      = Some (Inr (cs ! f, stack))"
    using search_loop_target [OF assms(1-3), of "length levels - 1" 0 0 "[]"] ne right_chain_nonempty [OF top] f(2)
    unfolding assms(4) by auto
  then have s: "abt_search_extended rel key store (Some (hd (last levels))) 0 = Some (Inr (Some (cs ! f, stack)))"
    using right_chain_nonempty [OF top] ne by (simp add: abt_search_extended_def last_conv_nth hd_conv_nth)
  have pg: "sorted_page rel (store (cs ! f))" "ABT_P_ISLEAF (pd_special (store (cs ! f)))"
    "ABT_P_FIRSTDATAKEY (pd_special (store (cs ! f))) \<le> PageGetMaxOffsetNumber (store (cs ! f)) + 1"
    using W0 f(1,3) by (simp_all add: wf_level_def)
  have "is_slot rel key (store (cs ! f)) c (abt_binsrch rel key (store (cs ! f)))"
    unfolding assms(6) by (rule abt_binsrch_slot(1) [OF assms(1,2) pg(1,3,2)])
  moreover have "\<forall>g<length cs. live store (cs ! g) \<longrightarrow>
       (\<forall>i\<in>{ABT_P_FIRSTDATAKEY (pd_special (store (cs ! g)))..PageGetMaxOffsetNumber (store (cs ! g))}.
          (g < f \<longrightarrow> c \<le> abt_compare rel key (store (cs ! g)) i)
          \<and> (f < g \<longrightarrow> abt_compare rel key (store (cs ! g)) i < c))"
    by (intro allI impI ballI conjI; rule leaf_sides [OF assms(1,2) W0 assms(5) f(1,3,4) p _ _ _ assms(6)])
  ultimately show ?thesis using s f(1,3) by (intro exI conjI)
qed

theorem abt_search_leaf_position_witness:
  "\<exists>b stack. abt_search_extended ex_rel ex_key ex_store (Some 3) 0 = Some (Inr (Some (b, stack)))
    \<and> is_slot ex_rel ex_key (ex_store b) 1 (abt_binsrch ex_rel ex_key (ex_store b))"
proof -
  have k: "\<not> nextkey ex_key" by code_simp
  from abt_search_leaf_position [OF ex_rel_wf ex_key_wf(1) ex_tree_ok refl ex_leaf_order refl]
  obtain f stack where "abt_search_extended ex_rel ex_key ex_store (Some (hd (last ex_levels))) 0 = Some (Inr (Some (ex_levels ! 0 ! f, stack)))"
    "is_slot ex_rel ex_key (ex_store (ex_levels ! 0 ! f)) (if nextkey ex_key then 0 else 1) (abt_binsrch ex_rel ex_key (ex_store (ex_levels ! 0 ! f)))"
    by blast
  then show ?thesis using k by (auto simp: ex_levels_def)
qed

end
