(* ===== verification/Sampling.thy ===== *)
theory Sampling
  imports Complex_Main Version_Store Descend
begin

unbundle bit_operations_syntax

text \<open>
  Drawing a weighted sample from the index (\<^verbatim>\<open>_abt_sample_extended\<close> without a locked path) and the total
  weight it is drawn from (\<^verbatim>\<open>_abt_total_weight\<close>), both in \<^verbatim>\<open>abtsearch.c\<close>. A draw looks for the first page on
  the way down that has more than one matching entry, builds the prefix sums of its visible weights,
  scales the random number to a cutoff and then follows the aggregates of the downlinks to one item of
  a leaf. The theorems say which item every cutoff selects, so that each item is selected by as many
  cutoffs as its weight, and that the inverse probability reported with a sample is the total weight
  divided by the weight of the item.
\<close>

section \<open>Definitions\<close>

text \<open>A double: the values that occur are infinity and numbers, which are kept exactly.\<close>

datatype float8 = PlusInfinity | Number rat

fun float8_div :: "float8 \<Rightarrow> nat \<Rightarrow> float8" where
  "float8_div PlusInfinity w = PlusInfinity"
| "float8_div (Number x) w = (if w = 0 then PlusInfinity else Number (x / of_nat w))"

text \<open>What a draw reads: the index, the version store, the snapshot, the keys of the scan and the scan
  key object for high keys. \<open>sp_checkkeys\<close> stands for the recheck of the scan keys on a tuple.\<close>

record sampler =
  sp_rel :: index_rel
  sp_store :: page_store
  sp_vs :: version_store
  sp_index_id :: "32 word"
  sp_bypass :: bool
  sp_snapshot :: "ABTSnapshotData option"
  sp_agg_info :: ABTCachedAggInfo
  sp_low :: "ABTScanInsertData option"
  sp_high :: "ABTScanInsertData option"
  sp_inskey_pivot :: ABTScanInsertData
  sp_ignore_killed :: bool
  sp_checkkeys :: "IndexTupleData \<Rightarrow> bool"

text \<open>\<open>SampleError\<close> is the release of an invalid buffer. A sample has its block, offset, heap TID and the
  inverse of its probability; a rejected draw leaves the value of \<^verbatim>\<open>inv_prob\<close>.\<close>

datatype sample_result =
    SampleError
  | Reject float8
  | Sample BlockNumber nat ItemPointerData float8

definition read_agg :: "sampler \<Rightarrow> IndexTupleData \<Rightarrow> 64 word" where
  "read_agg sp itup = abt_read_agg (sp_bypass sp) (sp_vs sp) (sp_index_id sp) itup (sp_snapshot sp) (sp_agg_info sp)"

definition in_snapshot :: "sampler \<Rightarrow> TransactionId \<Rightarrow> bool" where
  "in_snapshot sp xid = abt_xid_in_snapshot xid (sp_snapshot sp)"

text \<open>\<open>None\<close> stands for a walk that does not end, \<open>Some None\<close> for an invalid buffer.\<close>

partial_function (option) abt_moveright_to_next_live_page :: "page_store \<Rightarrow> BlockNumber \<Rightarrow> BlockNumber option option" where
  "abt_moveright_to_next_live_page store buf =
     (if ABT_P_IGNORE (pd_special (store buf)) then
        let blkno = abtpo_next (pd_special (store buf))
        in if ABT_P_RIGHTMOST (pd_special (store blkno)) then Some None
           else abt_moveright_to_next_live_page store blkno
      else Some (Some buf))"

text \<open>The visible items of a posting list: weight and position. The pointer to the values moves on only
  after a visible item.\<close>

function posting_items :: "sampler \<Rightarrow> 64 word \<Rightarrow> IndexTupleData \<Rightarrow> nat \<Rightarrow> nat \<Rightarrow> (64 word \<times> nat) list" where
  "posting_items sp unit_weight itup i k =
     (if i < ABTreeTupleGetNPosting itup then
        if in_snapshot sp (it_xmins itup ! i) then posting_items sp unit_weight itup (i + 1) k
        else if leaf_has_agg (sp_agg_info sp)
        then (abt_atomic_read_agg_ptr (it_aggs itup ! k) (sp_agg_info sp), i) # posting_items sp unit_weight itup (i + 1) (k + 1)
        else (unit_weight, i) # posting_items sp unit_weight itup (i + 1) k
      else [])"
  by pat_completeness auto
termination by (relation "measure (\<lambda>(_, _, itup, i, _). ABTreeTupleGetNPosting itup - i)") auto

declare posting_items.simps [simp del]

definition leaf_items :: "sampler \<Rightarrow> 64 word \<Rightarrow> IndexTupleData \<Rightarrow> (64 word \<times> nat) list" where
  "leaf_items sp unit_weight itup =
     (if ABTreeTupleIsPosting itup then posting_items sp unit_weight itup 0 0
      else if in_snapshot sp (it_xmins itup ! 0) then []
      else if leaf_has_agg (sp_agg_info sp) then [(abt_atomic_read_agg_ptr (it_aggs itup ! 0) (sp_agg_info sp), 0)]
      else [(unit_weight, 0)])"

text \<open>The arrays \<^verbatim>\<open>prefix_sums\<close> and \<^verbatim>\<open>item_indexes\<close> before the sums are built.\<close>

definition collect_leaf_items :: "sampler \<Rightarrow> PageData \<Rightarrow> nat \<Rightarrow> nat \<Rightarrow> (64 word \<times> 32 word) list" where
  "collect_leaf_items sp page minoff maxoff =
     concat (map (\<lambda>offnum.
       let itup = PageGetItem page offnum
       in map (\<lambda>(w, i). (w, if ABTreeTupleIsPosting itup
                           then ABT_OFFSET_AND_POSTING_OFF_GET_ITEMINDEX (of_nat offnum) (of_nat i)
                           else ABT_OFFSET_GET_ITEMINDEX (of_nat offnum)))
            (leaf_items sp 1 itup)) [minoff..<maxoff + 1])"

definition collect_internal_items :: "sampler \<Rightarrow> PageData \<Rightarrow> nat \<Rightarrow> nat \<Rightarrow> (64 word \<times> 32 word) list" where
  "collect_internal_items sp page minoff maxoff =
     filter (\<lambda>(w, _). w \<noteq> 0)
       (map (\<lambda>offnum. (read_agg sp (PageGetItem page offnum), ABT_OFFSET_GET_ITEMINDEX (of_nat offnum))) [minoff..<maxoff + 1])"

primrec running_sums :: "64 word \<Rightarrow> 64 word list \<Rightarrow> 64 word list" where
  "running_sums acc [] = []"
| "running_sums acc (w # ws) = (acc + w) # running_sums (acc + w) ws"

function cutoff_search :: "64 word list \<Rightarrow> 64 word \<Rightarrow> nat \<Rightarrow> nat \<Rightarrow> nat" where
  "cutoff_search prefix_sums cutoff low high =
     (if low < high then
        let mid = (low + high) div 2
        in if prefix_sums ! mid > cutoff then cutoff_search prefix_sums cutoff low mid
           else cutoff_search prefix_sums cutoff (mid + 1) high
      else low)"
  by pat_completeness auto
termination by (relation "measure (\<lambda>(_, _, low, high). high - low)") auto

declare cutoff_search.simps [simp del]

text \<open>\<open>scale\<close> multiplies with the random number and rounds down.\<close>

definition scale_cutoff :: "(nat \<Rightarrow> nat) \<Rightarrow> 64 word \<Rightarrow> 64 word" where
  "scale_cutoff scale w = (let cutoff = of_nat (scale (unat w)) in if cutoff = w then cutoff - 1 else cutoff)"

definition scale_index :: "(nat \<Rightarrow> nat) \<Rightarrow> nat \<Rightarrow> nat" where
  "scale_index scale n = (let cutoff_index = scale n in if cutoff_index = n then cutoff_index - 1 else cutoff_index)"

text \<open>The high key that a child page is expected to have.\<close>

definition get_expected_hikey :: "PageData \<Rightarrow> nat \<Rightarrow> IndexTupleData option" where
  "get_expected_hikey page offnum =
     (if offnum = PageGetMaxOffsetNumber page then
        if ABT_P_RIGHTMOST (pd_special page) then None else Some (PageGetItem page ABTP_HIKEY)
      else Some (PageGetItem page (offnum + 1)))"

definition hikey_cmpres :: "sampler \<Rightarrow> IndexTupleData option \<Rightarrow> PageData \<Rightarrow> int" where
  "hikey_cmpres sp expected_hikey page =
     (let piv = sp_inskey_pivot sp;
          inskey_hikey = (abt_mkscankey (sp_rel sp) (heapkeyspace piv) (allequalimage piv) expected_hikey)
            \<lparr>heapkeyspace := heapkeyspace piv, allequalimage := allequalimage piv, pivotsearch := True\<rparr>
      in if ABT_P_RIGHTMOST (pd_special page) then if expected_hikey = None then 0 else - 1
         else abt_compare (sp_rel sp) inskey_hikey page ABTP_HIKEY)"

definition done_sampling :: "sampler \<Rightarrow> BlockNumber \<Rightarrow> nat \<Rightarrow> nat \<Rightarrow> float8 \<Rightarrow> sample_result" where
  "done_sampling sp blkno offnum posting_off inv_prob =
     (let itemid = PageGetItemId (sp_store sp blkno) offnum; itup = pi_tup itemid;
          w = abt_atomic_read_agg_ptr (it_aggs itup ! (if ABTreeTupleIsPosting itup then posting_off else 0)) (sp_agg_info sp);
          inv_prob' = (if leaf_has_agg (sp_agg_info sp) then float8_div inv_prob (unat w) else inv_prob)
      in if sp_ignore_killed sp \<and> lp_dead itemid \<or> \<not> sp_checkkeys sp itup then Reject inv_prob'
         else Sample blkno offnum
                (if ABTreeTupleIsPosting itup then ABTreeTupleGetPostingN itup posting_off else t_tid itup) inv_prob')"

text \<open>The linear searches of the descent: the accumulated weight when nothing was found, otherwise the
  item found; for a downlink also its weight and the sum up to and including it.\<close>

fun scan_items :: "64 word \<Rightarrow> 64 word \<Rightarrow> nat \<Rightarrow> (64 word \<times> nat) list \<Rightarrow> 64 word + nat \<times> nat" where
  "scan_items cutoff acc offnum [] = Inl acc"
| "scan_items cutoff acc offnum ((agg, i) # items) =
     (if acc + agg > cutoff then Inr (offnum, i) else scan_items cutoff (acc + agg) offnum items)"

primrec scan_leaf :: "sampler \<Rightarrow> PageData \<Rightarrow> 64 word \<Rightarrow> 64 word \<Rightarrow> nat list \<Rightarrow> 64 word + nat \<times> nat" where
  "scan_leaf sp page cutoff acc [] = Inl acc"
| "scan_leaf sp page cutoff acc (offnum # offnums) =
     (case scan_items cutoff acc offnum (leaf_items sp (agg_map_val (sp_agg_info sp)) (PageGetItem page offnum)) of
        Inl acc' \<Rightarrow> scan_leaf sp page cutoff acc' offnums
      | Inr r \<Rightarrow> Inr r)"

primrec scan_internal :: "sampler \<Rightarrow> PageData \<Rightarrow> 64 word \<Rightarrow> 64 word \<Rightarrow> nat list \<Rightarrow> 64 word + nat \<times> 64 word \<times> 64 word" where
  "scan_internal sp page cutoff acc [] = Inl acc"
| "scan_internal sp page cutoff acc (offnum # offnums) =
     (let agg = read_agg sp (PageGetItem page offnum); acc' = acc + agg
      in if acc' > cutoff then Inr (offnum, agg, acc') else scan_internal sp page cutoff acc' offnums)"

definition data_offsets :: "PageData \<Rightarrow> nat list" where
  "data_offsets page = [ABT_P_FIRSTDATAKEY (pd_special page)..<PageGetMaxOffsetNumber page + 1]"

text \<open>The loop of the descent, from its head. The jumps to the label inside it come with a live page and
  its comparison result, which the head computes again.\<close>

partial_function (option) continue_descent ::
  "sampler \<Rightarrow> IndexTupleData option \<Rightarrow> 64 word \<Rightarrow> 64 word \<Rightarrow> float8 \<Rightarrow> BlockNumber \<Rightarrow> sample_result option" where
  "continue_descent sp expected_hikey cutoff acc inv_prob buf =
     Option.bind (abt_moveright_to_next_live_page (sp_store sp) buf) (\<lambda>r. case r of
       None \<Rightarrow> Some SampleError
     | Some buf \<Rightarrow>
         let page = sp_store sp buf; opaque = pd_special page; prev_cmpres = hikey_cmpres sp expected_hikey page
         in if prev_cmpres > 0 then Some (Reject inv_prob)
            else if ABT_P_ISLEAF opaque then
              (case scan_leaf sp page cutoff acc (data_offsets page) of
                 Inr (offnum, i) \<Rightarrow> Some (done_sampling sp buf offnum i inv_prob)
               | Inl acc' \<Rightarrow>
                   if prev_cmpres = 0 \<or> ABT_P_RIGHTMOST opaque then Some (Reject PlusInfinity)
                   else continue_descent sp expected_hikey cutoff acc' inv_prob (abtpo_next opaque))
            else
              (case scan_internal sp page cutoff acc (data_offsets page) of
                 Inr (offnum, agg, acc') \<Rightarrow>
                   continue_descent sp (get_expected_hikey page offnum) (cutoff - (acc' - agg)) 0 inv_prob
                     (ABTreeTupleGetDownLink (PageGetItem page offnum))
               | Inl acc' \<Rightarrow>
                   if prev_cmpres = 0 \<or> ABT_P_RIGHTMOST opaque then Some (Reject PlusInfinity)
                   else continue_descent sp expected_hikey cutoff acc' inv_prob (abtpo_next opaque)))"

text \<open>The range of matching entries on a page.\<close>

definition range_min :: "sampler \<Rightarrow> PageData \<Rightarrow> nat" where
  "range_min sp page =
     (case sp_low sp of Some key \<Rightarrow> abt_binsrch (sp_rel sp) key page | None \<Rightarrow> ABT_P_FIRSTDATAKEY (pd_special page))"

definition range_max :: "sampler \<Rightarrow> PageData \<Rightarrow> nat" where
  "range_max sp page =
     (case sp_high sp of
        Some key \<Rightarrow>
          let maxoff = abt_binsrch (sp_rel sp) key page
          in if ABT_P_ISLEAF (pd_special page) then maxoff - 1 else maxoff
      | None \<Rightarrow> PageGetMaxOffsetNumber page)"

text \<open>The choice among several entries of a page.\<close>

definition sample_prefix_sums :: "sampler \<Rightarrow> (nat \<Rightarrow> nat) \<Rightarrow> BlockNumber \<Rightarrow> nat \<Rightarrow> nat \<Rightarrow> sample_result option" where
  "sample_prefix_sums sp scale buf minoff maxoff =
     (let page = sp_store sp buf; leaf = ABT_P_ISLEAF (pd_special page);
          items = (if leaf then collect_leaf_items sp page minoff maxoff else collect_internal_items sp page minoff maxoff);
          num_items = length items;
          prefix_sums = running_sums 0 (map fst items);
          total = prefix_sums ! (num_items - 1);
          cutoff = scale_cutoff scale total
      in if num_items = 0 then Some (Reject PlusInfinity)
         else
           let uniform = leaf \<and> \<not> leaf_has_agg (sp_agg_info sp);
               cutoff_index = (if uniform then scale_index scale num_items
                               else cutoff_search prefix_sums cutoff 0 num_items);
               inv_prob = Number (if uniform then of_nat num_items else of_nat (unat total));
               item_index = snd (items ! cutoff_index);
               offnum = unat (ABT_ITEMINDEX_GET_OFFSET item_index)
           in if leaf
              then Some (done_sampling sp buf offnum (unat (ABT_ITEMINDEX_GET_POSTING_OFF item_index)) inv_prob)
              else continue_descent sp (get_expected_hikey page offnum)
                     (if cutoff_index \<noteq> 0 then cutoff - prefix_sums ! (cutoff_index - 1) else cutoff) 0 inv_prob
                     (ABTreeTupleGetDownLink (PageGetItem page offnum)))"

text \<open>The only matching entry of a leaf page, when no prefix sums are needed.\<close>

definition sample_single_leaf :: "sampler \<Rightarrow> (nat \<Rightarrow> nat) \<Rightarrow> BlockNumber \<Rightarrow> nat \<Rightarrow> sample_result" where
  "sample_single_leaf sp scale buf minoff =
     (let itup = PageGetItem (sp_store sp buf) minoff; ai = sp_agg_info sp
      in if ABTreeTupleIsPosting itup then
           let n = ABTreeTupleGetNPosting itup; cutoff_index = scale_index scale n
           in if in_snapshot sp (it_xmins itup ! cutoff_index) then Reject (Number (of_nat n))
              else done_sampling sp buf minoff cutoff_index (Number (of_nat n))
         else
           let inv_prob = (if leaf_has_agg ai then Number (of_nat (unat (abt_atomic_read_agg_ptr (it_aggs itup ! 0) ai)))
                           else Number 1)
           in if in_snapshot sp (it_xmins itup ! 0) then Reject inv_prob
              else done_sampling sp buf minoff 0 inv_prob)"

partial_function (option) quick_descend_path :: "sampler \<Rightarrow> (nat \<Rightarrow> nat) \<Rightarrow> BlockNumber \<Rightarrow> sample_result option" where
  "quick_descend_path sp scale buf =
     (let page = sp_store sp buf; opaque = pd_special page;
          minoff = range_min sp page; maxoff = range_max sp page;
          itup = PageGetItem page minoff
      in if minoff > maxoff then Some (Reject PlusInfinity)
         else if minoff = maxoff \<and> ABT_P_ISLEAF opaque
           \<and> \<not> (ABTreeTupleIsPosting itup \<and> leaf_has_agg (sp_agg_info sp)) then
           Some (sample_single_leaf sp scale buf minoff)
         else if minoff = maxoff \<and> \<not> ABT_P_ISLEAF opaque then
           let agg = read_agg sp itup; cutoff = scale_cutoff scale agg; inv_prob = Number (of_nat (unat agg));
               expected_hikey = get_expected_hikey page minoff
           in Option.bind (abt_moveright_to_next_live_page (sp_store sp) (ABTreeTupleGetDownLink itup)) (\<lambda>r. case r of
                None \<Rightarrow> Some SampleError
              | Some cbuf \<Rightarrow>
                  if hikey_cmpres sp expected_hikey (sp_store sp cbuf) = 0
                     \<or> ABT_P_RIGHTMOST (pd_special (sp_store sp cbuf))
                  then quick_descend_path sp scale cbuf
                  else continue_descent sp expected_hikey cutoff 0 inv_prob cbuf)
         else sample_prefix_sums sp scale buf minoff maxoff)"

text \<open>\<open>rootbuf\<close> is the page that \<^verbatim>\<open>_abt_getroot\<close> returns, if any.\<close>

definition abt_sample :: "sampler \<Rightarrow> bool \<Rightarrow> (nat \<Rightarrow> nat) \<Rightarrow> BlockNumber option \<Rightarrow> sample_result option" where
  "abt_sample sp qual_ok scale rootbuf =
     (if \<not> qual_ok then Some (Reject PlusInfinity)
      else case rootbuf of None \<Rightarrow> Some (Reject PlusInfinity) | Some buf \<Rightarrow> quick_descend_path sp scale buf)"

text \<open>The total weight; \<open>None\<close> stands for retrying for ever, \<open>Some None\<close> for the release of an invalid buffer.\<close>

fun items_weight :: "(64 word \<times> 'x) list \<Rightarrow> nat" where
  "items_weight [] = 0"
| "items_weight ((w, _) # items) = unat w + items_weight items"

definition leaf_weight :: "sampler \<Rightarrow> IndexTupleData \<Rightarrow> nat" where
  "leaf_weight sp itup = items_weight (leaf_items sp 1 itup)"

partial_function (option) total_weight_from :: "sampler \<Rightarrow> BlockNumber \<Rightarrow> BlockNumber \<Rightarrow> nat option option" where
  "total_weight_from sp rootbuf buf =
     (let page = sp_store sp buf; opaque = pd_special page;
          minoff = range_min sp page; maxoff = range_max sp page;
          itup = PageGetItem page minoff; ai = sp_agg_info sp
      in if minoff > maxoff then Some (Some 0)
         else if minoff = maxoff \<and> ABT_P_ISLEAF opaque
           \<and> \<not> (ABTreeTupleIsPosting itup \<and> leaf_has_agg ai) then
           Some (Some (if ABTreeTupleIsPosting itup then ABTreeTupleGetNPosting itup
                       else if leaf_has_agg ai then unat (abt_atomic_read_agg_ptr (it_aggs itup ! 0) ai)
                       else 1))
         else if minoff = maxoff \<and> \<not> ABT_P_ISLEAF opaque then
           Option.bind (abt_moveright_to_next_live_page (sp_store sp) (ABTreeTupleGetDownLink itup)) (\<lambda>r. case r of
             None \<Rightarrow> Some None
           | Some cbuf \<Rightarrow>
               if hikey_cmpres sp (get_expected_hikey page minoff) (sp_store sp cbuf) = 0
                  \<or> ABT_P_RIGHTMOST (pd_special (sp_store sp cbuf))
               then total_weight_from sp rootbuf cbuf
               else total_weight_from sp rootbuf rootbuf)
         else
           Some (Some (sum_list (map (\<lambda>offnum.
                   if ABT_P_ISLEAF opaque then leaf_weight sp (PageGetItem page offnum)
                   else unat (read_agg sp (PageGetItem page offnum))) [minoff..<maxoff + 1]))))"

definition abt_total_weight :: "sampler \<Rightarrow> bool \<Rightarrow> BlockNumber option \<Rightarrow> nat option option" where
  "abt_total_weight sp qual_ok rootbuf =
     (if \<not> qual_ok then Some (Some 0)
      else case rootbuf of None \<Rightarrow> Some (Some 0) | Some buf \<Rightarrow> total_weight_from sp buf buf)"

section \<open>Weighted choice\<close>

lemma items_weight_append [simp]: "items_weight (xs @ ys) = items_weight xs + items_weight ys"
  by (induction xs rule: items_weight.induct) auto

lemma items_weight_label [simp]: "items_weight (map (\<lambda>(w, i). (w, f i)) items) = items_weight items"
  by (induction items rule: items_weight.induct) auto

fun pick :: "nat \<Rightarrow> (64 word \<times> 'x) list \<Rightarrow> 'x option" where
  "pick c [] = None"
| "pick c ((w, x) # items) = (if c < unat w then Some x else pick (c - unat w) items)"

lemma pick_append: "pick c (xs @ ys) = (if c < items_weight xs then pick c xs else pick (c - items_weight xs) ys)"
  by (induction c xs rule: pick.induct) (auto simp: diff_diff_add)

lemma pick_some: "c < items_weight items \<Longrightarrow> \<exists>x. pick c items = Some x"
  by (induction c items rule: pick.induct) auto

lemma pick_none: "items_weight items \<le> c \<Longrightarrow> pick c items = None"
  by (induction c items rule: pick.induct) auto

lemma pick_lt: "pick c items = Some x \<Longrightarrow> c < items_weight items"
  by (rule ccontr) (simp add: pick_none)

lemma pick_mem: "pick c items = Some x \<Longrightarrow> \<exists>w. (w, x) \<in> set items"
  by (induction c items rule: pick.induct) (auto split: if_splits)

text \<open>Each item is chosen by as many cutoffs as its weight.\<close>

lemma pick_count:
  "card {c. c < items_weight items \<and> pick c items = Some x} = items_weight (filter (\<lambda>(_, y). y = x) items)"
proof (induction items)
  case (Cons p items)
  obtain w y where p: "p = (w, y)" by fastforce
  let ?A = "{c. c < unat w \<and> y = x}" and ?B = "{c. c < items_weight items \<and> pick c items = Some x}"
  have "{c. c < items_weight (p # items) \<and> pick c (p # items) = Some x} = ?A \<union> (\<lambda>c. c + unat w) ` ?B"
    by (force simp: p image_iff not_less intro: exI [of _ "_ - unat w"])
  moreover have "?A \<inter> (\<lambda>c. c + unat w) ` ?B = {}" by auto
  moreover have "finite ?A" "finite ?B" by auto
  moreover have "card ((\<lambda>c. c + unat w) ` ?B) = card ?B" by (rule card_image) (simp add: inj_on_def)
  moreover have "card ?A = (if y = x then unat w else 0)" by simp
  ultimately show ?case using Cons.IH by (simp add: card_Un_disjoint p)
qed simp

section \<open>The linear searches\<close>

type_synonym leaf_pos = "BlockNumber \<times> nat \<times> nat"

definition page_items :: "sampler \<Rightarrow> BlockNumber \<Rightarrow> nat list \<Rightarrow> (64 word \<times> leaf_pos) list" where
  "page_items sp b offs =
     concat (map (\<lambda>off. map (\<lambda>(w, i). (w, b, off, i))
       (leaf_items sp (agg_map_val (sp_agg_info sp)) (PageGetItem (sp_store sp b) off))) offs)"

lemma pick_label: "pick c (map (\<lambda>(w, i). (w, f i)) items) = map_option f (pick c items)"
  by (induction c items rule: pick.induct) auto

lemma word_less_add_iff:
  fixes acc agg cutoff :: "64 word"
  assumes "acc \<le> cutoff" "unat acc + unat agg < 2 ^ 64"
  shows "cutoff < acc + agg \<longleftrightarrow> unat cutoff - unat acc < unat agg" "unat (acc + agg) = unat acc + unat agg"
proof -
  show u: "unat (acc + agg) = unat acc + unat agg" using assms(2) by (simp add: unat_word_ariths)
  have "unat acc \<le> unat cutoff" using assms(1) by (simp add: word_le_nat_alt)
  then show "cutoff < acc + agg \<longleftrightarrow> unat cutoff - unat acc < unat agg" by (auto simp: word_less_nat_alt u)
qed

lemma scan_items_pick:
  assumes "acc \<le> cutoff" "unat acc + items_weight items < 2 ^ 64"
  shows "scan_items cutoff acc off items =
    (case pick (unat cutoff - unat acc) items of Some i \<Rightarrow> Inr (off, i) | None \<Rightarrow> Inl (acc + of_nat (items_weight items)))
    \<and> (pick (unat cutoff - unat acc) items = None \<longrightarrow> acc + of_nat (items_weight items) \<le> cutoff
         \<and> unat (acc + of_nat (items_weight items)) = unat acc + items_weight items)"
  using assms
proof (induction items arbitrary: acc)
  case (Cons p items)
  obtain agg i where p: "p = (agg, i)" by fastforce
  have b: "unat acc + unat agg < 2 ^ 64" using Cons.prems(2) by (simp add: p)
  note W = word_less_add_iff [OF Cons.prems(1) b]
  show ?case
  proof (cases "cutoff < acc + agg")
    case True
    then show ?thesis using W by (simp add: p)
  next
    case False
    then have le: "acc + agg \<le> cutoff" by simp
    have lt: "unat (acc + agg) + items_weight items < 2 ^ 64" using Cons.prems(2) W(2) by (simp add: p)
    have d: "unat cutoff - unat (acc + agg) = unat cutoff - unat acc - unat agg" using W(2) by simp
    show ?thesis
      using Cons.IH [OF le lt] False W unfolding d by (simp add: p add.assoc split: option.split)
  qed
qed simp

lemma scan_leaf_pick:
  assumes "acc \<le> cutoff" "unat acc + items_weight (page_items sp b offs) < 2 ^ 64"
  shows "scan_leaf sp (sp_store sp b) cutoff acc offs =
    (case pick (unat cutoff - unat acc) (page_items sp b offs) of Some (_, off, i) \<Rightarrow> Inr (off, i)
     | None \<Rightarrow> Inl (acc + of_nat (items_weight (page_items sp b offs))))"
  using assms
proof (induction offs arbitrary: acc)
  case (Cons off offs)
  let ?li = "leaf_items sp (agg_map_val (sp_agg_info sp)) (PageGetItem (sp_store sp b) off)"
  let ?lab = "map (\<lambda>(w, i). (w, b, off, i)) ?li"
  have pg: "page_items sp b (off # offs) = ?lab @ page_items sp b offs" by (simp add: page_items_def)
  note lab = pick_label [where f = "\<lambda>i. (b, off, i)"]
  have lt: "unat acc + items_weight ?li < 2 ^ 64" using Cons.prems(2) by (simp add: pg)
  note S = scan_items_pick [OF Cons.prems(1) lt, of off]
  show ?case
  proof (cases "pick (unat cutoff - unat acc) ?li")
    case None
    then have s: "scan_items cutoff acc off ?li = Inl (acc + of_nat (items_weight ?li))"
      and le: "acc + of_nat (items_weight ?li) \<le> cutoff"
      and u: "unat (acc + of_nat (items_weight ?li)) = unat acc + items_weight ?li" using S by simp_all
    have nl: "\<not> unat cutoff - unat acc < items_weight ?li" using pick_some None by fastforce
    have "unat (acc + of_nat (items_weight ?li)) + items_weight (page_items sp b offs) < 2 ^ 64"
      using Cons.prems(2) u by (simp add: pg)
    from Cons.IH [OF le this] show ?thesis
      using s nl u by (simp add: pg pick_append add.assoc diff_diff_add split: option.split)
  next
    case (Some i)
    then have "unat cutoff - unat acc < items_weight ?li" by (rule pick_lt)
    then show ?thesis using S Some by (simp add: pg pick_append lab)
  qed
qed (simp add: page_items_def)

section \<open>Descending along the aggregates\<close>

text \<open>The visible items below a page of level \<open>l\<close>, in key order.\<close>

primrec subtree_items :: "sampler \<Rightarrow> nat \<Rightarrow> BlockNumber \<Rightarrow> (64 word \<times> leaf_pos) list" where
  "subtree_items sp 0 b = page_items sp b (data_offsets (sp_store sp b))"
| "subtree_items sp (Suc l) b =
     concat (map (\<lambda>off. subtree_items sp l (ABTreeTupleGetDownLink (PageGetItem (sp_store sp b) off)))
       (data_offsets (sp_store sp b)))"

text \<open>Nothing changes below the page: every page is live and has the high key its parent expects, and
  every downlink reads as the weight of the visible items below it.\<close>

primrec quiescent :: "sampler \<Rightarrow> nat \<Rightarrow> IndexTupleData option \<Rightarrow> BlockNumber \<Rightarrow> bool" where
  "quiescent sp 0 expected b =
     (\<not> ABT_P_IGNORE (pd_special (sp_store sp b)) \<and> ABT_P_ISLEAF (pd_special (sp_store sp b))
      \<and> hikey_cmpres sp expected (sp_store sp b) = 0 \<and> items_weight (subtree_items sp 0 b) < 2 ^ 64)"
| "quiescent sp (Suc l) expected b =
     (\<not> ABT_P_IGNORE (pd_special (sp_store sp b)) \<and> \<not> ABT_P_ISLEAF (pd_special (sp_store sp b))
      \<and> hikey_cmpres sp expected (sp_store sp b) = 0 \<and> items_weight (subtree_items sp (Suc l) b) < 2 ^ 64
      \<and> list_all (\<lambda>off. let t = PageGetItem (sp_store sp b) off; c = ABTreeTupleGetDownLink t in
           unat (read_agg sp t) = items_weight (subtree_items sp l c)
           \<and> quiescent sp l (get_expected_hikey (sp_store sp b) off) c) (data_offsets (sp_store sp b)))"

definition downlink_items :: "sampler \<Rightarrow> nat \<Rightarrow> PageData \<Rightarrow> nat list \<Rightarrow> (64 word \<times> leaf_pos) list" where
  "downlink_items sp l page offs = concat (map (\<lambda>off. subtree_items sp l (ABTreeTupleGetDownLink (PageGetItem page off))) offs)"

definition weights_read :: "sampler \<Rightarrow> nat \<Rightarrow> PageData \<Rightarrow> nat list \<Rightarrow> bool" where
  "weights_read sp l page offs =
     list_all (\<lambda>off. unat (read_agg sp (PageGetItem page off))
       = items_weight (subtree_items sp l (ABTreeTupleGetDownLink (PageGetItem page off)))) offs"

lemma scan_internal_pick:
  assumes "acc \<le> cutoff" "unat acc + items_weight (downlink_items sp l page offs) < 2 ^ 64"
    and "weights_read sp l page offs"
    and "unat cutoff - unat acc < items_weight (downlink_items sp l page offs)"
  shows "\<exists>off\<in>set offs. \<exists>acc'. scan_internal sp page cutoff acc offs = Inr (off, read_agg sp (PageGetItem page off), acc')
    \<and> unat (cutoff - (acc' - read_agg sp (PageGetItem page off)))
        < items_weight (subtree_items sp l (ABTreeTupleGetDownLink (PageGetItem page off)))
    \<and> pick (unat cutoff - unat acc) (downlink_items sp l page offs)
        = pick (unat (cutoff - (acc' - read_agg sp (PageGetItem page off))))
            (subtree_items sp l (ABTreeTupleGetDownLink (PageGetItem page off)))"
  using assms
proof (induction offs arbitrary: acc)
  case (Cons off offs)
  define w where "w = read_agg sp (PageGetItem page off)"
  define ch where "ch = subtree_items sp l (ABTreeTupleGetDownLink (PageGetItem page off))"
  have w: "unat w = items_weight ch" using Cons.prems(3) by (simp add: weights_read_def w_def ch_def)
  have dl: "downlink_items sp l page (off # offs) = ch @ downlink_items sp l page offs" by (simp add: downlink_items_def ch_def)
  have b: "unat acc + unat w < 2 ^ 64" using Cons.prems(2) w by (simp add: dl)
  note W = word_less_add_iff [OF Cons.prems(1) b]
  show ?case
  proof (cases "cutoff < acc + w")
    case True
    have "unat (cutoff - (acc + w - w)) = unat cutoff - unat acc"
      using Cons.prems(1) by (simp add: unat_sub)
    then show ?thesis
      using True W(1) w by (intro bexI [of _ off] exI [of _ "acc + w"]) (simp_all add: dl pick_append w_def [symmetric] ch_def [symmetric] Let_def)
  next
    case False
    then have le: "acc + w \<le> cutoff" by simp
    have d: "unat cutoff - unat (acc + w) = unat cutoff - unat acc - items_weight ch" using W(2) w by simp
    have nl: "\<not> unat cutoff - unat acc < items_weight ch" using False W(1) w by simp
    have "unat (acc + w) + items_weight (downlink_items sp l page offs) < 2 ^ 64" using Cons.prems(2) W(2) w by (simp add: dl)
    moreover have "weights_read sp l page offs" using Cons.prems(3) by (simp add: weights_read_def)
    moreover have "unat cutoff - unat (acc + w) < items_weight (downlink_items sp l page offs)"
      using Cons.prems(4) nl d by (simp add: dl)
    ultimately show ?thesis
      using Cons.IH [OF le] False nl unfolding d by (auto simp: dl pick_append w_def Let_def)
  qed
qed (simp add: downlink_items_def)

lemma moveright_live [simp]: "\<not> ABT_P_IGNORE (pd_special (store b)) \<Longrightarrow> abt_moveright_to_next_live_page store b = Some (Some b)"
  by (subst abt_moveright_to_next_live_page.simps) simp

lemma continue_descent_pick:
  assumes "quiescent sp l expected b" "unat cutoff < items_weight (subtree_items sp l b)"
  shows "continue_descent sp expected cutoff 0 ip b =
    (case pick (unat cutoff) (subtree_items sp l b) of Some (blk, off, i) \<Rightarrow> Some (done_sampling sp blk off i ip) | None \<Rightarrow> None)"
  using assms
proof (induction l arbitrary: expected b cutoff)
  case 0
  let ?items = "page_items sp b (data_offsets (sp_store sp b))"
  obtain x where x: "pick (unat cutoff) ?items = Some x" using pick_some 0(2) by fastforce
  obtain blk off i where pos: "x = (blk, off, i)" by (cases x)
  have "blk = b" using x unfolding pos
    by (auto simp: page_items_def dest!: pick_mem)
  have "scan_leaf sp (sp_store sp b) cutoff 0 (data_offsets (sp_store sp b)) = Inr (off, i)"
    using scan_leaf_pick [of 0 cutoff sp b "data_offsets (sp_store sp b)"] 0(1) x by (simp add: pos)
  then show ?case
    using 0(1) x \<open>blk = b\<close> by (subst continue_descent.simps) (simp add: Let_def pos)
next
  case (Suc l)
  let ?page = "sp_store sp b"
  have q: "weights_read sp l ?page (data_offsets ?page)" "items_weight (downlink_items sp l ?page (data_offsets ?page)) < 2 ^ 64"
    using Suc.prems(1) by (simp_all add: weights_read_def downlink_items_def list_all_iff Let_def)
  have eq: "subtree_items sp (Suc l) b = downlink_items sp l ?page (data_offsets ?page)" by (simp add: downlink_items_def)
  obtain off acc' where off: "off \<in> set (data_offsets ?page)"
    "scan_internal sp ?page cutoff 0 (data_offsets ?page) = Inr (off, read_agg sp (PageGetItem ?page off), acc')"
    and c: "unat (cutoff - (acc' - read_agg sp (PageGetItem ?page off)))
        < items_weight (subtree_items sp l (ABTreeTupleGetDownLink (PageGetItem ?page off)))"
    and p: "pick (unat cutoff) (subtree_items sp (Suc l) b)
        = pick (unat (cutoff - (acc' - read_agg sp (PageGetItem ?page off))))
            (subtree_items sp l (ABTreeTupleGetDownLink (PageGetItem ?page off)))"
    using scan_internal_pick [of 0 cutoff sp l ?page "data_offsets ?page"] q Suc.prems(2) unfolding eq by auto
  have "quiescent sp l (get_expected_hikey ?page off) (ABTreeTupleGetDownLink (PageGetItem ?page off))"
    using Suc.prems(1) off(1) by (simp add: list_all_iff Let_def)
  from Suc.IH [OF this c] p show ?case
    using Suc.prems(1) off(2) by (subst continue_descent.simps) (simp add: Let_def)
qed

section \<open>Prefix sums\<close>

lemma running_sums_length [simp]: "length (running_sums acc ws) = length ws"
  by (induction ws arbitrary: acc) simp_all

lemma running_sums_nth:
  "k < length items \<Longrightarrow> unat acc + items_weight items < 2 ^ 64
     \<Longrightarrow> unat (running_sums acc (map fst items) ! k) = unat acc + items_weight (take (Suc k) items)"
proof (induction items arbitrary: acc k)
  case (Cons p items)
  obtain w x where p: "p = (w, x)" by fastforce
  have u: "unat (acc + w) = unat acc + unat w" using Cons.prems(2) by (simp add: p unat_word_ariths)
  show ?case
  proof (cases k)
    case (Suc j)
    have "unat (running_sums (acc + w) (map fst items) ! j) = unat (acc + w) + items_weight (take (Suc j) items)"
      by (rule Cons.IH) (use Cons.prems Suc u in \<open>simp_all add: p\<close>)
    then show ?thesis by (simp add: p Suc u)
  qed (simp add: p u)
qed simp

lemma items_weight_take_mono: "i \<le> j \<Longrightarrow> items_weight (take i items) \<le> items_weight (take j items)"
proof -
  assume "i \<le> j"
  then have "take j items = take i items @ take (j - i) (drop i items)" by (metis le_add_diff_inverse take_add)
  then show ?thesis by simp
qed

lemma cutoff_search_split:
  assumes "low \<le> high" "\<And>i j. low \<le> i \<Longrightarrow> i < j \<Longrightarrow> j < high \<Longrightarrow> cutoff < ps ! i \<Longrightarrow> cutoff < ps ! j"
  shows "low \<le> cutoff_search ps cutoff low high \<and> cutoff_search ps cutoff low high \<le> high
    \<and> (\<forall>i\<in>{low..<cutoff_search ps cutoff low high}. ps ! i \<le> cutoff)
    \<and> (\<forall>i\<in>{cutoff_search ps cutoff low high..<high}. cutoff < ps ! i)"
  using assms
proof (induction ps cutoff low high rule: cutoff_search.induct)
  case (1 ps cutoff low high)
  define mid where "mid = (low + high) div 2"
  consider "\<not> low < high" | "low < high" "cutoff < ps ! mid" | "low < high" "\<not> cutoff < ps ! mid" by blast
  then show ?case
  proof cases
    case 1
    then show ?thesis using \<open>low \<le> high\<close> by (simp add: cutoff_search.simps)
  next
    case 2
    then have m: "low \<le> mid" "mid < high" by (auto simp: mid_def)
    let ?r = "cutoff_search ps cutoff low mid"
    have e: "cutoff_search ps cutoff low high = ?r" using 2 by (subst cutoff_search.simps) (simp add: Let_def mid_def)
    have "low \<le> ?r \<and> ?r \<le> mid \<and> (\<forall>i\<in>{low..<?r}. ps ! i \<le> cutoff) \<and> (\<forall>i\<in>{?r..<mid}. cutoff < ps ! i)"
      by (rule 1(1) [OF 2(1) mid_def 2(2)]) (use m "1.prems"(2) in auto)
    moreover have "cutoff < ps ! i" if "mid \<le> i" "i < high" for i
      using "1.prems"(2) [OF m(1), of i] that 2(2) by (cases "i = mid") auto
    ultimately show ?thesis unfolding e using m by (auto simp: not_less)
  next
    case 3
    then have m: "low \<le> mid" "mid < high" by (auto simp: mid_def)
    let ?r = "cutoff_search ps cutoff (mid + 1) high"
    have e: "cutoff_search ps cutoff low high = ?r" using 3 by (subst cutoff_search.simps) (simp add: Let_def mid_def)
    have "mid + 1 \<le> ?r \<and> ?r \<le> high \<and> (\<forall>i\<in>{mid + 1..<?r}. ps ! i \<le> cutoff) \<and> (\<forall>i\<in>{?r..<high}. cutoff < ps ! i)"
    proof (rule 1(2) [OF 3(1) mid_def 3(2)])
      show "cutoff < ps ! j" if "mid + 1 \<le> i" "i < j" "j < high" "cutoff < ps ! i" for i j
        using "1.prems"(2) [of i j] that m by simp
    qed (use m in simp)
    moreover have "ps ! i \<le> cutoff" if "low \<le> i" "i \<le> mid" for i
    proof (rule ccontr)
      assume n: "\<not> ps ! i \<le> cutoff"
      then have "i < mid" using that(2) 3(2) by (cases "i = mid") auto
      then show False using "1.prems"(2) [OF that(1) _ m(2)] n 3(2) by (simp add: not_le)
    qed
    ultimately show ?thesis unfolding e using m by (auto simp: not_less_eq_eq)
  qed
qed

lemma cutoff_search_index:
  assumes "unat cutoff < items_weight items" "items_weight items < 2 ^ 64"
    and k: "k = cutoff_search (running_sums 0 (map fst items)) cutoff 0 (length items)"
  shows "k < length items" "items_weight (take k items) \<le> unat cutoff" "unat cutoff < items_weight (take (Suc k) items)"
proof -
  let ?ps = "running_sums 0 (map fst items)"
  have nth: "unat (?ps ! i) = items_weight (take (Suc i) items)" if "i < length items" for i
    using running_sums_nth [OF that, of 0] assms(2) by simp
  have mono: "cutoff < ?ps ! j" if "i < j" "j < length items" "cutoff < ?ps ! i" for i j
    using nth [of i] nth [of j] that items_weight_take_mono [of "Suc i" "Suc j" items] by (simp add: word_less_nat_alt)
  have S: "k \<le> length items" "\<And>i. i < k \<Longrightarrow> ?ps ! i \<le> cutoff" "\<And>i. k \<le> i \<Longrightarrow> i < length items \<Longrightarrow> cutoff < ?ps ! i"
    using cutoff_search_split [of 0 "length items" cutoff ?ps, OF _ mono] unfolding k by auto
  have ne: "items \<noteq> []" using assms(1) by auto
  show kl: "k < length items"
  proof (rule ccontr)
    assume "\<not> k < length items"
    then have "?ps ! (length items - 1) \<le> cutoff" using S(1) S(2) [of "length items - 1"] ne by simp
    then have "items_weight (take (Suc (length items - 1)) items) \<le> unat cutoff"
      using nth [of "length items - 1"] ne by (simp add: word_le_nat_alt)
    then show False using assms(1) ne by simp
  qed
  show "unat cutoff < items_weight (take (Suc k) items)" using S(3) [OF order_refl kl] nth [OF kl] by (simp add: word_less_nat_alt)
  show "items_weight (take k items) \<le> unat cutoff"
  proof (cases k)
    case (Suc j)
    then show ?thesis using S(2) [of j] kl nth [of j] by (simp add: word_le_nat_alt)
  qed simp
qed

text \<open>The choice together with what remains of the cutoff.\<close>

fun pick_rem :: "nat \<Rightarrow> (64 word \<times> 'x) list \<Rightarrow> ('x \<times> nat) option" where
  "pick_rem c [] = None"
| "pick_rem c ((w, x) # items) = (if c < unat w then Some (x, c) else pick_rem (c - unat w) items)"

lemma pick_rem_nonzero: "pick_rem c (filter (\<lambda>(w, _). w \<noteq> 0) items) = pick_rem c items"
  by (induction c items rule: pick_rem.induct) auto

lemma pick_rem_index:
  "k < length items \<Longrightarrow> items_weight (take k items) \<le> c \<Longrightarrow> c < items_weight (take (Suc k) items)
     \<Longrightarrow> pick_rem c items = Some (snd (items ! k), c - items_weight (take k items))"
proof (induction items arbitrary: k c)
  case (Cons p items)
  obtain w x where p: "p = (w, x)" by fastforce
  show ?case
  proof (cases k)
    case (Suc j)
    have "pick_rem (c - unat w) items = Some (snd (items ! j), c - unat w - items_weight (take j items))"
      by (rule Cons.IH) (use Cons.prems Suc in \<open>auto simp: p\<close>)
    then show ?thesis using Cons.prems Suc by (simp add: p)
  qed (use Cons.prems in \<open>simp add: p\<close>)
qed simp

lemma pick_rem_blocks:
  assumes "\<And>x. x \<in> set xs \<Longrightarrow> unat (f x) = items_weight (block x)" "c < items_weight (concat (map block xs))"
  shows "\<exists>x\<in>set xs. \<exists>r. pick_rem c (map (\<lambda>x. (f x, x)) xs) = Some (x, r) \<and> r < items_weight (block x)
    \<and> pick c (concat (map block xs)) = pick r (block x)"
  using assms
proof (induction xs arbitrary: c)
  case (Cons x xs)
  show ?case
  proof (cases "c < items_weight (block x)")
    case True
    then show ?thesis using Cons.prems(1) [of x] by (simp add: pick_append)
  next
    case False
    then have "c - items_weight (block x) < items_weight (concat (map block xs))" using Cons.prems(2) by simp
    from Cons.IH [OF _ this] Cons.prems(1) False show ?thesis by (auto simp: pick_append)
  qed
qed simp

lemma items_weight_nonzero: "items_weight (filter (\<lambda>(w, _). w \<noteq> 0) items) = items_weight items"
  by (induction items rule: items_weight.induct) auto

lemma items_weight_blocks:
  "(\<And>x. x \<in> set xs \<Longrightarrow> unat (f x) = items_weight (block x))
     \<Longrightarrow> items_weight (map (\<lambda>x. (f x, x)) xs) = items_weight (concat (map block xs))"
  by (induction xs) simp_all

section \<open>A whole draw\<close>

lemma scale_cutoff_lt:
  assumes "scale W \<le> W" "0 < W" "W < 2 ^ 64"
  shows "unat (scale_cutoff scale (of_nat W)) = (if scale W = W then W - 1 else scale W)"
proof -
  have u: "unat (of_nat W :: 64 word) = W" "unat (of_nat (scale W) :: 64 word) = scale W"
    using assms by (simp_all add: unat_of_nat_small)
  have "of_nat (scale W) = (of_nat W :: 64 word) \<longleftrightarrow> scale W = W" using u by metis
  moreover have "unat (of_nat W - 1 :: 64 word) = W - 1"
    using u(1) assms(2) by (subst unat_sub) (auto simp: word_le_nat_alt)
  ultimately show ?thesis using u by (simp add: scale_cutoff_def Let_def)
qed

lemma itemindex_offset: "off < 2 ^ 16 \<Longrightarrow> unat (ABT_ITEMINDEX_GET_OFFSET (ABT_OFFSET_GET_ITEMINDEX (of_nat off))) = off"
  by (simp add: itemindex_offset_roundtrip unsigned_ucast_eq unat_of_nat_small take_bit_nat_eq_self)

definition children_quiescent :: "sampler \<Rightarrow> nat \<Rightarrow> PageData \<Rightarrow> nat list \<Rightarrow> bool" where
  "children_quiescent sp l page offs =
     list_all (\<lambda>off. quiescent sp l (get_expected_hikey page off) (ABTreeTupleGetDownLink (PageGetItem page off))) offs"

lemma sample_prefix_sums_pick:
  assumes leaf: "\<not> ABT_P_ISLEAF (pd_special page)" and page: "page = sp_store sp b"
    and offs: "offs = [minoff..<maxoff + 1]" "maxoff < 2 ^ 16"
    and wr: "weights_read sp l page offs" and cq: "children_quiescent sp l page offs"
    and W: "W = items_weight (downlink_items sp l page offs)" "0 < W" "W < 2 ^ 64"
    and scale: "scale W \<le> W" and c: "c = (if scale W = W then W - 1 else scale W)"
  shows "sample_prefix_sums sp scale b minoff maxoff =
    (case pick c (downlink_items sp l page offs) of
       Some (blk, off, i) \<Rightarrow> Some (done_sampling sp blk off i (Number (of_nat W))) | None \<Rightarrow> None)"
proof -
  let ?agg = "\<lambda>off. read_agg sp (PageGetItem page off)"
  let ?child = "\<lambda>off. ABTreeTupleGetDownLink (PageGetItem page off)"
  define F where "F = filter (\<lambda>(w, _). w \<noteq> 0) (map (\<lambda>off. (?agg off, off)) offs)"
  define items where "items = collect_internal_items sp page minoff maxoff"
  have items: "items = map (\<lambda>(w, off). (w, ABT_OFFSET_GET_ITEMINDEX (of_nat off))) F"
    unfolding items_def collect_internal_items_def F_def offs(1) [symmetric] filter_map by (simp add: comp_def case_prod_beta)
  have wr': "unat (?agg off) = items_weight (subtree_items sp l (?child off))" if "off \<in> set offs" for off
    using wr that by (simp add: weights_read_def list_all_iff)
  have FW: "items_weight F = W"
    unfolding F_def items_weight_nonzero W downlink_items_def by (rule items_weight_blocks) (rule wr')
  have IW: "items_weight items = W" unfolding items using FW items_weight_label [of "\<lambda>off. ABT_OFFSET_GET_ITEMINDEX (of_nat off)" F] by simp
  have len: "length items = length F" by (simp add: items)
  have ne: "items \<noteq> []" using IW W(2) by auto
  define ps where "ps = running_sums 0 (map fst items)"
  have total: "ps ! (length items - 1) = of_nat W"
  proof -
    have "unat (ps ! (length items - 1)) = W"
      using running_sums_nth [of "length items - 1" items 0] IW W(3) ne by (simp add: ps_def)
    then show ?thesis by (metis of_nat_unat ucast_id)
  qed
  define cutoff where "cutoff = scale_cutoff scale (of_nat W)"
  have uc: "unat cutoff = c" unfolding cutoff_def c by (rule scale_cutoff_lt) (use scale W in simp_all)
  have cW: "c < W" using c scale W(2) by auto
  define k where "k = cutoff_search ps cutoff 0 (length items)"
  note K = cutoff_search_index [of cutoff items k, OF _ _ k_def [unfolded ps_def]]
  have k: "k < length items" "items_weight (take k items) \<le> c" "c < items_weight (take (Suc k) items)"
    using K uc cW IW W(3) by simp_all
  have takeF: "items_weight (take n items) = items_weight (take n F)" for n
    unfolding items take_map by (rule items_weight_label)
  have pr: "pick_rem c F = Some (snd (F ! k), c - items_weight (take k F))"
    by (rule pick_rem_index) (use k len takeF in simp_all)
  define off where "off = snd (F ! k)"
  define r where "r = c - items_weight (take k F)"
  have "\<exists>x\<in>set offs. \<exists>r. pick_rem c (map (\<lambda>x. (?agg x, x)) offs) = Some (x, r)
      \<and> r < items_weight (subtree_items sp l (?child x))
      \<and> pick c (downlink_items sp l page offs) = pick r (subtree_items sp l (?child x))"
    unfolding downlink_items_def by (rule pick_rem_blocks) (use wr' cW W in \<open>simp_all add: downlink_items_def\<close>)
  then have off: "off \<in> set offs" and r: "r < items_weight (subtree_items sp l (?child off))"
    and p: "pick c (downlink_items sp l page offs) = pick r (subtree_items sp l (?child off))"
    using pr pick_rem_nonzero [of c "map (\<lambda>off. (?agg off, off)) offs"] unfolding F_def off_def r_def by auto
  have idx: "unat (ABT_ITEMINDEX_GET_OFFSET (snd (items ! k))) = off"
  proof -
    have "off < 2 ^ 16" using off offs by auto
    then show ?thesis using itemindex_offset [of off] k(1) len by (simp add: items off_def case_prod_beta)
  qed
  define rest where "rest = (if k \<noteq> 0 then cutoff - ps ! (k - 1) else cutoff)"
  have rest: "unat rest = r"
  proof (cases k)
    case (Suc j)
    have u: "unat (ps ! j) = items_weight (take k items)"
      using running_sums_nth [of j items 0] k(1) IW W(3) by (simp add: ps_def Suc)
    then have "ps ! j \<le> cutoff" using k(2) uc by (simp add: word_le_nat_alt)
    then show ?thesis using u uc takeF [of k] by (simp add: rest_def Suc unat_sub r_def)
  qed (simp add: rest_def uc r_def)
  have q: "quiescent sp l (get_expected_hikey page off) (?child off)"
    using cq off by (simp add: children_quiescent_def list_all_iff)
  have "sample_prefix_sums sp scale b minoff maxoff
      = continue_descent sp (get_expected_hikey page off) rest 0 (Number (of_nat W)) (?child off)"
    using ne leaf total idx W(2,3)
    by (simp add: sample_prefix_sums_def page [symmetric] items_def [symmetric] ps_def [symmetric] Let_def
        cutoff_def [symmetric] k_def [symmetric] rest_def unat_of_nat_small)
  also have "\<dots> = (case pick (unat rest) (subtree_items sp l (?child off)) of
      Some (blk, off, i) \<Rightarrow> Some (done_sampling sp blk off i (Number (of_nat W))) | None \<Rightarrow> None)"
    by (rule continue_descent_pick [OF q]) (simp add: rest r)
  finally show ?thesis by (simp add: p rest)
qed

text \<open>The way down while there is only one matching entry.\<close>

inductive single_path :: "sampler \<Rightarrow> BlockNumber \<Rightarrow> BlockNumber \<Rightarrow> bool" for sp where
  here: "single_path sp a a"
| down: "range_min sp (sp_store sp a) = range_max sp (sp_store sp a) \<Longrightarrow> \<not> ABT_P_ISLEAF (pd_special (sp_store sp a))
    \<Longrightarrow> abt_moveright_to_next_live_page (sp_store sp)
          (ABTreeTupleGetDownLink (PageGetItem (sp_store sp a) (range_min sp (sp_store sp a)))) = Some (Some b)
    \<Longrightarrow> hikey_cmpres sp (get_expected_hikey (sp_store sp a) (range_min sp (sp_store sp a))) (sp_store sp b) = 0
          \<or> ABT_P_RIGHTMOST (pd_special (sp_store sp b))
    \<Longrightarrow> single_path sp b c \<Longrightarrow> single_path sp a c"

lemma single_path_sample: "single_path sp a c \<Longrightarrow> quick_descend_path sp scale a = quick_descend_path sp scale c"
proof (induction rule: single_path.induct)
  case (down a b c)
  then show ?case by (subst quick_descend_path.simps) (simp add: Let_def)
qed simp

lemma single_path_total: "single_path sp a c \<Longrightarrow> total_weight_from sp r a = total_weight_from sp r c"
proof (induction rule: single_path.induct)
  case (down a b c)
  then show ?case by (subst total_weight_from.simps) (simp add: Let_def)
qed simp

text \<open>The page at which the draw makes its first choice, and the weight it chooses from.\<close>

definition choice_page :: "sampler \<Rightarrow> PageData \<Rightarrow> bool" where
  "choice_page sp page = (range_min sp page \<le> range_max sp page
     \<and> (range_min sp page = range_max sp page \<longrightarrow> ABT_P_ISLEAF (pd_special page)))"

definition single_leaf :: "sampler \<Rightarrow> PageData \<Rightarrow> bool" where
  "single_leaf sp page = (range_min sp page = range_max sp page
     \<and> \<not> (ABTreeTupleIsPosting (PageGetItem page (range_min sp page)) \<and> leaf_has_agg (sp_agg_info sp)))"

definition choice_weight :: "sampler \<Rightarrow> PageData \<Rightarrow> nat" where
  "choice_weight sp page =
     (let itup = PageGetItem page (range_min sp page); ai = sp_agg_info sp
      in if single_leaf sp page
         then if ABTreeTupleIsPosting itup then ABTreeTupleGetNPosting itup
              else if leaf_has_agg ai then unat (abt_atomic_read_agg_ptr (it_aggs itup ! 0) ai) else 1
         else sum_list (map (\<lambda>offnum. if ABT_P_ISLEAF (pd_special page) then leaf_weight sp (PageGetItem page offnum)
                else unat (read_agg sp (PageGetItem page offnum))) [range_min sp page..<range_max sp page + 1]))"

lemma total_weight_choice:
  assumes "choice_page sp (sp_store sp b)"
  shows "total_weight_from sp r b = Some (Some (choice_weight sp (sp_store sp b)))"
  using assms by (subst total_weight_from.simps) (auto simp: choice_page_def choice_weight_def single_leaf_def Let_def)

lemma quick_choice:
  assumes "choice_page sp (sp_store sp b)"
  shows "quick_descend_path sp scale b =
    (if single_leaf sp (sp_store sp b) then Some (sample_single_leaf sp scale b (range_min sp (sp_store sp b)))
     else sample_prefix_sums sp scale b (range_min sp (sp_store sp b)) (range_max sp (sp_store sp b)))"
  using assms by (subst quick_descend_path.simps) (auto simp: choice_page_def single_leaf_def Let_def)

text \<open>What a sample reports as its inverse probability when the draw set out with \<open>p\<close>.\<close>

definition item_tid :: "IndexTupleData \<Rightarrow> nat \<Rightarrow> ItemPointerData" where
  "item_tid itup i = (if ABTreeTupleIsPosting itup then ABTreeTupleGetPostingN itup i else t_tid itup)"

definition item_weight :: "sampler \<Rightarrow> IndexTupleData \<Rightarrow> nat \<Rightarrow> nat" where
  "item_weight sp itup i =
     unat (abt_atomic_read_agg_ptr (it_aggs itup ! (if ABTreeTupleIsPosting itup then i else 0)) (sp_agg_info sp))"

definition inverse_of :: "sampler \<Rightarrow> float8 \<Rightarrow> BlockNumber \<Rightarrow> nat \<Rightarrow> ItemPointerData \<Rightarrow> float8 \<Rightarrow> bool" where
  "inverse_of sp p blk off tid q =
     (let itup = PageGetItem (sp_store sp blk) off
      in \<exists>i. tid = item_tid itup i
           \<and> q = (if leaf_has_agg (sp_agg_info sp) then float8_div p (item_weight sp itup i) else p))"

lemma done_sampling_inverse:
  "done_sampling sp b off i p = Sample blk o' tid q \<Longrightarrow> inverse_of sp p blk o' tid q"
  by (auto simp: done_sampling_def inverse_of_def item_tid_def item_weight_def Let_def PageGetItem_def split: if_splits)

lemma continue_descent_inverse:
  assumes "continue_descent sp e cutoff acc p b = Some r"
  shows "\<forall>blk off tid q. r = Sample blk off tid q \<longrightarrow> inverse_of sp p blk off tid q"
  using assms
proof (induction rule: continue_descent.raw_induct [rotated, consumes 1, case_names step])
  case (step f sp e cutoff acc p b r)
  note IH = step(1) and eq = step(2)
  show ?case
    using eq
    by (auto simp: Let_def dest!: IH dest: done_sampling_inverse split: bind_splits option.splits if_splits sum.splits)
qed

section \<open>Total weight and inverse probability\<close>

lemma collect_leaf_weight:
  "items_weight (collect_leaf_items sp page a b) = sum_list (map (\<lambda>off. leaf_weight sp (PageGetItem page off)) [a..<b + 1])"
proof -
  have "items_weight (concat (map (\<lambda>offnum.
       let itup = PageGetItem page offnum
       in map (\<lambda>(w, i). (w, if ABTreeTupleIsPosting itup
                           then ABT_OFFSET_AND_POSTING_OFF_GET_ITEMINDEX (of_nat offnum) (of_nat i)
                           else ABT_OFFSET_GET_ITEMINDEX (of_nat offnum)))
            (leaf_items sp 1 itup)) offs))
    = sum_list (map (\<lambda>off. leaf_weight sp (PageGetItem page off)) offs)" for offs
    by (induction offs) (simp_all add: Let_def leaf_weight_def)
  then show ?thesis by (simp add: collect_leaf_items_def)
qed

lemma collect_internal_weight:
  "items_weight (collect_internal_items sp page a b) = sum_list (map (\<lambda>off. unat (read_agg sp (PageGetItem page off))) [a..<b + 1])"
proof -
  have "items_weight (map (\<lambda>off. (read_agg sp (PageGetItem page off), ABT_OFFSET_GET_ITEMINDEX (of_nat off))) offs)
    = sum_list (map (\<lambda>off. unat (read_agg sp (PageGetItem page off))) offs)" for offs
    by (induction offs) simp_all
  then show ?thesis unfolding collect_internal_items_def items_weight_nonzero .
qed

lemma posting_items_unit:
  "\<not> leaf_has_agg (sp_agg_info sp) \<Longrightarrow> (w, j) \<in> set (posting_items sp u itup i k) \<Longrightarrow> w = u"
proof (induction sp u itup i k rule: posting_items.induct)
  case (1 sp u itup i k)
  show ?case
    using 1(4,5) 1(1) 1(3)
    by (subst (asm) posting_items.simps) (auto split: if_splits)
qed

lemma leaf_items_unit: "\<not> leaf_has_agg (sp_agg_info sp) \<Longrightarrow> (w, j) \<in> set (leaf_items sp u itup) \<Longrightarrow> w = u"
  by (auto simp: leaf_items_def posting_items_unit split: if_splits)

lemma items_weight_unit: "(\<And>w x. (w, x) \<in> set items \<Longrightarrow> w = 1) \<Longrightarrow> items_weight items = length items"
proof (induction items rule: items_weight.induct)
  case (2 w x items)
  have "w = 1" using 2(2) [of w x] by simp
  then show ?case using 2 by auto
qed simp

lemma collect_leaf_unit:
  "\<not> leaf_has_agg (sp_agg_info sp) \<Longrightarrow> length (collect_leaf_items sp page a b) = items_weight (collect_leaf_items sp page a b)"
  by (subst items_weight_unit) (auto simp: collect_leaf_items_def Let_def dest: leaf_items_unit)

lemma running_sums_last:
  "items \<noteq> [] \<Longrightarrow> items_weight items < 2 ^ 64
     \<Longrightarrow> unat (running_sums 0 (map fst items) ! (length items - 1)) = items_weight items"
  using running_sums_nth [of "length items - 1" items 0] by simp

lemma sample_prefix_sums_inverse:
  assumes s: "sample_prefix_sums sp scale b a z = Some (Sample blk off tid q)"
    and T: "T = (if ABT_P_ISLEAF (pd_special (sp_store sp b)) then items_weight (collect_leaf_items sp (sp_store sp b) a z)
               else items_weight (collect_internal_items sp (sp_store sp b) a z))" "T < 2 ^ 64"
  shows "inverse_of sp (Number (of_nat T)) blk off tid q"
proof -
  define items where "items = (if ABT_P_ISLEAF (pd_special (sp_store sp b)) then collect_leaf_items sp (sp_store sp b) a z
    else collect_internal_items sp (sp_store sp b) a z)"
  have W: "items_weight items = T" using T(1) by (simp add: items_def)
  have ne: "items \<noteq> []" using s by (auto simp: sample_prefix_sums_def items_def Let_def split: if_splits)
  have tot: "unat (running_sums 0 (map fst items) ! (length items - 1)) = T"
    using running_sums_last [OF ne] W T(2) by simp
  have un: "length items = T" if "ABT_P_ISLEAF (pd_special (sp_store sp b))" "\<not> leaf_has_agg (sp_agg_info sp)"
    using collect_leaf_unit [OF that(2), of "sp_store sp b" a z] W that(1) by (simp add: items_def)
  have ip: "Number (if ABT_P_ISLEAF (pd_special (sp_store sp b)) \<and> \<not> leaf_has_agg (sp_agg_info sp)
      then of_nat (length items) else of_nat (unat (running_sums 0 (map fst items) ! (length items - 1)))) = Number (of_nat T)"
    using tot un by auto
  show ?thesis
    using s ne unfolding sample_prefix_sums_def Let_def items_def [symmetric] ip
    by (auto dest: done_sampling_inverse continue_descent_inverse split: if_splits)
qed

lemma sample_inverse:
  assumes "choice_page sp (sp_store sp b)" "choice_weight sp (sp_store sp b) < 2 ^ 64"
    and "quick_descend_path sp scale b = Some (Sample blk off tid q)"
  shows "inverse_of sp (Number (of_nat (choice_weight sp (sp_store sp b)))) blk off tid q"
proof (cases "single_leaf sp (sp_store sp b)")
  case True
  then have "sample_single_leaf sp scale b (range_min sp (sp_store sp b)) = Sample blk off tid q"
    using assms(3) quick_choice [OF assms(1)] by simp
  then show ?thesis
    using True by (auto simp: sample_single_leaf_def choice_weight_def Let_def dest: done_sampling_inverse split: if_splits)
next
  case False
  then have s: "sample_prefix_sums sp scale b (range_min sp (sp_store sp b)) (range_max sp (sp_store sp b)) = Some (Sample blk off tid q)"
    using assms(3) quick_choice [OF assms(1)] by simp
  show ?thesis
    by (rule sample_prefix_sums_inverse [OF s]) (use False assms(2) in \<open>simp_all add: choice_weight_def collect_leaf_weight collect_internal_weight\<close>)
qed

section \<open>Posting lists and split pages\<close>

definition visible_posts :: "sampler \<Rightarrow> IndexTupleData \<Rightarrow> nat \<Rightarrow> nat list" where
  "visible_posts sp itup i = filter (\<lambda>p. \<not> in_snapshot sp (it_xmins itup ! p)) [i..<ABTreeTupleGetNPosting itup]"

lemma posting_items_zip:
  "leaf_has_agg (sp_agg_info sp) \<Longrightarrow> posting_items sp u itup i k =
     zip (map (\<lambda>j. abt_atomic_read_agg_ptr (it_aggs itup ! j) (sp_agg_info sp)) [k..<k + length (visible_posts sp itup i)])
       (visible_posts sp itup i)"
proof (induction sp u itup i k rule: posting_items.induct)
  case (1 sp u itup i k)
  show ?case
  proof (cases "i < ABTreeTupleGetNPosting itup")
    case False
    then show ?thesis by (simp add: posting_items.simps visible_posts_def)
  next
    case True
    then have v: "visible_posts sp itup i =
        (if in_snapshot sp (it_xmins itup ! i) then visible_posts sp itup (i + 1) else i # visible_posts sp itup (i + 1))"
      by (simp add: visible_posts_def upt_conv_Cons)
    show ?thesis
    proof (cases "in_snapshot sp (it_xmins itup ! i)")
      case inv: True
      then show ?thesis using 1(1) [OF True inv 1(4)] True v by (subst posting_items.simps) simp
    next
      case vis: False
      let ?V = "visible_posts sp itup (i + 1)"
      have "[k..<k + length (i # ?V)] = k # [Suc k..<k + length (i # ?V)]" by (rule upt_conv_Cons) simp
      then show ?thesis
        using 1(2) [OF True vis 1(4) 1(4)] True vis v 1(4) by (subst posting_items.simps) simp
    qed
  qed
qed

lemma prefix_filter_upt:
  assumes "\<And>p q. p \<in> set [0..<n] \<Longrightarrow> P p \<Longrightarrow> q < p \<Longrightarrow> P q"
  shows "filter P [0..<n] = [0..<length (filter P [0..<n])]"
  using assms
proof (induction n)
  case (Suc n)
  have IH: "filter P [0..<n] = [0..<length (filter P [0..<n])]" by (rule Suc.IH) (use Suc.prems in auto)
  show ?case
  proof (cases "P n")
    case True
    then have "filter P [0..<n] = [0..<n]" using Suc.prems [of n] by (simp add: filter_id_conv)
    then show ?thesis using True by simp
  qed (use IH in simp)
qed simp

lemma split_child_cmpres:
  assumes "wf_rel (sp_rel sp)" "wf_natts (sp_rel sp) t" "\<not> ABT_P_RIGHTMOST (pd_special page)"
    and lt: "tuple_cmp (sp_rel sp) (PageGetItem page ABTP_HIKEY) t
           (min (rd_nkeyatts (sp_rel sp)) (ABTreeTupleGetNAtts (rd_natts (sp_rel sp)) t)) < 0"
  shows "0 < hikey_cmpres sp (Some t) page"
proof -
  let ?rel = "sp_rel sp" and ?h = "PageGetItem page ABTP_HIKEY"
  define key where "key = (abt_mkscankey ?rel (heapkeyspace (sp_inskey_pivot sp)) (allequalimage (sp_inskey_pivot sp)) (Some t))
    \<lparr>heapkeyspace := heapkeyspace (sp_inskey_pivot sp), allequalimage := allequalimage (sp_inskey_pivot sp), pivotsearch := True\<rparr>"
  let ?n = "min (rd_nkeyatts ?rel) (ABTreeTupleGetNAtts (rd_natts ?rel) t)"
  have wf: "wf_key ?rel key"
    using mkscankey_wf [OF assms(1), of "Some t"] assms(2) unfolding key_def by (simp add: wf_key_def)
  have k: "keysz key = ?n" by (simp add: key_def mkscankey_sel)
  have "key_cmp ?rel key ?h = tuple_cmp ?rel t ?h ?n"
    unfolding key_cmp_def tuple_cmp_def k
  proof (rule lex_cong)
    fix i assume "i < ?n"
    then have "key_att (abt_mkscankey ?rel (heapkeyspace (sp_inskey_pivot sp)) (allequalimage (sp_inskey_pivot sp)) (Some t)) i
        = tuple_att ?rel t i" by (intro mkscankey_key_att) simp_all
    then show "col_cmp ?rel i (key_att key i) (tuple_att ?rel ?h i) = col_cmp ?rel i (tuple_att ?rel t i) (tuple_att ?rel ?h i)"
      by (simp add: key_def key_att_def)
  qed
  then have "0 < key_cmp ?rel key ?h" using lt tuple_cmp_anti(1) [OF assms(1), of ?n ?h t] by simp
  moreover have "abt_compare ?rel key page ABTP_HIKEY = key_tuple_cmp ?rel key ?h"
    by (rule abt_compare_lex [OF wf _ refl])
      (use assms(3) in \<open>simp add: ABT_P_FIRSTDATAKEY_def ABTP_HIKEY_def ABTP_FIRSTKEY_def\<close>)
  ultimately show ?thesis
    using assms(3) by (simp add: hikey_cmpres_def Let_def key_def [symmetric] key_tuple_cmp_def)
qed

text \<open>Without an expected high key no column is compared, and the result is 0 on every page.\<close>

lemma hikey_cmpres_none:
  assumes "\<not> ABT_P_RIGHTMOST (pd_special page)"
  shows "hikey_cmpres sp None page = 0"
  using assms
  by (simp add: hikey_cmpres_def abt_compare_def abt_mkscankey_def Let_def ABT_P_FIRSTDATAKEY_def ABTP_HIKEY_def ABTP_FIRSTKEY_def)

section \<open>An example index\<close>

definition ex_weighted :: "IndexTupleData \<Rightarrow> Datum \<Rightarrow> IndexTupleData" where
  "ex_weighted t w = t\<lparr>it_aggs := [w]\<rparr>"

definition ex_wstore :: page_store where
  "ex_wstore b =
     (if b = 1 then ex_page 2 0 1 [ex_pivot [Some 5] 0, ex_weighted (ex_row 1 (Some 9) 5) 2, ex_weighted (ex_row 3 None 6) 3]
      else if b = 2 then ex_page 0 0 1 [ex_weighted (ex_row 6 None 3) 7]
      else ex_page 0 1 2 [ex_weighted (ex_pivot [] 1) 5, ex_weighted (ex_pivot [Some 5] 2) 7])"

definition ex_sampler :: sampler where
  "ex_sampler = \<lparr>sp_rel = ex_rel, sp_store = ex_wstore, sp_vs = Map.empty, sp_index_id = 1, sp_bypass = False,
     sp_snapshot = Some \<lparr>s_xmin = 10, s_xmax = 20, s_xip = [12]\<rparr>, sp_agg_info = abt_fill_agg_info INT8OID None,
     sp_low = None, sp_high = None, sp_inskey_pivot = abt_mkscankey ex_rel True True None,
     sp_ignore_killed = False, sp_checkkeys = (\<lambda>_. True)\<rparr>"

lemma ex_sampler_pages:
  "range_min ex_sampler (ex_wstore 3) = 1" "range_max ex_sampler (ex_wstore 3) = 2"
  "\<not> ABT_P_ISLEAF (pd_special (ex_wstore 3))"
  by code_simp+

lemma ex_sampler_store [simp]: "sp_store ex_sampler = ex_wstore"
  by (simp add: ex_sampler_def)

lemma ex_subtree_items:
  "subtree_items ex_sampler 0 1 = [(2, 1, 2, 0), (3, 1, 3, 0)]" "subtree_items ex_sampler 0 2 = [(7, 2, 1, 0)]"
  by code_simp+

lemma ex_child_facts:
  "ABTreeTupleGetDownLink (PageGetItem (ex_wstore 3) 1) = 1" "ABTreeTupleGetDownLink (PageGetItem (ex_wstore 3) 2) = 2"
  "read_agg ex_sampler (PageGetItem (ex_wstore 3) 1) = 5" "read_agg ex_sampler (PageGetItem (ex_wstore 3) 2) = 7"
  "hikey_cmpres ex_sampler (get_expected_hikey (ex_wstore 3) 1) (ex_wstore 1) = 0"
  "hikey_cmpres ex_sampler (get_expected_hikey (ex_wstore 3) 2) (ex_wstore 2) = 0"
  "\<not> ABT_P_IGNORE (pd_special (ex_wstore 1))" "\<not> ABT_P_IGNORE (pd_special (ex_wstore 2))"
  "ABT_P_ISLEAF (pd_special (ex_wstore 1))" "ABT_P_ISLEAF (pd_special (ex_wstore 2))"
  by code_simp+

lemma ex_downlinks:
  "weights_read ex_sampler 0 (ex_wstore 3) [1, 2]" "children_quiescent ex_sampler 0 (ex_wstore 3) [1, 2]"
  "downlink_items ex_sampler 0 (ex_wstore 3) [1, 2] = [(2, 1, 2, 0), (3, 1, 3, 0), (7, 2, 1, 0)]"
  using ex_child_facts [unfolded One_nat_def] ex_subtree_items
  by (simp_all add: weights_read_def children_quiescent_def downlink_items_def del: subtree_items.simps)

section \<open>Properties\<close>

text \<open>
  C1. A draw selects each visible item with the right probability. In a part of the index in which
  nothing changes during the draw (all pages live with the high keys their parents expect, and all
  downlinks reading as the weight of the visible items below them, which the version store provides),
  let W be the total weight of the visible items below the matching entries of the first page with
  more than one of them. Then the draw always ends, on the item at which the running sum of the weights
  in key order exceeds the cutoff, wherever that item is in the tree; and out of the W possible
  cutoffs exactly as many select an item as its weight is.
\<close>

theorem abt_sample_distribution:
  assumes "single_path sp rt b" "page = sp_store sp b" "\<not> ABT_P_ISLEAF (pd_special page)"
    and "range_min sp page < range_max sp page" "range_max sp page < 2 ^ 16"
    and "offs = [range_min sp page..<range_max sp page + 1]"
    and "weights_read sp l page offs" "children_quiescent sp l page offs"
    and "items = downlink_items sp l page offs" "W = items_weight items" "0 < W" "W < 2 ^ 64"
  shows "(\<forall>scale. scale W \<le> W \<longrightarrow>
      (\<exists>blk off i. pick (if scale W = W then W - 1 else scale W) items = Some (blk, off, i)
         \<and> abt_sample sp True scale (Some rt) = Some (done_sampling sp blk off i (Number (of_nat W)))))
    \<and> (\<forall>x. card {c. c < W \<and> pick c items = Some x} = items_weight (filter (\<lambda>(_, y). y = x) items))"
proof (intro conjI allI impI)
  show "card {c. c < W \<and> pick c items = Some x} = items_weight (filter (\<lambda>(_, y). y = x) items)" for x
    unfolding assms(10) by (rule pick_count)
  fix scale assume sc: "scale W \<le> W"
  define c where "c = (if scale W = W then W - 1 else scale W)"
  have "c < W" using sc assms(11) by (auto simp: c_def)
  then obtain x where x: "pick c items = Some x" using pick_some [of c items] assms(10) by auto
  obtain blk off i where pos: "x = (blk, off, i)" by (cases x)
  have ch: "choice_page sp page" "\<not> single_leaf sp page" using assms(4) by (simp_all add: choice_page_def single_leaf_def)
  have "abt_sample sp True scale (Some rt) = quick_descend_path sp scale b"
    using single_path_sample [OF assms(1)] by (simp add: abt_sample_def)
  also have "\<dots> = sample_prefix_sums sp scale b (range_min sp page) (range_max sp page)"
    using quick_choice [of sp b scale] ch unfolding assms(2) by simp
  also have "\<dots> = (case pick c (downlink_items sp l page offs) of
      Some (blk, off, i) \<Rightarrow> Some (done_sampling sp blk off i (Number (of_nat W))) | None \<Rightarrow> None)"
    by (rule sample_prefix_sums_pick [OF assms(3,2,6,5,7,8)]) (use assms(9-12) sc c_def in simp_all)
  finally show "\<exists>blk off i. pick (if scale W = W then W - 1 else scale W) items = Some (blk, off, i)
      \<and> abt_sample sp True scale (Some rt) = Some (done_sampling sp blk off i (Number (of_nat W)))"
    using x pos by (simp add: c_def [symmetric] assms(9) [symmetric])
qed

theorem abt_sample_distribution_witness:
  "abt_sample ex_sampler True (\<lambda>_. 4) (Some 3) = Some (done_sampling ex_sampler 1 3 0 (Number 12))
    \<and> card {c. c < 12 \<and> pick c [(2, 1, 2, 0), (3, 1, 3, 0), (7, 2, 1, 0)] = Some (1 :: BlockNumber, 3 :: nat, 0 :: nat)} = 3"
proof -
  have offs: "[1 :: nat, 2] = [range_min ex_sampler (ex_wstore 3)..<range_max ex_sampler (ex_wstore 3) + 1]"
    unfolding ex_sampler_pages by (simp add: upt_rec)
  from abt_sample_distribution [of ex_sampler 3 3 "ex_wstore 3", OF single_path.here _ ex_sampler_pages(3) _ _ offs ex_downlinks(1,2) refl refl]
  show ?thesis unfolding ex_downlinks(3) by (auto simp: ex_sampler_pages dest!: spec [of _ "\<lambda>_ :: nat. 4 :: nat"])
qed

text \<open>
  C9. The inverse probability of a sample in terms of the total weight. Once the way down has reached a
  page where there is something to choose, let T be what \<^verbatim>\<open>_abt_total_weight\<close> computes. Whatever
  sample a draw returns from the same state, at any depth: if the leaves store weights, its inverse
  probability is T divided by the stored weight of the sampled item; if they do not, it is T itself,
  whatever the constant weight of the items is. The comments in the code ask for a division by the
  weight of the tuple in both cases, which the second case leaves out: for a constant weight other
  than one and a choice on an internal page the reported value is too large by that factor.
\<close>

theorem abt_sample_inverse_weight:
  assumes "single_path sp rt b" "choice_page sp (sp_store sp b)"
    and "abt_total_weight sp True (Some rt) = Some (Some T)" "T < 2 ^ 64"
    and "abt_sample sp True scale (Some rt) = Some (Sample blk off tid q)"
  shows "(leaf_has_agg (sp_agg_info sp) \<longrightarrow>
      (\<exists>i. tid = item_tid (PageGetItem (sp_store sp blk) off) i
        \<and> q = float8_div (Number (of_nat T)) (item_weight sp (PageGetItem (sp_store sp blk) off) i)))
    \<and> (\<not> leaf_has_agg (sp_agg_info sp) \<longrightarrow>
      (\<exists>i. tid = item_tid (PageGetItem (sp_store sp blk) off) i) \<and> q = Number (of_nat T))"
proof -
  have "T = choice_weight sp (sp_store sp b)"
    using assms(3) single_path_total [OF assms(1), of rt] total_weight_choice [OF assms(2)] by (simp add: abt_total_weight_def)
  moreover have "quick_descend_path sp scale b = Some (Sample blk off tid q)"
    using assms(5) single_path_sample [OF assms(1)] by (simp add: abt_sample_def)
  ultimately have "inverse_of sp (Number (of_nat T)) blk off tid q" using sample_inverse [OF assms(2)] assms(4) by simp
  then show ?thesis
    unfolding inverse_of_def Let_def by (cases "leaf_has_agg (sp_agg_info sp)") (simp_all only: if_True if_False simp_thms, blast)
qed

theorem abt_sample_inverse_weight_witness:
  "\<exists>i. ItemPointer 7 6 = item_tid (PageGetItem (ex_wstore 1) 3) i
    \<and> Number 4 = float8_div (Number 12) (item_weight ex_sampler (PageGetItem (ex_wstore 1) 3) i)"
proof -
  have ch: "choice_page ex_sampler (sp_store ex_sampler 3)" by (simp add: choice_page_def ex_sampler_pages)
  have "choice_weight ex_sampler (sp_store ex_sampler 3) = 12"
    using ex_child_facts(3,4) [unfolded One_nat_def numeral_2_eq_2] by (simp add: choice_weight_def single_leaf_def ex_sampler_pages upt_rec)
  then have t: "abt_total_weight ex_sampler True (Some 3) = Some (Some 12)"
    using total_weight_choice [OF ch] by (simp add: abt_total_weight_def)
  have offs: "[1 :: nat, 2] = [range_min ex_sampler (ex_wstore 3)..<range_max ex_sampler (ex_wstore 3) + 1]"
    unfolding ex_sampler_pages by (simp add: upt_rec)
  have "quick_descend_path ex_sampler (\<lambda>_. 4) 3 = Some (done_sampling ex_sampler 1 3 0 (Number 12))"
    using sample_prefix_sums_pick [OF ex_sampler_pages(3), of ex_sampler 3 "[1, 2]" 1 2 0 12 "\<lambda>_. 4" 4]
      ex_downlinks quick_choice [OF ch, of "\<lambda>_. 4"] by (simp add: ex_sampler_pages single_leaf_def upt_rec)
  moreover have "done_sampling ex_sampler 1 3 0 (Number 12) = Sample 1 3 (ItemPointer 7 6) (Number 4)" by code_simp
  ultimately have s: "abt_sample ex_sampler True (\<lambda>_. 4) (Some 3) = Some (Sample 1 3 (ItemPointer 7 6) (Number 4))"
    by (simp add: abt_sample_def)
  have "leaf_has_agg (sp_agg_info ex_sampler)" by code_simp
  then show ?thesis using abt_sample_inverse_weight [OF single_path.here ch t _ s] by simp
qed

text \<open>
  C31. Weights of the items of a posting list. With stored weights, the visible items of a posting list
  are considered in order, and the k-th visible item is given the k-th stored value, because the pointer
  to the values only moves on after a visible item. So every item is given its own weight when no
  item that the snapshot does not see comes before one that it sees.
\<close>

theorem posting_items_weights:
  assumes "leaf_has_agg (sp_agg_info sp)"
    and "vis = filter (\<lambda>p. \<not> in_snapshot sp (it_xmins itup ! p)) [0..<ABTreeTupleGetNPosting itup]"
  shows "posting_items sp u itup 0 0
      = zip (map (\<lambda>k. abt_atomic_read_agg_ptr (it_aggs itup ! k) (sp_agg_info sp)) [0..<length vis]) vis
    \<and> ((\<forall>p\<in>set vis. \<forall>q<p. \<not> in_snapshot sp (it_xmins itup ! q)) \<longrightarrow>
        posting_items sp u itup 0 0 = map (\<lambda>p. (abt_atomic_read_agg_ptr (it_aggs itup ! p) (sp_agg_info sp), p)) vis)"
proof -
  have z: "posting_items sp u itup 0 0
      = zip (map (\<lambda>k. abt_atomic_read_agg_ptr (it_aggs itup ! k) (sp_agg_info sp)) [0..<length vis]) vis"
    using posting_items_zip [OF assms(1), of u itup 0 0] by (simp add: visible_posts_def assms(2))
  moreover have "posting_items sp u itup 0 0 = map (\<lambda>p. (abt_atomic_read_agg_ptr (it_aggs itup ! p) (sp_agg_info sp), p)) vis"
    if a: "\<forall>p\<in>set vis. \<forall>q<p. \<not> in_snapshot sp (it_xmins itup ! q)"
  proof -
    let ?n = "ABTreeTupleGetNPosting itup"
    have "filter (\<lambda>p. \<not> in_snapshot sp (it_xmins itup ! p)) [0..<?n]
        = [0..<length (filter (\<lambda>p. \<not> in_snapshot sp (it_xmins itup ! p)) [0..<?n])]"
    proof (rule prefix_filter_upt)
      fix p q assume "p \<in> set [0..<?n]" "\<not> in_snapshot sp (it_xmins itup ! p)" "q < p"
      moreover from this have "p \<in> set vis" unfolding assms(2) by simp
      ultimately show "\<not> in_snapshot sp (it_xmins itup ! q)" using a by blast
    qed
    then have v: "[0..<length vis] = vis" unfolding assms(2) by (rule sym)
    have m: "zip (map f xs) xs = map (\<lambda>p. (f p, p)) xs" for f :: "nat \<Rightarrow> 64 word" and xs by (induction xs) simp_all
    show ?thesis unfolding z v by (rule m)
  qed
  ultimately show ?thesis by blast
qed

definition ex_wposting :: IndexTupleData where
  "ex_wposting = (abt_form_posting (ex_weighted (ex_row 2 None 1) 1) [ItemPointer 7 1, ItemPointer 7 4, ItemPointer 7 6]
     (abt_fill_agg_info INT8OID None))\<lparr>it_aggs := [10, 40, 60], it_xmins := [12, 3, 3]\<rparr>"

theorem posting_items_weights_witness:
  "posting_items ex_sampler 1 ex_wposting 0 0 = [(10, 1), (40, 2)] \<and> it_aggs ex_wposting = [10, 40, 60]"
proof -
  have l: "leaf_has_agg (sp_agg_info ex_sampler)" by code_simp
  have v: "filter (\<lambda>p. \<not> in_snapshot ex_sampler (it_xmins ex_wposting ! p)) [0..<ABTreeTupleGetNPosting ex_wposting] = [1, 2]"
    "abt_atomic_read_agg_ptr (it_aggs ex_wposting ! 0) (sp_agg_info ex_sampler) = 10"
    "abt_atomic_read_agg_ptr (it_aggs ex_wposting ! 1) (sp_agg_info ex_sampler) = 40" "it_aggs ex_wposting = [10, 40, 60]"
    by code_simp+
  show ?thesis
    using posting_items_weights [OF l refl, of 1 ex_wposting] v unfolding v(1) by (simp add: upt_rec)
qed

text \<open>
  C32. A draw does not follow a page split to the right. Let a live child page be no longer rightmost.
  When its high key is below the high key its parent expects, already in the key columns, the draw is
  rejected at once, for every cutoff. When the parent expects no high key, because the child was
  rightmost before the split, the comparison takes the page for the whole child: on a leaf the draw
  takes an item of this page, or is rejected when the cutoff lies beyond its items. In both cases the
  items of the downlink that went to the right page are not reached, although the comments describe
  the loop as moving right.
\<close>

theorem split_child_rejected:
  assumes "wf_rel (sp_rel sp)"
    and "\<not> ABT_P_IGNORE (pd_special (sp_store sp b))" "\<not> ABT_P_RIGHTMOST (pd_special (sp_store sp b))"
  shows "(wf_natts (sp_rel sp) t
      \<and> tuple_cmp (sp_rel sp) (PageGetItem (sp_store sp b) ABTP_HIKEY) t
           (min (rd_nkeyatts (sp_rel sp)) (ABTreeTupleGetNAtts (rd_natts (sp_rel sp)) t)) < 0
      \<longrightarrow> continue_descent sp (Some t) cutoff acc p b = Some (Reject p))
    \<and> (ABT_P_ISLEAF (pd_special (sp_store sp b))
      \<longrightarrow> continue_descent sp None cutoff acc p b
        = Some (case scan_leaf sp (sp_store sp b) cutoff acc (data_offsets (sp_store sp b)) of
                  Inr (offnum, i) \<Rightarrow> done_sampling sp b offnum i p
                | Inl _ \<Rightarrow> Reject PlusInfinity))"
proof (intro conjI impI)
  assume "wf_natts (sp_rel sp) t \<and> tuple_cmp (sp_rel sp) (PageGetItem (sp_store sp b) ABTP_HIKEY) t
           (min (rd_nkeyatts (sp_rel sp)) (ABTreeTupleGetNAtts (rd_natts (sp_rel sp)) t)) < 0"
  then show "continue_descent sp (Some t) cutoff acc p b = Some (Reject p)"
    using split_child_cmpres [OF assms(1) _ assms(3)] assms(2) by (subst continue_descent.simps) (simp add: Let_def)
next
  assume "ABT_P_ISLEAF (pd_special (sp_store sp b))"
  then show "continue_descent sp None cutoff acc p b
        = Some (case scan_leaf sp (sp_store sp b) cutoff acc (data_offsets (sp_store sp b)) of
                  Inr (offnum, i) \<Rightarrow> done_sampling sp b offnum i p
                | Inl _ \<Rightarrow> Reject PlusInfinity)"
    using hikey_cmpres_none [OF assms(3)] assms(2)
    by (subst continue_descent.simps) (simp add: Let_def split: sum.split)
qed

theorem split_child_rejected_witness:
  "continue_descent ex_sampler (Some (ex_pivot [Some 9] 0)) 4 0 (Number 12) 1 = Some (Reject (Number 12))
   \<and> continue_descent ex_sampler None 4 0 (Number 12) 1 = Some (done_sampling ex_sampler 1 3 0 (Number 12))
   \<and> continue_descent ex_sampler None 5 0 (Number 12) 1 = Some (Reject PlusInfinity)"
proof -
  have rel: "wf_rel (sp_rel ex_sampler)" using ex_rel_wf by (simp add: ex_sampler_def)
  have live: "\<not> ABT_P_IGNORE (pd_special (sp_store ex_sampler 1))" by (simp add: ex_child_facts)
  have right: "\<not> ABT_P_RIGHTMOST (pd_special (sp_store ex_sampler 1))" by code_simp
  have key: "wf_natts (sp_rel ex_sampler) (ex_pivot [Some 9] 0)
      \<and> tuple_cmp (sp_rel ex_sampler) (PageGetItem (sp_store ex_sampler 1) ABTP_HIKEY) (ex_pivot [Some 9] 0)
      (min (rd_nkeyatts (sp_rel ex_sampler)) (ABTreeTupleGetNAtts (rd_natts (sp_rel ex_sampler)) (ex_pivot [Some 9] 0))) < 0"
    by code_simp
  have leaf: "ABT_P_ISLEAF (pd_special (sp_store ex_sampler 1))" by code_simp
  have scan: "scan_leaf ex_sampler (sp_store ex_sampler 1) 4 0 (data_offsets (sp_store ex_sampler 1)) = Inr (3, 0)"
    "scan_leaf ex_sampler (sp_store ex_sampler 1) 5 0 (data_offsets (sp_store ex_sampler 1)) = Inl 5"
    by code_simp+
  note s = split_child_rejected [OF rel live right]
  show ?thesis
    using s [of "ex_pivot [Some 9] 0" 4 0 "Number 12"] s [of "ex_pivot [Some 9] 0" 5 0 "Number 12"] key leaf
    unfolding scan by simp
qed

end
