(* ===== verification/Truncate.thy ===== *)
theory Truncate
  imports Descend
begin

unbundle bit_operations_syntax

text \<open>
  Suffix truncation (\<^verbatim>\<open>_abt_truncate\<close> and \<^verbatim>\<open>_abt_keep_natts\<close> of \<^verbatim>\<open>abtutils.c\<close>): the high key that a leaf page
  gets when it is split keeps only as many columns of the first right tuple as distinguish it from the
  last left one, or all columns and a heap TID. The tuples with fewer columns are formed by
  \<^verbatim>\<open>index_truncate_tuple\<close> and \<^verbatim>\<open>index_form_tuple\<close> of \<^verbatim>\<open>indextuple.c\<close>; columns are of fixed length and passed by
  value. The lemmas show that the high key separates the two halves for every search and is never larger
  than the key part of the first right tuple and a heap TID.
\<close>

section \<open>Forming index tuples\<close>

definition INDEX_MAX_KEYS :: nat where "INDEX_MAX_KEYS = 32"
definition INDEX_NULL_MASK :: "16 word" where "INDEX_NULL_MASK = 0x8000"
definition sizeof_IndexTupleData :: nat where "sizeof_IndexTupleData = 8"
definition sizeof_IndexAttributeBitMapData :: nat where
  "sizeof_IndexAttributeBitMapData = (INDEX_MAX_KEYS + 8 - 1) div 8"

record FormData_pg_attribute =
  attlen :: nat
  attalign :: char

definition att_align_nominal :: "nat \<Rightarrow> char \<Rightarrow> nat" where
  "att_align_nominal cur_offset typalign =
     (if typalign = CHR ''i'' then INTALIGN cur_offset
      else if typalign = CHR ''c'' then cur_offset
      else if typalign = CHR ''d'' then MAXALIGN cur_offset
      else SHORTALIGN cur_offset)"

fun heap_compute_data_size :: "FormData_pg_attribute list \<Rightarrow> Datum option list \<Rightarrow> nat \<Rightarrow> nat" where
  "heap_compute_data_size (atti # atts) (v # vs) data_length =
     heap_compute_data_size atts vs
       (case v of None \<Rightarrow> data_length
        | Some _ \<Rightarrow> att_align_nominal data_length (attalign atti) + attlen atti)"
| "heap_compute_data_size _ _ data_length = data_length"

definition IndexInfoFindDataOffset :: "16 word \<Rightarrow> nat" where
  "IndexInfoFindDataOffset info =
     (if info AND INDEX_NULL_MASK = 0 then MAXALIGN sizeof_IndexTupleData
      else MAXALIGN (sizeof_IndexTupleData + sizeof_IndexAttributeBitMapData))"

text \<open>\<open>None\<close> is \<^verbatim>\<open>ereport(ERROR)\<close>. A column is stored in as many bytes as its type has.\<close>

definition index_form_tuple_with_extra ::
  "FormData_pg_attribute list \<Rightarrow> Datum option list \<Rightarrow> nat \<Rightarrow> char \<Rightarrow> IndexTupleData option" where
  "index_form_tuple_with_extra tupleDescriptor values extra alignment =
     (if INDEX_MAX_KEYS < length tupleDescriptor then None
      else
        let infomask = (if list_ex (\<lambda>v. v = None) values then INDEX_NULL_MASK else 0);
            size = IndexInfoFindDataOffset infomask + heap_compute_data_size tupleDescriptor values 0;
            size = (if alignment = CHR ''m'' then MAXALIGN size
                    else if alignment \<in> set ''csid'' then att_align_nominal size alignment else size);
            size = MAXALIGN (size + extra)
        in if unat INDEX_SIZE_MASK < size then None
           else Some \<lparr>t_tid = ItemPointer 0 0, t_info = infomask OR of_nat size,
                      it_attrs = map2 (\<lambda>att v. map_option (store_att_byval (attlen att)) v) tupleDescriptor values,
                      it_htids = [], it_aggs = [], it_xmins = [], it_last_update_id = 0, it_pivot_tid = None\<rparr>)"

definition index_form_tuple :: "FormData_pg_attribute list \<Rightarrow> Datum option list \<Rightarrow> IndexTupleData option" where
  "index_form_tuple tupleDescriptor values = index_form_tuple_with_extra tupleDescriptor values 0 CHR ''m''"

definition index_deform_tuple :: "IndexTupleData \<Rightarrow> FormData_pg_attribute list \<Rightarrow> Datum option list" where
  "index_deform_tuple tup tupleDescriptor = map (\<lambda>i. index_getattr tup (i + 1)) [0..<length tupleDescriptor]"

definition index_truncate_tuple ::
  "FormData_pg_attribute list \<Rightarrow> IndexTupleData \<Rightarrow> nat \<Rightarrow> IndexTupleData option" where
  "index_truncate_tuple sourceDescriptor source leavenatts =
     (if leavenatts = length sourceDescriptor then Some source
      else
        let truncdesc = take leavenatts sourceDescriptor
        in map_option (\<lambda>truncated. truncated\<lparr>t_tid := t_tid source\<rparr>)
             (index_form_tuple truncdesc (index_deform_tuple source truncdesc)))"

section \<open>Truncation\<close>

fun keep_natts_loop :: "ScanKeyData list \<Rightarrow> IndexTupleData \<Rightarrow> IndexTupleData \<Rightarrow> nat list \<Rightarrow> nat \<Rightarrow> nat" where
  "keep_natts_loop (scankey # sks) lastleft firstright (attnum # attnums) keepnatts =
     (let datum1 = index_getattr lastleft attnum;
          datum2 = index_getattr firstright attnum
      in if (datum1 = None) \<noteq> (datum2 = None) then keepnatts
         else if datum1 \<noteq> None \<and> sk_func scankey (the datum1) (the datum2) \<noteq> 0 then keepnatts
         else keep_natts_loop sks lastleft firstright attnums (keepnatts + 1))"
| "keep_natts_loop _ lastleft firstright _ keepnatts = keepnatts"

definition abt_keep_natts ::
  "index_rel \<Rightarrow> IndexTupleData \<Rightarrow> IndexTupleData \<Rightarrow> ABTScanInsertData \<Rightarrow> nat" where
  "abt_keep_natts rel lastleft firstright key =
     (if \<not> heapkeyspace key then rd_nkeyatts rel
      else keep_natts_loop (scankeys key) lastleft firstright [1..<Suc (rd_nkeyatts rel)] 1)"

definition abt_truncate ::
  "index_rel \<Rightarrow> FormData_pg_attribute list \<Rightarrow> IndexTupleData \<Rightarrow> IndexTupleData \<Rightarrow> ABTScanInsertData
     \<Rightarrow> ABTCachedAggInfo \<Rightarrow> IndexTupleData option" where
  "abt_truncate rel itupdesc lastleft firstright key agg_info =
     (let nkeyatts = rd_nkeyatts rel;
          keepnatts = abt_keep_natts rel lastleft firstright key;
          pivot =
            (if keepnatts < nkeyatts then index_truncate_tuple itupdesc firstright (min keepnatts nkeyatts)
             else
               let new_size = (if ABTreeTupleIsPosting firstright then ABTreeTupleGetPostingOffset firstright
                               else IndexTupleSize firstright - extra_space_for_nonpivot_tuple agg_info);
                   actual_size = (if keepnatts \<le> nkeyatts then new_size
                                  else new_size + MAXALIGN sizeof_ItemPointerData)
               in Some (set_tuple_size actual_size (firstright\<lparr>it_htids := [], it_aggs := [], it_xmins := []\<rparr>)))
      in case pivot of None \<Rightarrow> None
         | Some pivot \<Rightarrow>
             Some (if keepnatts \<le> nkeyatts then ABTreeTupleSetNAtts pivot keepnatts False
                   else (ABTreeTupleSetNAtts pivot nkeyatts True)
                          \<lparr>it_pivot_tid := Some (ABTreeTupleGetMaxHeapTID lastleft)\<rparr>))"

section \<open>Sizes\<close>

text \<open>The size of the key part of a tuple that \<^verbatim>\<open>index_form_tuple\<close> makes of some columns.\<close>

definition form_size :: "FormData_pg_attribute list \<Rightarrow> Datum option list \<Rightarrow> nat" where
  "form_size desc vals =
     MAXALIGN (IndexInfoFindDataOffset (if list_ex (\<lambda>v. v = None) vals then INDEX_NULL_MASK else 0)
       + heap_compute_data_size desc vals 0)"

lemma align_ge: "n \<le> att_align_nominal n a"
proof -
  have "n \<le> (n + 7) div 8 * 8" "n \<le> (n + 3) div 4 * 4" "n \<le> (n + 1) div 2 * 2" by presburger+
  then show ?thesis by (simp add: att_align_nominal_def INTALIGN_def SHORTALIGN_def MAXALIGN_def)
qed

lemma data_size_ge: "n \<le> heap_compute_data_size desc vals n"
proof (induction desc vals n rule: heap_compute_data_size.induct)
  case (1 atti atts v vs n)
  have "n \<le> (case v of None \<Rightarrow> n | Some _ \<Rightarrow> att_align_nominal n (attalign atti) + attlen atti)"
    using align_ge [of n "attalign atti"] by (auto split: option.split)
  then show ?case using 1 by simp
qed simp_all

lemma data_size_take: "heap_compute_data_size (take k desc) (take k vals) n \<le> heap_compute_data_size desc vals n"
proof (induction desc vals n arbitrary: k rule: heap_compute_data_size.induct)
  case (1 atti atts v vs n)
  show ?case
  proof (cases k)
    case 0
    then show ?thesis using data_size_ge [of n "atti # atts" "v # vs"] by simp
  next
    case (Suc j)
    then show ?thesis using 1 [of j] by simp
  qed
qed (use data_size_ge in simp_all)

lemma MAXALIGN_idem [simp]: "MAXALIGN (MAXALIGN n) = MAXALIGN n"
  by (simp add: MAXALIGN_def)

lemma form_size_take: "form_size (take k desc) (take k vals) \<le> form_size desc vals"
proof -
  have "list_ex (\<lambda>v. v = None) (take k vals) \<Longrightarrow> list_ex (\<lambda>v. v = None) vals"
    by (auto simp: list_ex_iff dest: in_set_takeD)
  then have "IndexInfoFindDataOffset (if list_ex (\<lambda>v. v = None) (take k vals) then INDEX_NULL_MASK else 0)
      \<le> IndexInfoFindDataOffset (if list_ex (\<lambda>v. v = None) vals then INDEX_NULL_MASK else 0)"
    by (auto simp: IndexInfoFindDataOffset_def INDEX_NULL_MASK_def MAXALIGN_def sizeof_IndexTupleData_def
        sizeof_IndexAttributeBitMapData_def INDEX_MAX_KEYS_def)
  then show ?thesis unfolding form_size_def by (intro MAXALIGN_mono add_mono data_size_take)
qed
section \<open>The shape of a truncated tuple\<close>

text \<open>The key part of a leaf tuple, and a tuple whose key part was formed from its columns.\<close>

definition key_size :: "ABTCachedAggInfo \<Rightarrow> IndexTupleData \<Rightarrow> nat" where
  "key_size agg_info t = (if ABTreeTupleIsPosting t then ABTreeTupleGetPostingOffset t
                          else IndexTupleSize t - extra_space_for_nonpivot_tuple agg_info)"

definition formed_tuple :: "index_rel \<Rightarrow> FormData_pg_attribute list \<Rightarrow> ABTCachedAggInfo \<Rightarrow> IndexTupleData \<Rightarrow> bool" where
  "formed_tuple rel desc agg_info t =
     (\<not> ABTreeTupleIsPivot t \<and> length desc = rd_natts rel \<and> length (it_attrs t) = rd_natts rel
      \<and> key_size agg_info t = form_size desc (it_attrs t)
      \<and> (\<forall>i<rd_natts rel. map_option (store_att_byval (attlen (desc ! i))) (it_attrs t ! i) = it_attrs t ! i))"

lemma getattr_nth: "a \<le> length (it_attrs t) \<Longrightarrow> 1 \<le> a \<Longrightarrow> index_getattr t a = it_attrs t ! (a - 1)"
  by (simp add: index_getattr_def)

lemma deform_take:
  assumes "length (it_attrs t) = length desc"
  shows "index_deform_tuple t (take k desc) = take k (it_attrs t)"
  using assms by (auto simp: index_deform_tuple_def index_getattr_def intro!: nth_equalityI)

lemma form_tuple_shape:
  assumes "length desc \<le> INDEX_MAX_KEYS" "length vals = length desc" "form_size desc vals < 2 ^ 13"
    and stored: "\<And>i. i < length desc \<Longrightarrow> map_option (store_att_byval (attlen (desc ! i))) (vals ! i) = vals ! i"
  obtains t where "index_form_tuple desc vals = Some t" "it_attrs t = vals" "IndexTupleSize t = form_size desc vals"
proof -
  define m where "m = (if list_ex (\<lambda>v. v = None) vals then INDEX_NULL_MASK else 0)"
  have sz: "MAXALIGN (MAXALIGN (IndexInfoFindDataOffset m + heap_compute_data_size desc vals 0) + 0) = form_size desc vals"
    by (simp add: form_size_def m_def)
  have mask: "unat INDEX_SIZE_MASK = 8191" by (simp add: INDEX_SIZE_MASK_def)
  define t where "t = \<lparr>t_tid = ItemPointer 0 0, t_info = m OR of_nat (form_size desc vals),
      it_attrs = map2 (\<lambda>att v. map_option (store_att_byval (attlen att)) v) desc vals,
      it_htids = [], it_aggs = [], it_xmins = [], it_last_update_id = 0, it_pivot_tid = None\<rparr>"
  have "index_form_tuple desc vals = Some t"
    unfolding index_form_tuple_def index_form_tuple_with_extra_def Let_def m_def [symmetric] sz if_P [OF refl] t_def
    using assms(1,3) mask by simp
  moreover have "it_attrs t = vals"
    using assms(2) stored by (auto simp: t_def intro!: nth_equalityI)
  moreover have "IndexTupleSize t = form_size desc vals"
  proof -
    have "bit INDEX_NULL_MASK n \<longleftrightarrow> n = 15" for n
    proof -
      have m: "INDEX_NULL_MASK = 2 ^ 15" by (simp add: INDEX_NULL_MASK_def)
      show ?thesis unfolding m bit_exp_iff by auto
    qed
    then have "(m OR of_nat (form_size desc vals)) AND INDEX_SIZE_MASK = (of_nat (form_size desc vals) :: 16 word)"
      using not_bit_of_nat [OF assms(3), where 'a = 16]
      by (auto simp: m_def word_eq_bits bit_simps not_le) (meson not_le)+
    then show ?thesis using assms(3) by (simp add: IndexTupleSize_def t_def unat_of_nat_small)
  qed
  ultimately show ?thesis by (rule that)
qed

lemma SetNAtts_sel [simp]:
  "it_attrs (ABTreeTupleSetNAtts t n b) = it_attrs t" "it_pivot_tid (ABTreeTupleSetNAtts t n b) = it_pivot_tid t"
  "index_getattr (ABTreeTupleSetNAtts t n b) a = index_getattr t a"
  by (simp_all add: ABTreeTupleSetNAtts_def index_getattr_def)

lemma SetNAtts_size [simp]: "IndexTupleSize (ABTreeTupleSetNAtts t n b) = IndexTupleSize t"
proof -
  have "(t_info t OR ABT_INDEX_ALT_TID_MASK) AND INDEX_SIZE_MASK = t_info t AND INDEX_SIZE_MASK"
    by (auto simp: word_eq_bits bit_simps)
  then show ?thesis by (simp add: IndexTupleSize_def ABTreeTupleSetNAtts_def)
qed

lemma pivot_tid_update [simp]:
  "ABTreeTupleIsPivot (t\<lparr>it_pivot_tid := p\<rparr>) = ABTreeTupleIsPivot t"
  "ABTPivotTupleHasHeapTID (t\<lparr>it_pivot_tid := p\<rparr>) = ABTPivotTupleHasHeapTID t"
  "ABTreeTupleGetNAtts n (t\<lparr>it_pivot_tid := p\<rparr>) = ABTreeTupleGetNAtts n t"
  by (simp_all add: ABTreeTupleIsPivot_def ABTPivotTupleHasHeapTID_def ABTreeTupleGetNAtts_def)

lemma SetNAtts_HeapTID:
  assumes "n < 2 ^ 12"
  shows "ABTreeTupleGetHeapTID ((ABTreeTupleSetNAtts t n b)\<lparr>it_pivot_tid := p\<rparr>) = (if b then p else None)"
    "ABTreeTupleGetHeapTID (ABTreeTupleSetNAtts t n False) = None"
  using SetNAtts_IsPivot [OF assms, of t] SetNAtts_HasHeapTID [OF assms, of t]
  by (simp_all add: ABTreeTupleGetHeapTID_def flip: ABTPivotTupleHasHeapTID_def)

lemma truncated_shape:
  assumes "formed_tuple rel desc agg_info firstright" "rd_nkeyatts rel \<le> rd_natts rel" "rd_natts rel \<le> INDEX_MAX_KEYS"
    and room: "key_size agg_info firstright + MAXALIGN sizeof_ItemPointerData < 2 ^ 13"
    and k: "k = abt_keep_natts rel lastleft firstright key"
  shows "\<exists>pivot. abt_truncate rel desc lastleft firstright key agg_info = Some pivot
    \<and> ABTreeTupleIsPivot pivot \<and> ABTreeTupleGetNAtts (rd_natts rel) pivot = min k (rd_nkeyatts rel)
    \<and> (\<forall>i<min k (rd_nkeyatts rel). index_getattr pivot (i + 1) = index_getattr firstright (i + 1))
    \<and> ABTreeTupleGetHeapTID pivot = (if k \<le> rd_nkeyatts rel then None else Some (ABTreeTupleGetMaxHeapTID lastleft))
    \<and> IndexTupleSize pivot \<le> key_size agg_info firstright + (if k \<le> rd_nkeyatts rel then 0 else MAXALIGN sizeof_ItemPointerData)
    \<and> IndexTupleSize pivot mod 8 = 0"
proof -
  let ?nk = "rd_nkeyatts rel"
  have f: "length desc = rd_natts rel" "length (it_attrs firstright) = rd_natts rel"
    "key_size agg_info firstright = form_size desc (it_attrs firstright)"
    using assms(1) by (simp_all add: formed_tuple_def)
  have stored: "map_option (store_att_byval (attlen (desc ! i))) (it_attrs firstright ! i) = it_attrs firstright ! i"
    if "i < rd_natts rel" for i using assms(1) that by (simp add: formed_tuple_def)
  have nk: "?nk < 2 ^ 12" using assms(2,3) by (simp add: INDEX_MAX_KEYS_def)
  have mod8: "key_size agg_info firstright mod 8 = 0" unfolding f(3) form_size_def by simp
  have m6: "MAXALIGN sizeof_ItemPointerData = 8" by (simp add: MAXALIGN_def sizeof_ItemPointerData_def)
  show ?thesis
  proof (cases "k < ?nk")
    case True
    let ?d = "take k desc" and ?v = "take k (it_attrs firstright)"
    have le: "form_size ?d ?v \<le> key_size agg_info firstright" unfolding f(3) by (rule form_size_take)
    obtain t where t: "index_form_tuple ?d ?v = Some t" "it_attrs t = ?v" "IndexTupleSize t = form_size ?d ?v"
    proof (rule form_tuple_shape)
      show "length ?d \<le> INDEX_MAX_KEYS" "length ?v = length ?d" using f assms(2,3) True by simp_all
      show "form_size ?d ?v < 2 ^ 13" using le room by linarith
      show "map_option (store_att_byval (attlen (?d ! i))) (?v ! i) = ?v ! i" if "i < length ?d" for i
        using that stored [of i] f by simp
    qed
    define p where "p = ABTreeTupleSetNAtts (t\<lparr>t_tid := t_tid firstright\<rparr>) k False"
    have "index_truncate_tuple desc firstright k = Some (t\<lparr>t_tid := t_tid firstright\<rparr>)"
      using t(1) True assms(2) f by (simp add: index_truncate_tuple_def deform_take)
    then have "abt_truncate rel desc lastleft firstright key agg_info = Some p"
      using True unfolding abt_truncate_def Let_def k [symmetric] p_def by simp
    moreover have "index_getattr p (i + 1) = index_getattr firstright (i + 1)" if "i < k" for i
      using that t(2) True f assms(2) by (simp add: p_def index_getattr_def)
    moreover have "IndexTupleSize p = form_size ?d ?v"
      unfolding p_def SetNAtts_size using t(3) by (simp add: IndexTupleSize_def)
    moreover have "form_size ?d ?v mod 8 = 0" by (simp add: form_size_def)
    ultimately show ?thesis
      using True nk le SetNAtts_IsPivot [of k] SetNAtts_GetNAtts [of k] SetNAtts_HeapTID(2) [of k]
      by (auto simp: p_def)
  next
    case False
    define sz where "sz = key_size agg_info firstright + (if k \<le> ?nk then 0 else MAXALIGN sizeof_ItemPointerData)"
    define t where "t = set_tuple_size sz (firstright\<lparr>it_htids := [], it_aggs := [], it_xmins := []\<rparr>)"
    define p where "p = (if k \<le> ?nk then ABTreeTupleSetNAtts t k False
        else (ABTreeTupleSetNAtts t ?nk True)\<lparr>it_pivot_tid := Some (ABTreeTupleGetMaxHeapTID lastleft)\<rparr>)"
    have s13: "sz < 2 ^ 13" using room by (simp add: sz_def split: if_splits)
    have tr: "abt_truncate rel desc lastleft firstright key agg_info = Some p"
      using False unfolding abt_truncate_def Let_def k [symmetric] p_def t_def sz_def key_size_def by simp
    have at: "index_getattr p a = index_getattr firstright a" for a
      by (simp add: p_def t_def set_tuple_size_def index_getattr_def)
    have "IndexTupleSize p = IndexTupleSize t"
      using SetNAtts_size [of t k False] SetNAtts_size [of t ?nk True] unfolding p_def by (simp add: IndexTupleSize_def)
    also have "\<dots> = sz" unfolding t_def by (rule set_tuple_size_size [OF s13])
    finally have sp: "IndexTupleSize p = sz" .
    have "sz mod 8 = 0" using mod8 m6 by (simp add: sz_def mod_add_left_eq [symmetric])
    moreover have "ABTreeTupleIsPivot p" "ABTreeTupleGetNAtts (rd_natts rel) p = min k ?nk"
      "ABTreeTupleGetHeapTID p = (if k \<le> ?nk then None else Some (ABTreeTupleGetMaxHeapTID lastleft))"
      using False nk SetNAtts_IsPivot [OF nk, of t] SetNAtts_GetNAtts [OF nk, of "rd_natts rel" t] SetNAtts_HeapTID [OF nk, where t = t]
      by (auto simp: p_def not_less)
    ultimately show ?thesis using tr at sp by (auto simp: sz_def)
  qed
qed
section \<open>The columns that are kept\<close>

text \<open>The scan key that the callers pass, for an index of the current version.\<close>

definition truncation_key :: "index_rel \<Rightarrow> ABTScanInsertData \<Rightarrow> bool" where
  "truncation_key rel key = (heapkeyspace key \<and> length (scankeys key) = rd_nkeyatts rel
     \<and> (\<forall>i<rd_nkeyatts rel. wf_scankey rel i (scankeys key ! i)))"

lemma mkscankey_truncation_key: "truncation_key rel (abt_mkscankey rel True aei (Some t))"
  by (simp add: truncation_key_def abt_mkscankey_def Let_def mkscankey_entry_wf)

definition atts_differ :: "ScanKeyData list \<Rightarrow> IndexTupleData \<Rightarrow> IndexTupleData \<Rightarrow> nat \<Rightarrow> bool" where
  "atts_differ sks l r i =
     (case (index_getattr l (i + 1), index_getattr r (i + 1)) of
        (None, None) \<Rightarrow> False | (Some a, Some b) \<Rightarrow> sk_func (sks ! i) a b \<noteq> 0 | _ \<Rightarrow> True)"

lemma keep_natts_loop_spec:
  assumes "length sks = n" "j \<le> n"
  shows "\<exists>k. keep_natts_loop (drop j sks) l r [Suc j..<Suc n] (Suc j) = Suc k \<and> j \<le> k \<and> k \<le> n
    \<and> (\<forall>i\<in>{j..<k}. \<not> atts_differ sks l r i) \<and> (k < n \<longrightarrow> atts_differ sks l r k)"
  using assms(2)
proof (induction "n - j" arbitrary: j)
  case 0
  then have "j = n" by simp
  then show ?case using assms(1) by (intro exI [of _ n]) simp
next
  case (Suc d)
  then have j: "j < n" by simp
  then have d: "drop j sks = sks ! j # drop (Suc j) sks" "[Suc j..<Suc n] = Suc j # [Suc (Suc j)..<Suc n]"
    using assms(1) by (simp_all add: Cons_nth_drop_Suc upt_rec)
  show ?case
  proof (cases "atts_differ sks l r j")
    case True
    then have "keep_natts_loop (drop j sks) l r [Suc j..<Suc n] (Suc j) = Suc j"
      unfolding d by (auto simp: atts_differ_def Let_def split: option.splits)
    then show ?thesis using True j by (intro exI [of _ j]) simp
  next
    case False
    then have "keep_natts_loop (drop j sks) l r [Suc j..<Suc n] (Suc j)
        = keep_natts_loop (drop (Suc j) sks) l r [Suc (Suc j)..<Suc n] (Suc (Suc j))"
      unfolding d by (auto simp: atts_differ_def Let_def split: option.splits)
    moreover obtain k where "keep_natts_loop (drop (Suc j) sks) l r [Suc (Suc j)..<Suc n] (Suc (Suc j)) = Suc k" "Suc j \<le> k" "k \<le> n"
      "\<forall>i\<in>{Suc j..<k}. \<not> atts_differ sks l r i" "k < n \<longrightarrow> atts_differ sks l r k"
    proof -
      have d1: "d = n - Suc j" "Suc j \<le> n" using Suc.hyps(2) j by simp_all
      show ?thesis using Suc.hyps(1) [OF d1] that by blast
    qed
    ultimately show ?thesis using False
      by (intro exI [of _ k]) (auto simp: Suc_le_eq le_less)
  qed
qed

lemma atts_differ_col_cmp:
  assumes "wf_rel rel" "i < rd_nkeyatts rel" "wf_scankey rel i (sks ! i)"
    and "i < ABTreeTupleGetNAtts (rd_natts rel) l" "i < ABTreeTupleGetNAtts (rd_natts rel) r"
  shows "atts_differ sks l r i \<longleftrightarrow> col_cmp rel i (tuple_att rel l i) (tuple_att rel r i) \<noteq> 0"
proof -
  have "qsort_order (rd_orderproc rel ! i) UNIV" using assms(1,2) by (auto simp: wf_rel_def)
  then have z: "(rd_orderproc rel ! i) a b = 0 \<longleftrightarrow> (rd_orderproc rel ! i) b a = 0" for a b
    by (rule qsort_order.cmp_zero_sym) simp_all
  have inv: "INVERT_COMPARE_RESULT x = 0 \<longleftrightarrow> x = 0" for x by (simp add: INVERT_COMPARE_RESULT_def)
  have f: "sk_func (sks ! i) = rd_orderproc rel ! i" using assms(3) by (simp add: wf_scankey_def)
  show ?thesis
    using assms(4,5) z by (auto simp: atts_differ_def tuple_att_def col_cmp_def f inv split: option.splits)
qed

lemma keep_natts_spec:
  assumes "wf_rel rel" "truncation_key rel key" "\<not> ABTreeTupleIsPivot l" "\<not> ABTreeTupleIsPivot r"
    and k: "k = abt_keep_natts rel l r key"
  shows "1 \<le> k" "k \<le> Suc (rd_nkeyatts rel)" "tuple_cmp rel l r (k - 1) = 0"
    "k \<le> rd_nkeyatts rel \<Longrightarrow> tuple_cmp rel l r k \<noteq> 0"
proof -
  let ?n = "rd_nkeyatts rel"
  have key: "length (scankeys key) = ?n" "heapkeyspace key" "\<And>i. i < ?n \<Longrightarrow> wf_scankey rel i (scankeys key ! i)"
    using assms(2) by (simp_all add: truncation_key_def)
  have na: "ABTreeTupleGetNAtts (rd_natts rel) l = rd_natts rel" "ABTreeTupleGetNAtts (rd_natts rel) r = rd_natts rel" "?n \<le> rd_natts rel"
    using assms(1,3,4) by (simp_all add: ABTreeTupleGetNAtts_def wf_rel_def)
  have D: "atts_differ (scankeys key) l r i \<longleftrightarrow> col_cmp rel i (tuple_att rel l i) (tuple_att rel r i) \<noteq> 0" if "i < ?n" for i
    by (rule atts_differ_col_cmp [OF assms(1) that key(3) [OF that]]) (use na that in simp_all)
  obtain j where j: "k = Suc j" "j \<le> ?n" "\<And>i. i < j \<Longrightarrow> \<not> atts_differ (scankeys key) l r i"
    "j < ?n \<Longrightarrow> atts_differ (scankeys key) l r j"
    using keep_natts_loop_spec [OF key(1), of 0 l r] key(2) unfolding k abt_keep_natts_def by auto
  then show "1 \<le> k" "k \<le> Suc ?n" by simp_all
  have z: "tuple_cmp rel l r j = 0"
    unfolding tuple_cmp_def by (rule lex_all_zero) (use j D in auto)
  then show "tuple_cmp rel l r (k - 1) = 0" by (simp add: j)
  show "tuple_cmp rel l r k \<noteq> 0" if "k \<le> ?n"
    using z j(4) D [of j] that by (simp add: j(1) tuple_cmp_def)
qed

section \<open>Separation\<close>

lemma leaf_tuple_HeapTID: "\<not> ABTreeTupleIsPivot t \<Longrightarrow> \<exists>h. ABTreeTupleGetHeapTID t = Some h"
  by (simp add: ABTreeTupleGetHeapTID_def)

lemma lex_neginf_neg:
  assumes "m < n" "lex_sign (\<lambda>i. col_cmp rel i (x i) (y i)) m = 0" "x m = NegInf" "y m \<noteq> NegInf"
  shows "lex_sign (\<lambda>i. col_cmp rel i (x i) (y i)) n < 0"
proof -
  have "col_cmp rel m (x m) (y m) < 0" using assms(3,4) by (cases "y m") (simp_all add: col_cmp_def)
  then have "lex_sign (\<lambda>i. col_cmp rel i (x i) (y i)) (Suc m) < 0" using assms(2) by simp
  then show ?thesis using lex_prefix [of "Suc m" n] assms(1) by (metis Suc_leI less_irrefl)
qed

text \<open>The kept columns make the high key at least the last left and less than the first right tuple.\<close>

lemma truncated_between:
  assumes "wf_rel rel" "truncation_key rel key" "\<not> ABTreeTupleIsPivot l" "\<not> ABTreeTupleIsPivot r" "wf_item l"
    and lr: "tuple_before rel l r" and k: "k = abt_keep_natts rel l r key"
    and p: "ABTreeTupleIsPivot p" "ABTreeTupleGetNAtts (rd_natts rel) p = min k (rd_nkeyatts rel)"
      "\<And>i. i < min k (rd_nkeyatts rel) \<Longrightarrow> index_getattr p (i + 1) = index_getattr r (i + 1)"
      "ABTreeTupleGetHeapTID p = (if k \<le> rd_nkeyatts rel then None else Some (ABTreeTupleGetMaxHeapTID l))"
  shows "tuple_le rel l p" "tuple_before rel p r"
proof -
  let ?n = "rd_nkeyatts rel"
  note K = keep_natts_spec [OF assms(1-4) k]
  have nr: "ABTreeTupleGetNAtts (rd_natts rel) r = rd_natts rel" "?n \<le> rd_natts rel"
    using assms(1,4) by (simp_all add: ABTreeTupleGetNAtts_def wf_rel_def)
  have same: "tuple_att rel p i = tuple_att rel r i" if "i < min k ?n" for i
    using that p(2,3) nr by (simp add: tuple_att_def)
  have neg: "tuple_att rel p i = NegInf" if "min k ?n \<le> i" for i using that p(2) by (auto simp: tuple_att_def)
  have lp: "tuple_cmp rel l p m = tuple_cmp rel l r m" if "m \<le> min k ?n" for m
    unfolding tuple_cmp_def by (rule lex_cong) (use that same in simp)
  have pr0: "tuple_cmp rel p r (min k ?n) = 0"
    unfolding tuple_cmp_def by (rule lex_all_zero) (simp add: same col_cmp_refl [OF assms(1)])
  have np: "\<not> ABTreeTupleIsPosting p" using p(1) not_pivot_if_posting by blast
  obtain hr hl where hr: "ABTreeTupleGetHeapTID r = Some hr" and hl: "ABTreeTupleGetHeapTID l = Some hl"
    using leaf_tuple_HeapTID assms(3,4) by blast
  have ml: "max_tid l = ABTreeTupleGetMaxHeapTID l"
    using hl assms(3) by (auto simp: max_tid_def ABTreeTupleGetMaxHeapTID_def ABTreeTupleGetHeapTID_def split: if_splits)
  show "tuple_le rel l p"
  proof (cases "k \<le> ?n")
    case True
    have "tuple_cmp rel l r k < 0"
    proof -
      have "tuple_cmp rel l r ?n \<le> 0" using lr by (auto simp: tuple_before_def Let_def)
      then have "tuple_cmp rel l r k \<le> 0" by (rule tuple_cmp_prefix [OF True])
      then show ?thesis using K(4) [OF True] by simp
    qed
    then have "tuple_cmp rel l p k < 0" using lp [of k] True by simp
    then have "tuple_cmp rel l p ?n < 0" unfolding tuple_cmp_def using lex_prefix [OF True] by (metis less_irrefl)
    then show ?thesis using assms(5) by (simp add: tuple_le_def tuple_before_def)
  next
    case False
    then have kn: "k = Suc ?n" using K(2) by simp
    then have "tuple_cmp rel l p ?n = 0" using K(3) lp [of ?n] by simp
    then have "tid_bound rel l p" using np hl p(4) False ml by (simp add: tid_bound_def)
    then show ?thesis using assms(5) by (simp add: tuple_le_def)
  qed
  show "tuple_before rel p r"
  proof (cases "k < ?n")
    case True
    have "tuple_cmp rel p r ?n < 0"
      unfolding tuple_cmp_def
      by (rule lex_neginf_neg [OF True]) (use pr0 True neg [of k] nr in \<open>simp_all add: tuple_cmp_def tuple_att_def\<close>)
    then show ?thesis by (simp add: tuple_before_def)
  next
    case False
    then have z: "tuple_cmp rel p r ?n = 0" using pr0 by (simp add: min_def split: if_splits)
    have "tids_before p r"
    proof (cases "k \<le> ?n")
      case True
      then show ?thesis using p(4) hr by (simp add: tids_before_def)
    next
      case gt: False
      then have "tuple_cmp rel l r ?n = 0" using K(2,3) by (simp add: not_le le_Suc_eq)
      then have "max_tid l < hr" using lr hr hl by (simp add: tuple_before_def tids_before_def)
      then show ?thesis using p(4) gt hr np ml by (simp add: tids_before_def max_tid_def)
    qed
    then show ?thesis using z by (simp add: tuple_before_def)
  qed
qed
section \<open>Properties\<close>

definition ex_desc :: "FormData_pg_attribute list" where
  "ex_desc = [\<lparr>attlen = 4, attalign = CHR ''i''\<rparr>, \<lparr>attlen = 4, attalign = CHR ''i''\<rparr>]"

text \<open>C18. Truncation always yields a high key that separates the two tuples, for every search: a search
  moves right past a page with this high key only when its position is after the last left tuple, and
  whenever its position is after the first right tuple. The high key keeps at least one column, none
  beyond the first one in which the tuples differ, and is at most a heap TID larger than the key part of
  the first right tuple.\<close>

theorem abt_truncate_separates:
  assumes "wf_rel rel" "rd_natts rel \<le> INDEX_MAX_KEYS" "1 \<le> rd_nkeyatts rel" "truncation_key rel key"
    and "formed_tuple rel desc agg_info firstright" "key_size agg_info firstright + 8 < 2 ^ 13" "wf_item firstright"
    and "\<not> ABTreeTupleIsPivot lastleft" "wf_item lastleft" "tuple_before rel lastleft firstright"
  shows "\<exists>pivot. abt_truncate rel desc lastleft firstright key agg_info = Some pivot
    \<and> ABTreeTupleIsPivot pivot \<and> ABTreeTupleGetNAtts (rd_natts rel) pivot \<in> {1..rd_nkeyatts rel}
    \<and> tuple_cmp rel lastleft firstright (ABTreeTupleGetNAtts (rd_natts rel) pivot - 1) = 0
    \<and> IndexTupleSize pivot \<le> key_size agg_info firstright + 8 \<and> IndexTupleSize pivot mod 8 = 0
    \<and> (\<forall>search page c. wf_key rel search \<and> \<not> ABT_P_RIGHTMOST (pd_special page)
         \<and> PageGetItem page ABTP_HIKEY = pivot \<and> c = (if nextkey search then 0 else 1) \<longrightarrow>
           (c \<le> abt_compare rel search page ABTP_HIKEY \<longrightarrow> c \<le> key_tuple_cmp rel search lastleft)
         \<and> (c \<le> key_tuple_cmp rel search firstright \<longrightarrow> c \<le> abt_compare rel search page ABTP_HIKEY))"
proof -
  let ?n = "rd_nkeyatts rel"
  define k where "k = abt_keep_natts rel lastleft firstright key"
  have np: "\<not> ABTreeTupleIsPivot firstright" using assms(5) by (simp add: formed_tuple_def)
  have m6: "MAXALIGN sizeof_ItemPointerData = 8" by (simp add: MAXALIGN_def sizeof_ItemPointerData_def)
  have nk: "?n \<le> rd_natts rel" using assms(1) by (simp add: wf_rel_def)
  obtain pivot where p: "abt_truncate rel desc lastleft firstright key agg_info = Some pivot"
    "ABTreeTupleIsPivot pivot" "ABTreeTupleGetNAtts (rd_natts rel) pivot = min k ?n"
    "\<And>i. i < min k ?n \<Longrightarrow> index_getattr pivot (i + 1) = index_getattr firstright (i + 1)"
    "ABTreeTupleGetHeapTID pivot = (if k \<le> ?n then None else Some (ABTreeTupleGetMaxHeapTID lastleft))"
    "IndexTupleSize pivot \<le> key_size agg_info firstright + (if k \<le> ?n then 0 else 8)" "IndexTupleSize pivot mod 8 = 0"
    using truncated_shape [OF assms(5) nk assms(2) assms(6) [folded m6] k_def] unfolding m6
    by (elim exE conjE) (rule that, assumption+, simp_all)
  note K = keep_natts_spec [OF assms(1,4,8) np k_def]
  note B = truncated_between [OF assms(1,4,8) np assms(9,10) k_def p(2-5)]
  have sep: "(c \<le> abt_compare rel search page ABTP_HIKEY \<longrightarrow> c \<le> key_tuple_cmp rel search lastleft)
      \<and> (c \<le> key_tuple_cmp rel search firstright \<longrightarrow> c \<le> abt_compare rel search page ABTP_HIKEY)"
    if s: "wf_key rel search" "\<not> ABT_P_RIGHTMOST (pd_special page)" "PageGetItem page ABTP_HIKEY = pivot"
      "c = (if nextkey search then 0 else 1)" for search page c
  proof -
    have e: "abt_compare rel search page ABTP_HIKEY = key_tuple_cmp rel search pivot"
      using compare_hikey [of rel search "\<lambda>_. page" 0] s by (simp add: hikey_def)
    have c: "c = 0 \<or> c = 1" using s(4) by simp
    have "wf_item pivot" using p(2) not_pivot_if_posting by (auto simp: wf_item_def)
    then have "tuple_le rel pivot firstright" using B(2) by (simp add: tuple_le_def)
    then show ?thesis unfolding e using tuple_le_cmp [OF assms(1) s(1) _ c] B(1) by blast
  qed
  have "min k ?n - 1 \<le> k - 1" by simp
  then have "tuple_cmp rel lastleft firstright (min k ?n - 1) = 0" using K(3) by (rule tuple_cmp_prefix_zero)
  moreover have "min k ?n \<in> {1..?n}" using K(1) assms(3) by simp
  moreover have "IndexTupleSize pivot \<le> key_size agg_info firstright + 8" using p(6) by (simp split: if_splits)
  moreover have "\<forall>search page c. wf_key rel search \<and> \<not> ABT_P_RIGHTMOST (pd_special page)
         \<and> PageGetItem page ABTP_HIKEY = pivot \<and> c = (if nextkey search then 0 else 1) \<longrightarrow>
           (c \<le> abt_compare rel search page ABTP_HIKEY \<longrightarrow> c \<le> key_tuple_cmp rel search lastleft)
         \<and> (c \<le> key_tuple_cmp rel search firstright \<longrightarrow> c \<le> abt_compare rel search page ABTP_HIKEY)"
    using sep by blast
  ultimately show ?thesis using p(1,2,7) unfolding p(3) [symmetric] by (intro exI [of _ pivot] conjI)
qed

lemma ex_truncation_key: "truncation_key ex_rel ex_key"
  using mkscankey_truncation_key [of ex_rel True "ex_row 2 None 5"] by (simp add: ex_key_def truncation_key_def)

lemma ex_rows_formed:
  "formed_tuple ex_rel ex_desc ex_agg_info (ex_row 2 (Some 7) 2)" "formed_tuple ex_rel ex_desc ex_agg_info (ex_row 2 (Some 4) 9)"
  "key_size ex_agg_info (ex_row 2 (Some 7) 2) = 16" "key_size ex_agg_info (ex_row 2 (Some 4) 9) = 16"
  by code_simp+

theorem abt_truncate_separates_witness:
  "(\<exists>pivot. abt_truncate ex_rel ex_desc (ex_row 1 (Some 9) 5) (ex_row 2 (Some 7) 2) ex_key ex_agg_info = Some pivot
      \<and> ABTreeTupleIsPivot pivot \<and> IndexTupleSize pivot \<le> 24)
   \<and> (\<exists>pivot. abt_truncate ex_rel ex_desc (ex_row 2 (Some 4) 3) (ex_row 2 (Some 4) 9) ex_key ex_agg_info = Some pivot
      \<and> ABTreeTupleIsPivot pivot \<and> IndexTupleSize pivot \<le> 24)"
proof -
  have n: "rd_natts ex_rel \<le> INDEX_MAX_KEYS" "1 \<le> rd_nkeyatts ex_rel" by (simp_all add: ex_rel_def INDEX_MAX_KEYS_def)
  have t: "wf_item (ex_row 2 (Some 7) 2)" "\<not> ABTreeTupleIsPivot (ex_row 1 (Some 9) 5)" "wf_item (ex_row 1 (Some 9) 5)"
    "tuple_before ex_rel (ex_row 1 (Some 9) 5) (ex_row 2 (Some 7) 2)" by code_simp+
  have u: "wf_item (ex_row 2 (Some 4) 9)" "\<not> ABTreeTupleIsPivot (ex_row 2 (Some 4) 3)" "wf_item (ex_row 2 (Some 4) 3)"
    "tuple_before ex_rel (ex_row 2 (Some 4) 3) (ex_row 2 (Some 4) 9)" by code_simp+
  note T = abt_truncate_separates [OF ex_rel_wf n ex_truncation_key]
  show ?thesis
    using T [OF ex_rows_formed(1) _ t] T [OF ex_rows_formed(2) _ u] ex_rows_formed(3,4) by auto
qed

end
