(* ===== verification/Split_Loc.thy ===== *)
theory Split_Loc
  imports Truncate
begin

unbundle bit_operations_syntax

text \<open>
  The choice of a split point (\<^verbatim>\<open>abtsplitloc.c\<close>): every point between two items of the page, the new item
  included, is recorded when both halves fit, then the points are sorted by how evenly they divide the
  free space, and the one with the lowest penalty among the best is taken. Space is counted in 16 bit
  integers as in the source; products with a fill factor or a tolerance are exact and then truncated.
  The lemmas show that every point that can be returned leaves both halves within the page, and that on
  a leaf page whose items obey the limit on tuple sizes there always is one.
\<close>

section \<open>State\<close>

datatype ABTFindSplitStrat = ABT_SPLIT_DEFAULT | ABT_SPLIT_MANY_DUPLICATES | ABT_SPLIT_SINGLE_VALUE

record ABTSplitPoint =
  curdelta :: int
  leftfree :: int
  rightfree :: int
  firstrightoff :: nat
  newitemonleft :: bool

record ABTFindSplitData =
  fs_origpage :: PageData
  fs_newitem :: IndexTupleData
  fs_newitemsz :: nat
  fs_newitem_w_tid :: bool
  fs_is_leaf :: bool
  fs_is_rightmost :: bool
  fs_newitemoff :: nat
  fs_leftspace :: int
  fs_rightspace :: int
  fs_olddataitemstotal :: int
  fs_minfirstrightsz :: nat
  fs_splits :: "ABTSplitPoint list"
  fs_interval :: nat

definition int16 :: "int \<Rightarrow> int" where
  "int16 v = signed_take_bit 15 v"

text \<open>Conversion of an exact quotient to an integer, towards zero.\<close>

definition trunc_div :: "int \<Rightarrow> int \<Rightarrow> int" where
  "trunc_div a b = (if 0 \<le> a then a div b else - ((- a) div b))"

definition ABTREE_NONLEAF_FILLFACTOR :: nat where "ABTREE_NONLEAF_FILLFACTOR = 70"
definition ABTREE_SINGLEVAL_FILLFACTOR :: nat where "ABTREE_SINGLEVAL_FILLFACTOR = 96"

definition item_space :: "PageData \<Rightarrow> nat \<Rightarrow> nat" where
  "item_space page offnum = MAXALIGN (lp_len (PageGetItemId page offnum)) + sizeof_ItemIdData"

section \<open>Recording split points\<close>

text \<open>What the high key of the left page will not need of its first right tuple.\<close>

definition recsplit_postingsz ::
  "ABTFindSplitData \<Rightarrow> nat \<Rightarrow> bool \<Rightarrow> nat \<Rightarrow> ABTCachedAggInfo \<Rightarrow> nat" where
  "recsplit_postingsz state fro onleft firstrightsz agg_info =
     (let newitemisfirstright = (fro = fs_newitemoff state \<and> \<not> onleft);
          tid_space = MAXALIGN sizeof_ItemPointerData
      in if newitemisfirstright then
           if fs_is_leaf state then extra_space_for_nonpivot_tuple agg_info
           else if fs_newitem_w_tid state then extra_space_when_tid_present agg_info - tid_space
           else extra_space_when_tid_missing agg_info
         else if fs_is_leaf state then
           let newhighkey = PageGetItem (fs_origpage state) fro
           in if firstrightsz > 64 \<and> ABTreeTupleIsPosting newhighkey
              then IndexTupleSize newhighkey - ABTreeTupleGetPostingOffset newhighkey else 0
         else min (extra_space_when_tid_present agg_info - tid_space) (extra_space_when_tid_missing agg_info))"

definition abt_recsplitloc ::
  "ABTFindSplitData \<Rightarrow> nat \<Rightarrow> bool \<Rightarrow> int \<Rightarrow> nat \<Rightarrow> ABTCachedAggInfo \<Rightarrow> ABTFindSplitData" where
  "abt_recsplitloc state fro onleft olddataitemstoleft firstrightofforigpagetuplesz agg_info =
     (let firstrightsz = (if fro = fs_newitemoff state \<and> \<not> onleft then fs_newitemsz state
                          else firstrightofforigpagetuplesz);
          postingsz = recsplit_postingsz state fro onleft firstrightsz agg_info;
          lfree = int16 (fs_leftspace state - olddataitemstoleft);
          rfree = int16 (fs_rightspace state - (fs_olddataitemstotal state - olddataitemstoleft));
          lfree = int16 (lfree - int16 (if fs_is_leaf state
                                        then int firstrightsz + int (MAXALIGN sizeof_ItemPointerData) - int postingsz
                                        else int firstrightsz - int postingsz));
          lfree = (if onleft then int16 (lfree - int16 (int (fs_newitemsz state))) else lfree);
          rfree = (if onleft then rfree else int16 (rfree - int16 (int (fs_newitemsz state))));
          rfree = (if fs_is_leaf state then rfree
                   else int16 (rfree + (int16 (int firstrightsz)
                     - int16 (int (MAXALIGN sizeof_IndexTupleData + extra_space_when_tid_missing agg_info + sizeof_ItemIdData)))))
      in if lfree \<ge> 0 \<and> rfree \<ge> 0
         then state\<lparr>fs_minfirstrightsz := min (fs_minfirstrightsz state) firstrightsz,
                    fs_splits := fs_splits state @ [\<lparr>curdelta = 0, leftfree = lfree, rightfree = rfree,
                                                     firstrightoff = fro, newitemonleft = onleft\<rparr>]\<rparr>
         else state)"

text \<open>The scan over the data items of the page.\<close>

fun findsplitloc_scan ::
  "ABTCachedAggInfo \<Rightarrow> nat list \<Rightarrow> int \<Rightarrow> ABTFindSplitData \<Rightarrow> ABTFindSplitData" where
  "findsplitloc_scan agg_info [] olddataitemstoleft state = state"
| "findsplitloc_scan agg_info (offnum # offs) olddataitemstoleft state =
     (let itemsz = item_space (fs_origpage state) offnum;
          state' =
            (if offnum < fs_newitemoff state then
               abt_recsplitloc state offnum False olddataitemstoleft itemsz agg_info
             else if offnum > fs_newitemoff state then
               abt_recsplitloc state offnum True olddataitemstoleft itemsz agg_info
             else
               abt_recsplitloc (abt_recsplitloc state offnum False olddataitemstoleft itemsz agg_info)
                 offnum True olddataitemstoleft itemsz agg_info)
      in findsplitloc_scan agg_info offs (olddataitemstoleft + int itemsz) state')"

section \<open>Sorting split points\<close>

definition abt_splitcmp :: "ABTSplitPoint \<Rightarrow> ABTSplitPoint \<Rightarrow> int" where
  "abt_splitcmp split1 split2 =
     (if curdelta split1 > curdelta split2 then 1
      else if curdelta split1 < curdelta split2 then - 1
      else 0)"

text \<open>\<open>fillfactor\<close> is a percentage.\<close>

definition split_delta :: "nat \<Rightarrow> bool \<Rightarrow> ABTSplitPoint \<Rightarrow> int" where
  "split_delta fillfactor usemult split =
     (let delta = int16 (if usemult
                         then trunc_div (int fillfactor * leftfree split - (100 - int fillfactor) * rightfree split) 100
                         else leftfree split - rightfree split)
      in if delta < 0 then int16 (- delta) else delta)"

definition abt_deltasortsplits :: "ABTFindSplitData \<Rightarrow> nat \<Rightarrow> bool \<Rightarrow> ABTFindSplitData" where
  "abt_deltasortsplits state fillfactor usemult =
     state\<lparr>fs_splits := pg_qsort abt_splitcmp
       (map (\<lambda>split. split\<lparr>curdelta := split_delta fillfactor usemult split\<rparr>) (fs_splits state))\<rparr>"

section \<open>Strategies\<close>

definition abt_adjacenthtid :: "ItemPointerData \<Rightarrow> ItemPointerData \<Rightarrow> bool" where
  "abt_adjacenthtid lowhtid highhtid =
     (if ip_blkid lowhtid = ip_blkid highhtid then True
      else ip_blkid lowhtid + 1 = ip_blkid highhtid \<and> ip_posid highhtid = 1)"

text \<open>\<open>Some usemult\<close> when the optimization applies.\<close>

definition abt_afternewitemoff :: "index_rel \<Rightarrow> ABTFindSplitData \<Rightarrow> nat \<Rightarrow> nat \<Rightarrow> bool option" where
  "abt_afternewitemoff rel state maxoff leaffillfactor =
     (let nkeyatts = rd_nkeyatts rel
      in if nkeyatts = 1 then None
         else if fs_newitemoff state = ABTP_FIRSTKEY then None
         else if fs_newitemsz state \<noteq> fs_minfirstrightsz state then None
         else if int (fs_newitemsz state) * (int maxoff - 1) \<noteq> fs_olddataitemstotal state then None
         else if fs_newitemsz state > MAXALIGN (sizeof_IndexTupleData + 8 * 2) + sizeof_ItemIdData then None
         else if fs_newitemoff state > maxoff then
           let keepnatts = abt_keep_natts_fast nkeyatts (PageGetItem (fs_origpage state) maxoff) (fs_newitem state)
           in if keepnatts > 1 \<and> keepnatts \<le> nkeyatts then Some True else None
         else
           let tup = PageGetItem (fs_origpage state) (fs_newitemoff state - 1)
           in if ABTreeTupleIsPosting tup \<or> \<not> abt_adjacenthtid (t_tid tup) (t_tid (fs_newitem state)) then None
              else
                let keepnatts = abt_keep_natts_fast nkeyatts tup (fs_newitem state)
                in if keepnatts > 1 \<and> keepnatts \<le> nkeyatts
                   then Some (fs_newitemoff state * 100 > leaffillfactor * (maxoff + 1)) else None)"

definition abt_defaultinterval :: "ABTFindSplitData \<Rightarrow> nat" where
  "abt_defaultinterval state =
     (let tolerance = int16 (if fs_is_leaf state then trunc_div (fs_olddataitemstotal state * 50) 1000
                             else trunc_div (fs_olddataitemstotal state * 75) 1000);
          spaceoptimal = fs_splits state ! 0;
          lowleftfree = int16 (leftfree spaceoptimal - tolerance);
          lowrightfree = int16 (rightfree spaceoptimal - tolerance);
          highleftfree = int16 (leftfree spaceoptimal + tolerance);
          highrightfree = int16 (rightfree spaceoptimal + tolerance)
      in 1 + length (takeWhile (\<lambda>split. \<not> (leftfree split < lowleftfree \<or> rightfree split < lowrightfree
                                 \<or> leftfree split > highleftfree \<or> rightfree split > highrightfree))
                       (drop 1 (fs_splits state))))"

fun interval_edges_loop ::
  "ABTSplitPoint \<Rightarrow> ABTSplitPoint list \<Rightarrow> ABTSplitPoint option \<Rightarrow> ABTSplitPoint option
     \<Rightarrow> ABTSplitPoint option \<times> ABTSplitPoint option" where
  "interval_edges_loop deltaoptimal [] leftinterval rightinterval = (leftinterval, rightinterval)"
| "interval_edges_loop deltaoptimal (distant # rest) leftinterval rightinterval =
     (let setl = (if leftinterval = None then Some distant else leftinterval);
          setr = (if rightinterval = None then Some distant else rightinterval);
          (leftinterval, rightinterval) =
            (if firstrightoff distant < firstrightoff deltaoptimal then (setl, rightinterval)
             else if firstrightoff distant > firstrightoff deltaoptimal then (leftinterval, setr)
             else if \<not> newitemonleft distant \<and> newitemonleft deltaoptimal then (setl, rightinterval)
             else if newitemonleft distant \<and> \<not> newitemonleft deltaoptimal then (leftinterval, setr)
             else (setl, setr))
      in if leftinterval \<noteq> None \<and> rightinterval \<noteq> None then (leftinterval, rightinterval)
         else interval_edges_loop deltaoptimal rest leftinterval rightinterval)"

definition abt_interval_edges :: "ABTFindSplitData \<Rightarrow> ABTSplitPoint option \<times> ABTSplitPoint option" where
  "abt_interval_edges state =
     (let highsplit = min (fs_interval state) (length (fs_splits state))
      in interval_edges_loop (fs_splits state ! 0) (rev (take highsplit (fs_splits state))) None None)"

definition abt_split_lastleft :: "ABTFindSplitData \<Rightarrow> ABTSplitPoint \<Rightarrow> IndexTupleData" where
  "abt_split_lastleft state split =
     (if newitemonleft split \<and> firstrightoff split = fs_newitemoff state then fs_newitem state
      else PageGetItem (fs_origpage state) (firstrightoff split - 1))"

definition abt_split_firstright :: "ABTFindSplitData \<Rightarrow> ABTSplitPoint \<Rightarrow> IndexTupleData" where
  "abt_split_firstright state split =
     (if \<not> newitemonleft split \<and> firstrightoff split = fs_newitemoff state then fs_newitem state
      else PageGetItem (fs_origpage state) (firstrightoff split))"

definition abt_split_penalty :: "index_rel \<Rightarrow> ABTFindSplitData \<Rightarrow> ABTSplitPoint \<Rightarrow> nat" where
  "abt_split_penalty rel state split =
     (if \<not> fs_is_leaf state then
        if \<not> newitemonleft split \<and> firstrightoff split = fs_newitemoff state then fs_newitemsz state
        else item_space (fs_origpage state) (firstrightoff split)
      else abt_keep_natts_fast (rd_nkeyatts rel) (abt_split_lastleft state split) (abt_split_firstright state split))"

text \<open>\<open>None\<close> is the use of a missing edge. The result is the perfect penalty and the strategy.\<close>

definition abt_strategy ::
  "index_rel \<Rightarrow> ABTFindSplitData \<Rightarrow> ABTSplitPoint \<Rightarrow> ABTSplitPoint \<Rightarrow> (nat \<times> ABTFindSplitStrat) option" where
  "abt_strategy rel state leftpage rightpage =
     (let indnkeyatts = rd_nkeyatts rel
      in if \<not> fs_is_leaf state then Some (fs_minfirstrightsz state, ABT_SPLIT_DEFAULT)
         else case abt_interval_edges state of
           (Some leftinterval, Some rightinterval) \<Rightarrow>
             let perfectpenalty = abt_keep_natts_fast indnkeyatts (abt_split_lastleft state leftinterval)
                                    (abt_split_firstright state rightinterval)
             in Some (if perfectpenalty \<le> indnkeyatts then (perfectpenalty, ABT_SPLIT_DEFAULT)
                else
                  let perfectpenalty = abt_keep_natts_fast indnkeyatts (abt_split_lastleft state leftpage)
                                         (abt_split_firstright state rightpage)
                  in if perfectpenalty \<le> indnkeyatts then (indnkeyatts, ABT_SPLIT_MANY_DUPLICATES)
                     else if fs_is_rightmost state then (perfectpenalty, ABT_SPLIT_SINGLE_VALUE)
                     else
                       let hikey = PageGetItem (fs_origpage state) ABTP_HIKEY;
                           perfectpenalty = abt_keep_natts_fast indnkeyatts hikey (fs_newitem state)
                       in (perfectpenalty,
                           if perfectpenalty \<le> indnkeyatts then ABT_SPLIT_SINGLE_VALUE else ABT_SPLIT_DEFAULT))
         | _ \<Rightarrow> None)"

section \<open>The best split point\<close>

definition INT_MAX :: nat where "INT_MAX = 2147483647"

fun best_split_loop :: "index_rel \<Rightarrow> ABTFindSplitData \<Rightarrow> nat \<Rightarrow> nat list \<Rightarrow> nat \<Rightarrow> nat \<Rightarrow> nat" where
  "best_split_loop rel state perfectpenalty [] bestpenalty lowsplit = lowsplit"
| "best_split_loop rel state perfectpenalty (i # is) bestpenalty lowsplit =
     (let penalty = abt_split_penalty rel state (fs_splits state ! i);
          (bestpenalty, lowsplit) = (if penalty < bestpenalty then (penalty, i) else (bestpenalty, lowsplit))
      in if penalty \<le> perfectpenalty then lowsplit
         else best_split_loop rel state perfectpenalty is bestpenalty lowsplit)"

definition abt_bestsplitloc ::
  "index_rel \<Rightarrow> ABTFindSplitData \<Rightarrow> nat \<Rightarrow> ABTFindSplitStrat \<Rightarrow> nat \<times> bool" where
  "abt_bestsplitloc rel state perfectpenalty strategy =
     (let highsplit = min (fs_interval state) (length (fs_splits state));
          final = fs_splits state ! best_split_loop rel state perfectpenalty [0..<highsplit] INT_MAX 0;
          final = (if strategy = ABT_SPLIT_MANY_DUPLICATES \<and> \<not> fs_is_rightmost state
                      \<and> \<not> newitemonleft final \<and> firstrightoff final \<ge> fs_newitemoff state
                      \<and> firstrightoff final < fs_newitemoff state + 9
                   then fs_splits state ! 0 else final)
      in (firstrightoff final, newitemonleft final))"

section \<open>Finding the split location\<close>

definition findsplitloc_init ::
  "PageData \<Rightarrow> nat \<Rightarrow> nat \<Rightarrow> IndexTupleData \<Rightarrow> ABTFindSplitData" where
  "findsplitloc_init origpage newitemoff newitemsz newitem =
     (let opaque = pd_special origpage;
          leftspace = int BLCKSZ - int SizeOfPageHeaderData - int (MAXALIGN sizeof_ABTPageOpaqueData);
          rightspace = (if ABT_P_RIGHTMOST opaque then leftspace
                        else leftspace - int (item_space origpage ABTP_HIKEY))
      in \<lparr>fs_origpage = origpage, fs_newitem = newitem, fs_newitemsz = newitemsz + sizeof_ItemIdData,
          fs_newitem_w_tid = (\<not> ABT_P_ISLEAF opaque \<and> ABTPivotTupleHasHeapTID newitem),
          fs_is_leaf = ABT_P_ISLEAF opaque, fs_is_rightmost = ABT_P_RIGHTMOST opaque,
          fs_newitemoff = newitemoff, fs_leftspace = leftspace, fs_rightspace = rightspace,
          fs_olddataitemstotal = rightspace - int (PageGetExactFreeSpace origpage),
          fs_minfirstrightsz = 18446744073709551615, fs_splits = [], fs_interval = 0\<rparr>)"

definition findsplitloc_record ::
  "ABTCachedAggInfo \<Rightarrow> ABTFindSplitData \<Rightarrow> ABTFindSplitData" where
  "findsplitloc_record agg_info state =
     (let maxoff = PageGetMaxOffsetNumber (fs_origpage state);
          state = findsplitloc_scan agg_info
                    [ABT_P_FIRSTDATAKEY (pd_special (fs_origpage state))..<Suc maxoff] 0 state
      in if fs_newitemoff state > maxoff
         then abt_recsplitloc state (fs_newitemoff state) False (fs_olddataitemstotal state) 0 agg_info
         else state)"

definition findsplitloc_choose ::
  "index_rel \<Rightarrow> ABTFindSplitData \<Rightarrow> nat \<Rightarrow> bool \<Rightarrow> (nat \<times> bool) option" where
  "findsplitloc_choose rel state fillfactor usemult =
     (let leftpage = hd (fs_splits state); rightpage = last (fs_splits state);
          state = abt_deltasortsplits state fillfactor usemult;
          state = state\<lparr>fs_interval := abt_defaultinterval state\<rparr>
      in case abt_strategy rel state leftpage rightpage of
           None \<Rightarrow> None
         | Some (perfectpenalty, strategy) \<Rightarrow>
             let state =
                   (case strategy of
                      ABT_SPLIT_DEFAULT \<Rightarrow> state
                    | ABT_SPLIT_MANY_DUPLICATES \<Rightarrow> state\<lparr>fs_interval := length (fs_splits state)\<rparr>
                    | ABT_SPLIT_SINGLE_VALUE \<Rightarrow>
                        (abt_deltasortsplits state ABTREE_SINGLEVAL_FILLFACTOR True)\<lparr>fs_interval := 1\<rparr>)
             in Some (abt_bestsplitloc rel state perfectpenalty strategy))"

text \<open>\<open>None\<close> is \<^verbatim>\<open>elog(ERROR)\<close>, when there is no feasible split point. The result is the first right offset
  and whether the new item goes to the left page.\<close>

definition abt_findsplitloc ::
  "index_rel \<Rightarrow> nat \<Rightarrow> PageData \<Rightarrow> nat \<Rightarrow> nat \<Rightarrow> IndexTupleData \<Rightarrow> ABTCachedAggInfo \<Rightarrow> (nat \<times> bool) option" where
  "abt_findsplitloc rel leaffillfactor origpage newitemoff newitemsz newitem agg_info =
     (let state = findsplitloc_record agg_info (findsplitloc_init origpage newitemoff newitemsz newitem)
      in if fs_splits state = [] then None
         else if \<not> fs_is_leaf state then
           findsplitloc_choose rel state ABTREE_NONLEAF_FILLFACTOR (fs_is_rightmost state)
         else if fs_is_rightmost state then findsplitloc_choose rel state leaffillfactor True
         else case abt_afternewitemoff rel state (PageGetMaxOffsetNumber origpage) leaffillfactor of
           Some usemult \<Rightarrow>
             if usemult then findsplitloc_choose rel state leaffillfactor True
             else if list_ex (\<lambda>split. newitemonleft split \<and> newitemoff = firstrightoff split) (fs_splits state)
             then Some (newitemoff, True)
             else findsplitloc_choose rel state 50 False
         | None \<Rightarrow> findsplitloc_choose rel state 50 False)"
section \<open>Which points are recorded\<close>

lemma int16_id: "- 32768 \<le> v \<Longrightarrow> v < 32768 \<Longrightarrow> int16 v = v"
  unfolding int16_def by (rule signed_take_bit_int_eq_self) simp_all

definition fr_size :: "ABTFindSplitData \<Rightarrow> nat \<Rightarrow> bool \<Rightarrow> nat \<Rightarrow> nat" where
  "fr_size st fro onleft sz = (if fro = fs_newitemoff st \<and> \<not> onleft then fs_newitemsz st else sz)"

text \<open>The space that a split point reserves for the high key of the left page.\<close>

definition hikey_space :: "ABTFindSplitData \<Rightarrow> ABTCachedAggInfo \<Rightarrow> nat \<Rightarrow> bool \<Rightarrow> nat \<Rightarrow> int" where
  "hikey_space st ai fro onleft sz =
     int (fr_size st fro onleft sz) + (if fs_is_leaf st then 8 else 0)
       - int (recsplit_postingsz st fro onleft (fr_size st fro onleft sz) ai)"

text \<open>The point with its free space, computed without truncation.\<close>

definition split_point :: "ABTFindSplitData \<Rightarrow> ABTCachedAggInfo \<Rightarrow> nat \<Rightarrow> bool \<Rightarrow> int \<Rightarrow> nat \<Rightarrow> ABTSplitPoint" where
  "split_point st ai fro onleft old sz =
     \<lparr>curdelta = 0,
      leftfree = fs_leftspace st - old - hikey_space st ai fro onleft sz - (if onleft then int (fs_newitemsz st) else 0),
      rightfree = fs_rightspace st - (fs_olddataitemstotal st - old) - (if onleft then 0 else int (fs_newitemsz st))
        + (if fs_is_leaf st then 0
           else int (fr_size st fro onleft sz) - int (MAXALIGN sizeof_IndexTupleData + extra_space_when_tid_missing ai + sizeof_ItemIdData)),
      firstrightoff = fro, newitemonleft = onleft\<rparr>"

definition legal :: "ABTSplitPoint \<Rightarrow> bool" where
  "legal p = (leftfree p \<ge> 0 \<and> rightfree p \<ge> 0)"

definition small_agg :: "ABTCachedAggInfo \<Rightarrow> bool" where
  "small_agg ai = (extra_space_for_nonpivot_tuple ai \<le> 100 \<and> extra_space_when_tid_missing ai \<le> 100
     \<and> extra_space_when_tid_present ai \<le> 100)"

definition small_state :: "ABTFindSplitData \<Rightarrow> bool" where
  "small_state st = (0 \<le> fs_leftspace st \<and> fs_leftspace st \<le> 8192 \<and> 0 \<le> fs_rightspace st \<and> fs_rightspace st \<le> 8192
     \<and> fs_olddataitemstotal st \<le> 8192 \<and> fs_newitemsz st \<le> 8200)"

lemma IndexTupleSize_le: "IndexTupleSize t \<le> 8191"
proof -
  have "IndexTupleSize t \<le> unat INDEX_SIZE_MASK"
    unfolding IndexTupleSize_def by (simp add: word_and_le1 flip: word_le_nat_alt)
  then show ?thesis by (simp add: INDEX_SIZE_MASK_def)
qed

lemma postingsz_le: "small_agg ai \<Longrightarrow> recsplit_postingsz st fro onleft sz ai \<le> 8191"
  using IndexTupleSize_le [of "PageGetItem (fs_origpage st) fro"]
  by (auto simp: recsplit_postingsz_def Let_def small_agg_def)

lemma recsplitloc_point:
  assumes st: "small_state st" "small_agg ai" and old: "0 \<le> old" "old \<le> fs_olddataitemstotal st" and sz: "sz \<le> 8200"
    and p: "p = split_point st ai fro onleft old sz"
  shows "abt_recsplitloc st fro onleft old sz ai =
    (if legal p then st\<lparr>fs_minfirstrightsz := min (fs_minfirstrightsz st) (fr_size st fro onleft sz),
                        fs_splits := fs_splits st @ [p]\<rparr> else st)"
proof -
  define f where "f = fr_size st fro onleft sz"
  define e where "e = recsplit_postingsz st fro onleft f ai"
  define b where "b = MAXALIGN sizeof_IndexTupleData + extra_space_when_tid_missing ai + sizeof_ItemIdData"
  have m: "MAXALIGN sizeof_ItemPointerData = 8" "b \<le> 200"
    using st(2) by (simp_all add: b_def small_agg_def MAXALIGN_def sizeof_ItemPointerData_def sizeof_IndexTupleData_def sizeof_ItemIdData_def)
  have n: "int (fs_newitemsz st) \<le> 8200" "int f \<le> 8200" "int e \<le> 8191"
    using st sz postingsz_le [OF st(2), of st fro onleft f] by (simp_all add: small_state_def f_def fr_size_def e_def)
  have s: "0 \<le> fs_leftspace st" "fs_leftspace st \<le> 8192" "0 \<le> fs_rightspace st" "fs_rightspace st \<le> 8192" "fs_olddataitemstotal st \<le> 8192"
    using st(1) by (simp_all add: small_state_def)
  have i: "int16 (fs_leftspace st - old) = fs_leftspace st - old"
    "int16 (fs_rightspace st - (fs_olddataitemstotal st - old)) = fs_rightspace st - (fs_olddataitemstotal st - old)"
    "int16 (int (fs_newitemsz st)) = int (fs_newitemsz st)" "int16 (int f) = int f" "int16 (int b) = int b"
    "int16 (int f + int 8 - int e) = int f + int 8 - int e" "int16 (int f - int e) = int f - int e"
    by (rule int16_id; use s old n m in linarith)+
  have l: "int16 (fs_leftspace st - old - (int f + int 8 - int e)) = fs_leftspace st - old - (int f + int 8 - int e)"
    "int16 (fs_leftspace st - old - (int f - int e)) = fs_leftspace st - old - (int f - int e)"
    "int16 (fs_leftspace st - old - (int f + int 8 - int e) - int (fs_newitemsz st)) = fs_leftspace st - old - (int f + int 8 - int e) - int (fs_newitemsz st)"
    "int16 (fs_leftspace st - old - (int f - int e) - int (fs_newitemsz st)) = fs_leftspace st - old - (int f - int e) - int (fs_newitemsz st)"
    by (rule int16_id; use s old n m in linarith)+
  have r: "int16 (fs_rightspace st - (fs_olddataitemstotal st - old) - int (fs_newitemsz st)) = fs_rightspace st - (fs_olddataitemstotal st - old) - int (fs_newitemsz st)"
    "int16 (fs_rightspace st - (fs_olddataitemstotal st - old) - int (fs_newitemsz st) + (int f - int b)) = fs_rightspace st - (fs_olddataitemstotal st - old) - int (fs_newitemsz st) + (int f - int b)"
    "int16 (fs_rightspace st - (fs_olddataitemstotal st - old) + (int f - int b)) = fs_rightspace st - (fs_olddataitemstotal st - old) + (int f - int b)"
    by (rule int16_id; use s old n m in linarith)+
  show ?thesis
    unfolding abt_recsplitloc_def p legal_def split_point_def hikey_space_def fr_size_def [symmetric] f_def [symmetric] e_def [symmetric]
      b_def [symmetric] m(1) Let_def i ABTSplitPoint.select_convs
    by (cases "fs_is_leaf st"; cases onleft; simp only: i l r if_True if_False simp_thms; simp add: algebra_simps)
qed
lemma split_point_env [simp]:
  "recsplit_postingsz (st\<lparr>fs_minfirstrightsz := m, fs_splits := xs\<rparr>) = recsplit_postingsz st"
  "split_point (st\<lparr>fs_minfirstrightsz := m, fs_splits := xs\<rparr>) = split_point st"
  "fr_size (st\<lparr>fs_minfirstrightsz := m, fs_splits := xs\<rparr>) = fr_size st"
  "small_state (st\<lparr>fs_minfirstrightsz := m, fs_splits := xs\<rparr>) = small_state st"
  by (simp_all add: recsplit_postingsz_def split_point_def hikey_space_def fr_size_def small_state_def fun_eq_iff Let_def)

definition item_sum :: "PageData \<Rightarrow> nat \<Rightarrow> nat \<Rightarrow> nat" where
  "item_sum page a b = sum_list (map (item_space page) [a..<b])"

lemma item_sum_rec: "a < b \<Longrightarrow> item_sum page a b = item_space page a + item_sum page (Suc a) b"
  by (simp add: item_sum_def upt_conv_Cons)

lemma item_sum_empty [simp]: "b \<le> a \<Longrightarrow> item_sum page a b = 0"
  by (simp add: item_sum_def)

lemma item_sum_split: "a \<le> b \<Longrightarrow> b \<le> c \<Longrightarrow> item_sum page a c = item_sum page a b + item_sum page b c"
proof -
  assume "a \<le> b" "b \<le> c"
  then have "[a..<c] = [a..<b] @ [b..<c]" using upt_add_eq_append [of a b "c - b"] by simp
  then show ?thesis by (simp add: item_sum_def)
qed

text \<open>The points recorded before the item at an offset.\<close>

definition points_at :: "ABTFindSplitData \<Rightarrow> ABTCachedAggInfo \<Rightarrow> nat \<Rightarrow> int \<Rightarrow> ABTSplitPoint list" where
  "points_at st ai off old =
     (let sz = item_space (fs_origpage st) off
      in if off < fs_newitemoff st then [split_point st ai off False old sz]
         else if off > fs_newitemoff st then [split_point st ai off True old sz]
         else [split_point st ai off False old sz, split_point st ai off True old sz])"

lemma points_at_env [simp]: "points_at (st\<lparr>fs_minfirstrightsz := m, fs_splits := xs\<rparr>) = points_at st"
  by (simp add: points_at_def fun_eq_iff Let_def)

lemma recsplitloc_ex:
  assumes "small_state st" "small_agg ai" "0 \<le> old" "old \<le> fs_olddataitemstotal st" "sz \<le> 8200"
  shows "\<exists>m. abt_recsplitloc st fro onleft old sz ai = st\<lparr>fs_minfirstrightsz := m,
    fs_splits := fs_splits st @ filter legal [split_point st ai fro onleft old sz]\<rparr>"
proof (cases "legal (split_point st ai fro onleft old sz)")
  case True
  then show ?thesis using recsplitloc_point [OF assms refl, of fro onleft] by auto
next
  case False
  then show ?thesis using recsplitloc_point [OF assms refl, of fro onleft]
    by (intro exI [of _ "fs_minfirstrightsz st"]) simp
qed

lemma scan_points:
  assumes st: "small_state st" "small_agg ai" and old: "0 \<le> old"
    and tot: "old + int (item_sum (fs_origpage st) a b) \<le> fs_olddataitemstotal st"
  shows "\<exists>m. findsplitloc_scan ai [a..<b] old st = st\<lparr>fs_minfirstrightsz := m, fs_splits := fs_splits st
    @ filter legal (concat (map (\<lambda>off. points_at st ai off (old + int (item_sum (fs_origpage st) a off))) [a..<b]))\<rparr>"
  using assms
proof (induction "b - a" arbitrary: a old st)
  case 0
  then show ?case by (intro exI [of _ "fs_minfirstrightsz st"]) simp
next
  case (Suc d)
  then have ab: "a < b" by simp
  let ?pg = "fs_origpage st"
  define sz where "sz = item_space ?pg a"
  have tot': "old + int sz + int (item_sum ?pg (Suc a) b) \<le> fs_olddataitemstotal st"
    using Suc.prems(4) item_sum_rec [OF ab, of ?pg] by (simp add: sz_def)
  have old2: "old \<le> fs_olddataitemstotal st" "int sz \<le> 8192"
    using tot' Suc.prems(3) Suc.prems(1) by (simp_all add: small_state_def)
  then have sz2: "sz \<le> 8200" by simp
  note R = recsplitloc_ex [OF _ Suc.prems(2,3) _ sz2]
  define st1 where "st1 = (if a < fs_newitemoff st then abt_recsplitloc st a False old sz ai
      else if a > fs_newitemoff st then abt_recsplitloc st a True old sz ai
      else abt_recsplitloc (abt_recsplitloc st a False old sz ai) a True old sz ai)"
  have "\<exists>m. st1 = st\<lparr>fs_minfirstrightsz := m, fs_splits := fs_splits st @ filter legal (points_at st ai a old)\<rparr>"
  proof (cases a "fs_newitemoff st" rule: linorder_cases)
    case less
    then show ?thesis using R [OF Suc.prems(1) old2(1), of a False] by (simp add: st1_def points_at_def sz_def)
  next
    case greater
    then show ?thesis using R [OF Suc.prems(1) old2(1), of a True] by (simp add: st1_def points_at_def sz_def)
  next
    case equal
    define F where "F = filter legal [split_point st ai a False old sz]"
    define T where "T = filter legal [split_point st ai a True old sz]"
    have FT: "filter legal (points_at st ai a old) = F @ T" using equal by (simp add: F_def T_def points_at_def sz_def Let_def)
    obtain m1 where m1: "abt_recsplitloc st a False old sz ai = st\<lparr>fs_minfirstrightsz := m1, fs_splits := fs_splits st @ F\<rparr>" (is "_ = ?s1")
      using R [OF Suc.prems(1) old2(1), of a False] unfolding F_def by blast
    have s1: "small_state ?s1" "old \<le> fs_olddataitemstotal ?s1" using Suc.prems(1) old2(1) by simp_all
    obtain m2 where "abt_recsplitloc ?s1 a True old sz ai = ?s1\<lparr>fs_minfirstrightsz := m2, fs_splits := fs_splits ?s1 @ T\<rparr>"
      using R [OF s1, of a True] unfolding T_def by (simp only: split_point_env) blast
    then have "st1 = st\<lparr>fs_minfirstrightsz := m2, fs_splits := fs_splits st @ (F @ T)\<rparr>"
      using equal unfolding st1_def m1 by simp
    then show ?thesis unfolding FT by blast
  qed
  then obtain m where m: "st1 = st\<lparr>fs_minfirstrightsz := m, fs_splits := fs_splits st @ filter legal (points_at st ai a old)\<rparr>"
    by blast
  have st1: "small_state st1" "fs_origpage st1 = ?pg" "fs_olddataitemstotal st1 = fs_olddataitemstotal st" "points_at st1 = points_at st"
    using Suc.prems(1) by (simp_all add: m)
  have e: "findsplitloc_scan ai [a..<b] old st = findsplitloc_scan ai [Suc a..<b] (old + int sz) st1"
    unfolding upt_conv_Cons [OF ab] findsplitloc_scan.simps Let_def sz_def [symmetric] st1_def [symmetric] ..
  have IH: "\<exists>m'. findsplitloc_scan ai [Suc a..<b] (old + int sz) st1 = st1\<lparr>fs_minfirstrightsz := m', fs_splits := fs_splits st1
      @ filter legal (concat (map (\<lambda>off. points_at st1 ai off (old + int sz + int (item_sum (fs_origpage st1) (Suc a) off))) [Suc a..<b]))\<rparr>"
    by (rule Suc.hyps(1)) (use Suc.hyps(2) Suc.prems(2,3) st1 tot' in simp_all)
  have c: "concat (map (\<lambda>off. points_at st ai off (old + int (item_sum ?pg a off))) [a..<b])
      = points_at st ai a old @ concat (map (\<lambda>off. points_at st ai off (old + int sz + int (item_sum ?pg (Suc a) off))) [Suc a..<b])"
  proof -
    have "map (\<lambda>off. points_at st ai off (old + int (item_sum ?pg a off))) [Suc a..<b]
        = map (\<lambda>off. points_at st ai off (old + int sz + int (item_sum ?pg (Suc a) off))) [Suc a..<b]"
      by (rule map_cong) (auto simp: item_sum_rec [of a] sz_def algebra_simps)
    then show ?thesis unfolding upt_conv_Cons [OF ab] list.map concat.simps by (simp only: item_sum_empty order_refl int_ops(1) add_0_right)
  qed
  show ?case unfolding e c using IH by (auto simp: m)
qed
section \<open>The points of a page\<close>

text \<open>A position between two items of the page with the new item on it: the first right offset of the
  old page, and whether the new item is to the left.\<close>

definition valid_split :: "PageData \<Rightarrow> nat \<Rightarrow> nat \<Rightarrow> bool \<Rightarrow> bool" where
  "valid_split page newitemoff fro onleft =
     (ABT_P_FIRSTDATAKEY (pd_special page) \<le> fro
      \<and> (if onleft then newitemoff \<le> fro \<and> fro \<le> PageGetMaxOffsetNumber page else fro \<le> newitemoff))"

definition page_split_point :: "ABTFindSplitData \<Rightarrow> ABTCachedAggInfo \<Rightarrow> nat \<Rightarrow> bool \<Rightarrow> ABTSplitPoint" where
  "page_split_point st ai fro onleft =
     (let page = fs_origpage st
      in split_point st ai fro onleft (int (item_sum page (ABT_P_FIRSTDATAKEY (pd_special page)) fro)) (item_space page fro))"

definition page_fits :: "PageData \<Rightarrow> bool" where
  "page_fits page = (pd_lower page \<le> pd_upper page)"

lemma item_sum_page: "item_sum page 1 (Suc (PageGetMaxOffsetNumber page)) = (\<Sum>it\<leftarrow>pd_linp page. MAXALIGN (lp_len it) + sizeof_ItemIdData)"
proof -
  have "map (item_space page) [1..<Suc (length (pd_linp page))] = map (\<lambda>it. MAXALIGN (lp_len it) + sizeof_ItemIdData) (pd_linp page)"
    by (rule nth_equalityI) (auto simp: item_space_def PageGetItemId_def simp del: upt_Suc)
  then show ?thesis by (simp add: item_sum_def PageGetMaxOffsetNumber_def del: upt_Suc)
qed

lemma page_space:
  assumes "page_fits page"
  shows "item_sum page 1 (Suc (PageGetMaxOffsetNumber page)) + PageGetExactFreeSpace page = 8144"
proof -
  have "(\<Sum>it\<leftarrow>xs. MAXALIGN (lp_len it) + 4) = (\<Sum>it\<leftarrow>xs. MAXALIGN (lp_len it)) + 4 * length xs" for xs :: "PageItem list"
    by (induction xs) simp_all
  then have "int (item_sum page 1 (Suc (PageGetMaxOffsetNumber page)))
      = int (\<Sum>it\<leftarrow>pd_linp page. MAXALIGN (lp_len it)) + 4 * int (length (pd_linp page))"
    unfolding item_sum_page by (simp add: size_defs)
  moreover have "int (PageGetExactFreeSpace page) = pd_upper page - pd_lower page"
    using assms by (simp add: PageGetExactFreeSpace_def page_fits_def Let_def)
  ultimately have "int (item_sum page 1 (Suc (PageGetMaxOffsetNumber page)) + PageGetExactFreeSpace page) = 8144"
    by (simp add: pd_upper_def pd_lower_def size_defs MAXALIGN_def)
  then show ?thesis by linarith
qed

lemma FIRSTDATAKEY_cases: "ABT_P_FIRSTDATAKEY op = (if ABT_P_RIGHTMOST op then 1 else 2)"
  by (simp add: ABT_P_FIRSTDATAKEY_def ABTP_HIKEY_def ABTP_FIRSTKEY_def)

text \<open>The state that the scan starts with.\<close>

lemma init_state:
  assumes "page_fits page" "ABT_P_FIRSTDATAKEY (pd_special page) \<le> Suc (PageGetMaxOffsetNumber page)" "newitemsz \<le> 8192"
    and st: "st = findsplitloc_init page newitemoff newitemsz newitem"
  shows "small_state st" "fs_olddataitemstotal st = int (item_sum page (ABT_P_FIRSTDATAKEY (pd_special page)) (Suc (PageGetMaxOffsetNumber page)))"
    "fs_rightspace st = int (item_sum page (ABT_P_FIRSTDATAKEY (pd_special page)) (Suc (PageGetMaxOffsetNumber page)) + PageGetExactFreeSpace page)"
    "fs_leftspace st = 8144" "fs_origpage st = page" "fs_newitemoff st = newitemoff" "fs_newitemsz st = newitemsz + 4"
    "fs_newitem st = newitem" "fs_is_leaf st = ABT_P_ISLEAF (pd_special page)" "fs_is_rightmost st = ABT_P_RIGHTMOST (pd_special page)"
proof -
  let ?f = "ABT_P_FIRSTDATAKEY (pd_special page)" and ?m = "Suc (PageGetMaxOffsetNumber page)"
  have f: "item_sum page 1 ?m = (if ABT_P_RIGHTMOST (pd_special page) then 0 else item_space page ABTP_HIKEY) + item_sum page ?f ?m"
    using assms(2) item_sum_rec [of 1 ?m page] by (auto simp: FIRSTDATAKEY_cases ABTP_HIKEY_def numeral_2_eq_2)
  have "fs_rightspace st = int 8144 - int (if ABT_P_RIGHTMOST (pd_special page) then 0 else item_space page ABTP_HIKEY)"
    by (simp add: st findsplitloc_init_def Let_def size_defs MAXALIGN_def)
  also have "\<dots> = int (item_sum page ?f ?m + PageGetExactFreeSpace page)"
    unfolding page_space [OF assms(1), symmetric] f by simp
  finally show r: "fs_rightspace st = int (item_sum page ?f ?m + PageGetExactFreeSpace page)" .
  show t: "fs_olddataitemstotal st = int (item_sum page ?f ?m)"
    using r by (simp add: st findsplitloc_init_def Let_def)
  show fl: "fs_leftspace st = 8144" "fs_origpage st = page" "fs_newitemoff st = newitemoff" "fs_newitemsz st = newitemsz + 4"
    "fs_newitem st = newitem" "fs_is_leaf st = ABT_P_ISLEAF (pd_special page)" "fs_is_rightmost st = ABT_P_RIGHTMOST (pd_special page)"
    by (simp_all add: st findsplitloc_init_def Let_def size_defs MAXALIGN_def)
  have "item_sum page ?f ?m + PageGetExactFreeSpace page \<le> 8144" using page_space [OF assms(1)] f by simp
  then show "small_state st" unfolding small_state_def r t fl using assms(3) by simp
qed

lemma points_at_set:
  assumes "p \<in> set (points_at st ai off old)"
  shows "\<exists>onleft. p = split_point st ai off onleft old (item_space (fs_origpage st) off)
    \<and> (if onleft then fs_newitemoff st \<le> off else off \<le> fs_newitemoff st)"
  using assms by (auto simp: points_at_def Let_def split: if_splits)

lemma in_points_at:
  assumes "if onleft then fs_newitemoff st \<le> off else off \<le> fs_newitemoff st"
  shows "split_point st ai off onleft old (item_space (fs_origpage st) off) \<in> set (points_at st ai off old)"
  using assms by (auto simp: points_at_def Let_def split: if_splits)

lemma split_point_newitem: "split_point st ai (fs_newitemoff st) False old sz = split_point st ai (fs_newitemoff st) False old sz'"
  by (simp add: split_point_def hikey_space_def fr_size_def)

lemma record_points:
  assumes st: "small_state st" "small_agg ai"
    and f: "f = ABT_P_FIRSTDATAKEY (pd_special (fs_origpage st))" and mx: "mx = PageGetMaxOffsetNumber (fs_origpage st)"
    and tot: "fs_olddataitemstotal st = int (item_sum (fs_origpage st) f (Suc mx))"
    and off: "f \<le> fs_newitemoff st" "fs_newitemoff st \<le> Suc mx"
    and init: "fs_splits st = []"
  shows "\<exists>m ps. findsplitloc_record ai st = st\<lparr>fs_minfirstrightsz := m, fs_splits := filter legal ps\<rparr>
    \<and> set ps = {page_split_point st ai fro onleft | fro onleft. valid_split (fs_origpage st) (fs_newitemoff st) fro onleft}"
proof -
  let ?n = "fs_newitemoff st" and ?pg = "fs_origpage st"
  define qs where "qs = concat (map (\<lambda>off. points_at st ai off (0 + int (item_sum ?pg f off))) [f..<Suc mx])"
  define ls where "ls = (if ?n > mx then [page_split_point st ai ?n False] else [])"
  have V: "valid_split ?pg ?n fro onleft \<longleftrightarrow> f \<le> fro \<and> (if onleft then ?n \<le> fro \<and> fro \<le> mx else fro \<le> ?n)" for fro onleft
    by (simp add: valid_split_def f mx)
  have P: "page_split_point st ai fro onleft = split_point st ai fro onleft (int (item_sum ?pg f fro)) (item_space ?pg fro)" for fro onleft
    by (simp add: page_split_point_def Let_def f)
  have "0 + int (item_sum ?pg f (Suc mx)) \<le> fs_olddataitemstotal st" using tot by simp
  from scan_points [OF st order_refl this] obtain m
    where m: "findsplitloc_scan ai [f..<Suc mx] 0 st = st\<lparr>fs_minfirstrightsz := m, fs_splits := filter legal qs\<rparr>"
    unfolding qs_def [symmetric] init append_Nil by blast
  have rec: "findsplitloc_record ai st = (let st' = st\<lparr>fs_minfirstrightsz := m, fs_splits := filter legal qs\<rparr>
      in if ?n > mx then abt_recsplitloc st' ?n False (fs_olddataitemstotal st) 0 ai else st')"
    unfolding findsplitloc_record_def Let_def f [symmetric] mx [symmetric] m by simp
  have r: "\<exists>m. findsplitloc_record ai st = st\<lparr>fs_minfirstrightsz := m, fs_splits := filter legal (qs @ ls)\<rparr>"
  proof (cases "?n > mx")
    case True
    then have n: "?n = Suc mx" using off(2) by simp
    let ?s = "st\<lparr>fs_minfirstrightsz := m, fs_splits := filter legal qs\<rparr>"
    have s: "small_state ?s" "0 \<le> fs_olddataitemstotal st" "fs_olddataitemstotal st \<le> fs_olddataitemstotal ?s" using st(1) tot by simp_all
    have e: "split_point st ai ?n False (fs_olddataitemstotal st) 0 = page_split_point st ai ?n False"
      unfolding P tot n [symmetric] by (rule split_point_newitem)
    obtain m2 where "abt_recsplitloc ?s ?n False (fs_olddataitemstotal st) 0 ai
        = ?s\<lparr>fs_minfirstrightsz := m2, fs_splits := fs_splits ?s @ filter legal [page_split_point st ai ?n False]\<rparr>"
      using recsplitloc_ex [OF s(1) st(2) s(2,3) zero_le, of ?n False] unfolding split_point_env e by blast
    then have "findsplitloc_record ai st = ?s\<lparr>fs_minfirstrightsz := m2, fs_splits := filter legal qs @ filter legal ls\<rparr>"
      unfolding rec Let_def ls_def using True by simp
    then show ?thesis by (intro exI [of _ m2]) simp
  next
    case False
    then show ?thesis unfolding rec Let_def ls_def by (intro exI [of _ m]) simp
  qed
  have "set (qs @ ls) = {page_split_point st ai fro onleft | fro onleft. valid_split ?pg ?n fro onleft}" (is "_ = ?P")
  proof (intro equalityI subsetI)
    fix p assume p: "p \<in> set (qs @ ls)"
    show "p \<in> ?P"
    proof (cases "p \<in> set qs")
      case True
      then obtain off where o: "f \<le> off" "off \<le> mx" "p \<in> set (points_at st ai off (0 + int (item_sum ?pg f off)))"
        unfolding qs_def by (auto simp: less_Suc_eq_le simp del: upt_Suc)
      obtain onleft where "p = page_split_point st ai off onleft" "if onleft then ?n \<le> off else off \<le> ?n"
        using points_at_set [OF o(3)] unfolding P add_0 by blast
      moreover from this(2) have "valid_split ?pg ?n off onleft" unfolding V using o(1,2) by simp
      ultimately show ?thesis by blast
    next
      case False
      then have "p = page_split_point st ai ?n False" using p by (simp add: ls_def split: if_splits)
      moreover have "valid_split ?pg ?n ?n False" unfolding V using off by simp
      ultimately show ?thesis by blast
    qed
  next
    fix p assume "p \<in> ?P"
    then obtain fro onleft where p: "p = page_split_point st ai fro onleft" "valid_split ?pg ?n fro onleft" by blast
    show "p \<in> set (qs @ ls)"
    proof (cases "fro \<le> mx")
      case True
      have "if onleft then ?n \<le> fro else fro \<le> ?n" using p(2) unfolding V by simp
      from in_points_at [of onleft st fro, OF this] have "p \<in> set (points_at st ai fro (0 + int (item_sum ?pg f fro)))"
        unfolding p(1) P add_0 .
      moreover have "fro \<in> set [f..<Suc mx]" using True p(2) by (simp add: V less_Suc_eq_le del: upt_Suc)
      ultimately show ?thesis unfolding qs_def by (auto simp del: upt_Suc)
    next
      case False
      then have "fro = ?n" "\<not> onleft" using p(2) off by (auto simp: V split: if_splits)
      then show ?thesis using p(1) False by (simp add: ls_def)
    qed
  qed
  then show ?thesis using r by blast
qed
section \<open>The choice is one of the recorded points\<close>

definition split_keys :: "ABTFindSplitData \<Rightarrow> (nat \<times> bool) set" where
  "split_keys st = (\<lambda>p. (firstrightoff p, newitemonleft p)) ` set (fs_splits st)"

text \<open>The comparison sorts by the distance from the wanted balance.\<close>

interpretation split_order: qsort_order abt_splitcmp UNIV
  by unfold_locales (auto simp: abt_splitcmp_def split: if_splits)

lemma deltasort_balanced:
  "sorted_wrt (\<lambda>p q. curdelta p \<le> curdelta q) (fs_splits (abt_deltasortsplits st fillfactor usemult))"
proof -
  have "sorted_wrt (\<lambda>p q. abt_splitcmp p q \<le> 0) (fs_splits (abt_deltasortsplits st fillfactor usemult))"
    unfolding abt_deltasortsplits_def by (simp add: split_order.pg_qsort_sorted)
  then show ?thesis by (rule sorted_wrt_mono_rel [rotated]) (auto simp: abt_splitcmp_def split: if_splits)
qed

lemma deltasort_keys [simp]: "split_keys (abt_deltasortsplits st fillfactor usemult) = split_keys st"
  by (force simp: split_keys_def abt_deltasortsplits_def image_image)

lemma deltasort_splits [simp]: "fs_splits (abt_deltasortsplits st fillfactor usemult) = [] \<longleftrightarrow> fs_splits st = []"
  by (simp add: abt_deltasortsplits_def)

lemma interval_keys [simp]: "split_keys (st\<lparr>fs_interval := n\<rparr>) = split_keys st"
  by (simp add: split_keys_def)

lemma best_loop_bound:
  "set is \<subseteq> {..<n} \<Longrightarrow> low < n \<Longrightarrow> best_split_loop rel st pp is best low < n"
  by (induction rel st pp "is" best low rule: best_split_loop.induct) (auto simp: Let_def split: if_splits)

lemma bestsplitloc_key:
  assumes "fs_splits st \<noteq> []"
  shows "abt_bestsplitloc rel st pp strategy \<in> split_keys st"
proof -
  define low where "low = best_split_loop rel st pp [0..<min (fs_interval st) (length (fs_splits st))] INT_MAX 0"
  have "low < length (fs_splits st)" unfolding low_def by (rule best_loop_bound) (use assms in auto)
  moreover have "0 < length (fs_splits st)" using assms by simp
  ultimately show ?thesis
    unfolding abt_bestsplitloc_def Let_def low_def [symmetric] split_keys_def by (auto intro!: imageI nth_mem split: if_splits)
qed

lemma interval_edges_some:
  "\<exists>l r. interval_edges_loop d (xs @ [d]) li ri = (Some l, Some r)"
proof (induction xs arbitrary: li ri)
  case (Cons x xs)
  then show ?case by (auto simp: Let_def split: if_splits prod.splits)
qed (auto simp: Let_def)

lemma strategy_some:
  assumes "fs_splits st \<noteq> []" "0 < fs_interval st"
  shows "\<exists>pp strategy. abt_strategy rel st lp rp = Some (pp, strategy)"
proof -
  have "0 < min (fs_interval st) (length (fs_splits st))" using assms by simp
  then obtain h where h: "min (fs_interval st) (length (fs_splits st)) = Suc h" by (auto simp: gr0_conv_Suc)
  then have "rev (take (Suc h) (fs_splits st)) = rev (drop 1 (take (Suc h) (fs_splits st))) @ [fs_splits st ! 0]"
    using assms(1) by (cases "fs_splits st") simp_all
  then obtain l r where "abt_interval_edges st = (Some l, Some r)"
    using interval_edges_some [of "fs_splits st ! 0" "rev (drop 1 (take (Suc h) (fs_splits st)))" None None]
    unfolding abt_interval_edges_def Let_def h by auto
  then show ?thesis by (auto simp: abt_strategy_def Let_def)
qed

lemma choose_key:
  assumes "fs_splits st \<noteq> []"
  shows "\<exists>k\<in>split_keys st. findsplitloc_choose rel st fillfactor usemult = Some k"
proof -
  define s1 where "s1 = abt_deltasortsplits st fillfactor usemult"
  define s2 where "s2 = s1\<lparr>fs_interval := abt_defaultinterval s1\<rparr>"
  have s2: "fs_splits s2 \<noteq> []" "0 < fs_interval s2" "split_keys s2 = split_keys st"
    using assms by (simp_all add: s2_def s1_def abt_defaultinterval_def Let_def)
  obtain pp strategy where p: "abt_strategy rel s2 (hd (fs_splits st)) (last (fs_splits st)) = Some (pp, strategy)"
    using strategy_some [OF s2(1,2)] by blast
  define s3 where "s3 = (case strategy of ABT_SPLIT_DEFAULT \<Rightarrow> s2
      | ABT_SPLIT_MANY_DUPLICATES \<Rightarrow> s2\<lparr>fs_interval := length (fs_splits s2)\<rparr>
      | ABT_SPLIT_SINGLE_VALUE \<Rightarrow> (abt_deltasortsplits s2 ABTREE_SINGLEVAL_FILLFACTOR True)\<lparr>fs_interval := 1\<rparr>)"
  have s3: "fs_splits s3 \<noteq> []" "split_keys s3 = split_keys st" using s2 by (simp_all add: s3_def split: ABTFindSplitStrat.split)
  have "findsplitloc_choose rel st fillfactor usemult = Some (abt_bestsplitloc rel s3 pp strategy)"
    unfolding findsplitloc_choose_def Let_def s1_def [symmetric] s2_def [symmetric] p s3_def by simp
  then show ?thesis using bestsplitloc_key [OF s3(1)] s3(2) by blast
qed

lemma findsplitloc_key:
  assumes st: "st = findsplitloc_record ai (findsplitloc_init page newitemoff newitemsz newitem)" and ne: "fs_splits st \<noteq> []"
  shows "\<exists>k\<in>split_keys st. abt_findsplitloc rel ff page newitemoff newitemsz newitem ai = Some k"
proof -
  have exact: "(newitemoff, True) \<in> split_keys st"
    if "list_ex (\<lambda>split. newitemonleft split \<and> newitemoff = firstrightoff split) (fs_splits st)"
    using that by (auto simp: split_keys_def list_ex_iff image_iff)
  note C = choose_key [OF ne, of rel]
  show ?thesis
    unfolding abt_findsplitloc_def Let_def st [symmetric] if_not_P [OF ne]
    using C exact by (auto split: option.split)
qed
section \<open>Both halves fit\<close>

text \<open>The tuple that follows a split point.\<close>

definition first_right :: "PageData \<Rightarrow> nat \<Rightarrow> IndexTupleData \<Rightarrow> nat \<Rightarrow> bool \<Rightarrow> IndexTupleData" where
  "first_right page newitemoff newitem fro onleft =
     (if fro = newitemoff \<and> \<not> onleft then newitem else PageGetItem page fro)"

definition items_ok :: "ABTCachedAggInfo \<Rightarrow> PageData \<Rightarrow> bool" where
  "items_ok ai page = (\<forall>off\<in>{ABT_P_FIRSTDATAKEY (pd_special page)..PageGetMaxOffsetNumber page}.
     lp_len (PageGetItemId page off) = IndexTupleSize (PageGetItem page off)
     \<and> key_size ai (PageGetItem page off) \<le> IndexTupleSize (PageGetItem page off))"

lemma hikey_space_leaf:
  assumes leaf: "fs_is_leaf st" and st: "fs_origpage st = page" "fs_newitemoff st = newitemoff" "fs_newitemsz st = newitemsz + 4"
    and ok: "items_ok ai page" and v: "valid_split page newitemoff fro onleft" "newitemoff \<le> Suc (PageGetMaxOffsetNumber page)"
    and new: "\<not> ABTreeTupleIsPosting newitem" "newitemsz = MAXALIGN (IndexTupleSize newitem)"
      "extra_space_for_nonpivot_tuple ai \<le> IndexTupleSize newitem"
  shows "int (key_size ai (first_right page newitemoff newitem fro onleft)) + 12 \<le> hikey_space st ai fro onleft (item_space page fro)"
proof (cases "fro = newitemoff \<and> \<not> onleft")
  case True
  have "hikey_space st ai fro onleft (item_space page fro) = int (newitemsz + 4) + 8 - int (extra_space_for_nonpivot_tuple ai)"
    using True leaf st by (simp add: hikey_space_def fr_size_def recsplit_postingsz_def Let_def)
  moreover have "key_size ai newitem + extra_space_for_nonpivot_tuple ai \<le> newitemsz"
    using new MAXALIGN_ge [of "IndexTupleSize newitem"] by (simp add: key_size_def)
  ultimately show ?thesis using True by (simp add: first_right_def)
next
  case False
  let ?t = "PageGetItem page fro" and ?sz = "item_space page fro"
  have "fro \<le> PageGetMaxOffsetNumber page" using False v by (auto simp: valid_split_def split: if_splits)
  then have t: "lp_len (PageGetItemId page fro) = IndexTupleSize ?t" "key_size ai ?t \<le> IndexTupleSize ?t"
    using ok v(1) by (auto simp: items_ok_def valid_split_def)
  then have sz: "IndexTupleSize ?t + 4 \<le> ?sz" using MAXALIGN_ge [of "IndexTupleSize ?t"] by (simp add: item_space_def sizeof_ItemIdData_def)
  define d where "d = (if ?sz > 64 \<and> ABTreeTupleIsPosting ?t then IndexTupleSize ?t - ABTreeTupleGetPostingOffset ?t else 0)"
  have h: "hikey_space st ai fro onleft ?sz = int ?sz + 8 - int d"
    using False leaf st by (auto simp: hikey_space_def fr_size_def recsplit_postingsz_def Let_def d_def)
  have "key_size ai ?t + d \<le> IndexTupleSize ?t" using t(2) by (auto simp: key_size_def d_def)
  moreover have e: "first_right page newitemoff newitem fro onleft = ?t" using False by (auto simp: first_right_def)
  ultimately show ?thesis unfolding h e using sz by linarith
qed

lemma fits_lemma:
  assumes page: "page_fits page" and agg: "small_agg ai" and sz: "newitemsz \<le> 8192"
    and off: "f = ABT_P_FIRSTDATAKEY (pd_special page)" "f \<le> newitemoff" "newitemoff \<le> Suc (PageGetMaxOffsetNumber page)"
    and st: "st = findsplitloc_init page newitemoff newitemsz newitem"
    and r: "abt_findsplitloc rel ff page newitemoff newitemsz newitem ai = Some (fro, onleft)"
  shows "valid_split page newitemoff fro onleft" "legal (page_split_point st ai fro onleft)"
proof -
  have f2: "f \<le> Suc (PageGetMaxOffsetNumber page)" using off by simp
  note I = init_state [OF page f2 [unfolded off(1)] sz st]
  obtain m ps where R: "findsplitloc_record ai st = st\<lparr>fs_minfirstrightsz := m, fs_splits := filter legal ps\<rparr>"
    "set ps = {page_split_point st ai fro onleft | fro onleft. valid_split page newitemoff fro onleft}"
    using record_points [OF I(1) agg refl refl] I(2,5,6) off(2,3) by (auto simp: off(1) st findsplitloc_init_def Let_def)
  have ne: "fs_splits (findsplitloc_record ai st) \<noteq> []" using r unfolding abt_findsplitloc_def Let_def st [symmetric] by (auto split: if_splits)
  then have "(fro, onleft) \<in> split_keys (findsplitloc_record ai st)"
    using findsplitloc_key [of "findsplitloc_record ai st" ai page newitemoff newitemsz newitem rel ff] r st by auto
  then obtain p where "legal p" "p \<in> set ps" "firstrightoff p = fro" "newitemonleft p = onleft"
    unfolding R(1) split_keys_def by auto
  moreover from this(2-4) have "p = page_split_point st ai fro onleft" "valid_split page newitemoff fro onleft"
    unfolding R(2) by (auto simp: page_split_point_def split_point_def Let_def)
  ultimately show "valid_split page newitemoff fro onleft" "legal (page_split_point st ai fro onleft)" by simp_all
qed
section \<open>A point always exists\<close>

lemma first_change:
  assumes "P (b :: nat)" "\<not> P a" "a \<le> b"
  shows "\<exists>c. a < c \<and> c \<le> b \<and> P c \<and> \<not> P (c - 1)"
  using assms(3,1)
proof (induction b rule: dec_induct)
  case (step b)
  show ?case
  proof (cases "P b")
    case True
    then show ?thesis using step.IH by fastforce
  next
    case False
    then show ?thesis using step by (intro exI [of _ "Suc b"]) simp
  qed
qed (use assms(2) in simp)

text \<open>Whenever no item needs more than a third of the page, the first point from which the rest fits
  into the right page leaves enough room on the left page for the next item as high key.\<close>

lemma split_exists:
  assumes big: "\<And>off. f \<le> off \<Longrightarrow> off \<le> mx \<Longrightarrow> item_space page off \<le> A" and n: "N \<le> A" "A \<le> R"
    and full: "R < item_sum page f (Suc mx) + N" "item_sum page f (Suc mx) \<le> R"
    and off: "f \<le> newitemoff" "newitemoff \<le> Suc mx"
  shows "\<exists>fro onleft. f \<le> fro \<and> (if onleft then newitemoff \<le> fro \<and> fro \<le> mx else fro \<le> newitemoff)
    \<and> item_sum page fro (Suc mx) + (if onleft then 0 else N) \<le> R
    \<and> item_sum page f fro + (if onleft then N else 0) < 2 * A"
proof -
  let ?T = "item_sum page f (Suc mx)"
  have sp: "?T = item_sum page f c + item_sum page c (Suc mx)" if "f \<le> c" "c \<le> Suc mx" for c using that by (rule item_sum_split)
  have step: "item_sum page f c \<le> item_sum page f (c - 1) + A" if "f < c" "c \<le> Suc mx" for c
  proof -
    have "item_sum page f c = item_sum page f (c - 1) + item_sum page (c - 1) c" by (rule item_sum_split) (use that in auto)
    moreover have "item_sum page (c - 1) c = item_space page (c - 1)"
      using that item_sum_rec [of "c - 1" c page] item_sum_empty [of c c page] by (cases c) simp_all
    ultimately show ?thesis using big [of "c - 1"] that by simp
  qed
  show ?thesis
  proof (cases "item_sum page newitemoff (Suc mx) + N \<le> R")
    case True
    obtain c where c: "f < c" "c \<le> newitemoff" "item_sum page c (Suc mx) + N \<le> R" "\<not> item_sum page (c - 1) (Suc mx) + N \<le> R"
      using first_change [of "\<lambda>c. item_sum page c (Suc mx) + N \<le> R" newitemoff f, OF True] full(1) off(1) by auto
    have "item_sum page f (c - 1) < N" using sp [of "c - 1"] c full(2) off by simp
    then have "item_sum page f c < 2 * A" using step [of c] c(1,2) off n by linarith
    then show ?thesis using c by (intro exI [of _ c] exI [of _ False]) simp
  next
    case False
    have lt: "item_sum page f newitemoff < N" using sp [OF off] False full(2) by linarith
    have "newitemoff \<le> mx"
    proof (rule ccontr)
      assume "\<not> newitemoff \<le> mx"
      then show False using False n by simp
    qed
    moreover have "item_sum page newitemoff (Suc mx) \<le> R" using sp [OF off] full(2) by linarith
    ultimately show ?thesis using lt n off(1) by (intro exI [of _ newitemoff] exI [of _ True]) simp
  qed
qed

lemma feasible_point:
  assumes page: "page_fits page" and agg: "small_agg ai" and sz: "newitemsz \<le> 8192"
    and off: "f = ABT_P_FIRSTDATAKEY (pd_special page)" "mx = PageGetMaxOffsetNumber page" "f \<le> newitemoff" "newitemoff \<le> Suc mx"
    and big: "\<And>off. off \<in> {1..mx} \<Longrightarrow> item_space page off \<le> A" "newitemsz + 4 \<le> A" "3 * A + 8 \<le> 8144"
    and small: "\<not> ABT_P_ISLEAF (pd_special page) \<Longrightarrow> 12 + extra_space_when_tid_missing ai \<le> newitemsz + 4
      \<and> (\<forall>off\<in>{f..mx}. 12 + extra_space_when_tid_missing ai \<le> item_space page off)"
    and full: "PageGetExactFreeSpace page < newitemsz + 4"
    and st: "st = findsplitloc_init page newitemoff newitemsz newitem"
  shows "\<exists>fro onleft. valid_split page newitemoff fro onleft \<and> legal (page_split_point st ai fro onleft)"
proof -
  have f2: "ABT_P_FIRSTDATAKEY (pd_special page) \<le> Suc (PageGetMaxOffsetNumber page)" using off by simp
  note I = init_state [OF page f2 sz st, folded off(1,2)]
  let ?T = "item_sum page f (Suc mx)" and ?R = "item_sum page f (Suc mx) + PageGetExactFreeSpace page" and ?N = "newitemsz + 4"
  have f1: "1 \<le> f" "f \<le> 2" by (simp_all add: off(1) FIRSTDATAKEY_cases)
  have R: "A \<le> ?R"
  proof -
    have "item_sum page 1 (Suc mx) \<le> A + ?T"
      using big(1) [of 1] f1 off(3,4) item_sum_rec [of 1 "Suc mx" page]
      by (cases "f = 1"; cases "1 < Suc mx") (auto simp: numeral_2_eq_2 le_Suc_eq)
    then show ?thesis using page_space [OF page, folded off(2)] big(3) by linarith
  qed
  obtain fro onleft where v: "f \<le> fro" "if onleft then newitemoff \<le> fro \<and> fro \<le> mx else fro \<le> newitemoff"
    "item_sum page fro (Suc mx) + (if onleft then 0 else ?N) \<le> ?R" "item_sum page f fro + (if onleft then ?N else 0) < 2 * A"
    using split_exists [of f mx page A ?N ?R newitemoff] big(1,2) R full off(3,4) f1 by auto
  have vs: "valid_split page newitemoff fro onleft" using v(1,2) by (auto simp: valid_split_def off(1,2) split: if_splits)
  have fro: "fro \<le> Suc mx" "fro \<le> mx \<or> fro = newitemoff \<and> \<not> onleft" using v(1,2) off(4) by (auto split: if_splits)
  let ?F = "fr_size st fro onleft (item_space page fro)"
  have F: "?F \<le> A" "\<not> fs_is_leaf st \<Longrightarrow> 12 + extra_space_when_tid_missing ai \<le> ?F"
    using fro(2) big(1) [of fro] big(2) f1 v(1) small I(6,7,9) by (auto simp: fr_size_def)
  have h: "hikey_space st ai fro onleft (item_space page fro) \<le> int A + 8" using F(1) by (simp add: hikey_space_def)
  have T: "?T = item_sum page f fro + item_sum page fro (Suc mx)" by (rule item_sum_split [OF v(1) fro(1)])
  define lf where "lf = int (item_sum page f fro) + (if onleft then int ?N else 0)"
  define rf where "rf = int (item_sum page fro (Suc mx)) + (if onleft then 0 else int ?N)"
  have b: "lf < 2 * int A" "rf \<le> int ?R" using v(3,4) by (simp_all add: lf_def rf_def split: if_splits)
  have l: "leftfree (page_split_point st ai fro onleft) = 8144 - lf - hikey_space st ai fro onleft (item_space page fro)"
    by (simp add: page_split_point_def Let_def split_point_def I(4,5,7) lf_def off(1) [symmetric])
  have r: "rightfree (page_split_point st ai fro onleft) = int ?R - rf + (if fs_is_leaf st then 0
      else int ?F - int (12 + extra_space_when_tid_missing ai))"
    using T by (simp add: page_split_point_def Let_def split_point_def I(2,3,5,7) rf_def off(1) [symmetric]
      MAXALIGN_def sizeof_IndexTupleData_def sizeof_ItemIdData_def)
  have "legal (page_split_point st ai fro onleft)" unfolding legal_def l r using b h F(2) big(3) by auto
  then show ?thesis using vs by blast
qed

lemma findsplitloc_total:
  assumes page: "page_fits page" and agg: "small_agg ai" and sz: "newitemsz \<le> 8192"
    and off: "f = ABT_P_FIRSTDATAKEY (pd_special page)" "f \<le> newitemoff" "newitemoff \<le> Suc (PageGetMaxOffsetNumber page)"
    and st: "st = findsplitloc_init page newitemoff newitemsz newitem"
    and ex: "\<exists>fro onleft. valid_split page newitemoff fro onleft \<and> legal (page_split_point st ai fro onleft)"
  shows "\<exists>fro onleft. abt_findsplitloc rel ff page newitemoff newitemsz newitem ai = Some (fro, onleft)"
proof -
  have f2: "f \<le> Suc (PageGetMaxOffsetNumber page)" using off by simp
  note I = init_state [OF page f2 [unfolded off(1)] sz st]
  obtain m ps where R: "findsplitloc_record ai st = st\<lparr>fs_minfirstrightsz := m, fs_splits := filter legal ps\<rparr>"
    "set ps = {page_split_point st ai fro onleft | fro onleft. valid_split page newitemoff fro onleft}"
    using record_points [OF I(1) agg refl refl] I(2,5,6) off(2,3) by (auto simp: off(1) st findsplitloc_init_def Let_def)
  obtain fro onleft where "page_split_point st ai fro onleft \<in> set ps" "legal (page_split_point st ai fro onleft)"
    using ex unfolding R(2) by blast
  then have "fs_splits (findsplitloc_record ai st) \<noteq> []" unfolding R(1) by (auto simp: filter_empty_conv)
  from findsplitloc_key [OF refl this [unfolded st], of rel ff] show ?thesis by (metis prod.exhaust)
qed
section \<open>Properties\<close>

definition usable_space :: nat where
  "usable_space = BLCKSZ - SizeOfPageHeaderData - MAXALIGN sizeof_ABTPageOpaqueData"

lemma usable_space: "usable_space = 8144"
  by (simp add: usable_space_def size_defs MAXALIGN_def)

lemma no_room: "PageGetFreeSpace page < sz \<Longrightarrow> PageGetExactFreeSpace page < sz + 4"
  by (auto simp: PageGetFreeSpace_def PageGetExactFreeSpace_def Let_def sizeof_ItemIdData_def split: if_splits)

text \<open>Three large tuples that fill a leaf page.\<close>

definition ex_big :: "Datum \<Rightarrow> OffsetNumber \<Rightarrow> IndexTupleData" where
  "ex_big a off = (ex_row a (Some 1) off)\<lparr>t_info := 2688\<rparr>"

definition ex_full :: PageData where
  "ex_full = ex_leaf\<lparr>pd_linp := map (\<lambda>t. \<lparr>lp_dead = False, lp_len = IndexTupleSize t, pi_tup = t\<rparr>)
     [ex_big 1 1, ex_big 2 1, ex_big 4 1]\<rparr>"

lemma findsplitloc_fits_leaf:
  assumes "page_fits page" "small_agg agg_info" "ABT_P_ISLEAF (pd_special page)" "items_ok agg_info page"
    and "f = ABT_P_FIRSTDATAKEY (pd_special page)" "f \<le> newitemoff" "newitemoff \<le> PageGetMaxOffsetNumber page + 1"
    and "\<not> ABTreeTupleIsPosting newitem" "newitemsz = MAXALIGN (IndexTupleSize newitem)"
      "extra_space_for_nonpivot_tuple agg_info \<le> IndexTupleSize newitem"
    and "PageGetFreeSpace page < newitemsz"
    and "abt_findsplitloc rel leaffillfactor page newitemoff newitemsz newitem agg_info = Some (fro, onleft)"
  shows "f \<le> fro \<and> (if onleft then newitemoff \<le> fro \<and> fro \<le> PageGetMaxOffsetNumber page else fro \<le> newitemoff)
    \<and> (f < fro \<or> onleft)
    \<and> item_sum page f fro + (if onleft then newitemsz + sizeof_ItemIdData else 0)
        + (key_size agg_info (first_right page newitemoff newitem fro onleft) + MAXALIGN sizeof_ItemPointerData + sizeof_ItemIdData)
        \<le> usable_space
    \<and> item_sum page 1 f + item_sum page fro (PageGetMaxOffsetNumber page + 1)
        + (if onleft then 0 else newitemsz + sizeof_ItemIdData) \<le> usable_space"
proof -
  let ?m = "PageGetMaxOffsetNumber page"
  define st where "st = findsplitloc_init page newitemoff newitemsz newitem"
  have off: "newitemoff \<le> Suc ?m" "ABT_P_FIRSTDATAKEY (pd_special page) \<le> Suc ?m" using assms(5-7) by simp_all
  have sz: "newitemsz \<le> 8192"
    unfolding assms(9) using MAXALIGN_mono [OF IndexTupleSize_le [of newitem]] by (simp add: MAXALIGN_def)
  note I = init_state [OF assms(1) off(2) sz st_def, folded assms(5)]
  note F = fits_lemma [OF assms(1,2) sz assms(5,6) off(1) st_def assms(12)]
  have v: "f \<le> fro" "if onleft then newitemoff \<le> fro \<and> fro \<le> ?m else fro \<le> newitemoff"
    using F(1) by (simp_all add: valid_split_def assms(5))
  then have fm: "fro \<le> Suc ?m" using off(1) by (auto split: if_splits)
  have leaf: "fs_is_leaf st" using I(9) assms(3) by simp
  have h: "int (key_size agg_info (first_right page newitemoff newitem fro onleft)) + 12 \<le> hikey_space st agg_info fro onleft (item_space page fro)"
    by (rule hikey_space_leaf [OF leaf I(5,6,7) assms(4) F(1) off(1) assms(8-10)])
  have l: "int (item_sum page f fro) + (if onleft then int newitemsz + 4 else 0) + hikey_space st agg_info fro onleft (item_space page fro) \<le> 8144"
    using F(2) I(4,5,7) by (simp add: legal_def page_split_point_def split_point_def Let_def assms(5) [symmetric] split: if_splits)
  have T: "item_sum page f (Suc ?m) = item_sum page f fro + item_sum page fro (Suc ?m)" by (rule item_sum_split [OF v(1) fm])
  have r: "item_sum page fro (Suc ?m) + (if onleft then 0 else newitemsz + 4) \<le> item_sum page f (Suc ?m) + PageGetExactFreeSpace page"
    using F(2) I(2,3,5,7) leaf T by (simp add: legal_def page_split_point_def split_point_def Let_def assms(5) [symmetric] split: if_splits)
  have f1: "1 \<le> f" by (simp add: assms(5) FIRSTDATAKEY_cases)
  have "item_sum page 1 (Suc ?m) = item_sum page 1 f + item_sum page f (Suc ?m)"
    by (rule item_sum_split [OF f1]) (use off assms(5) in simp)
  then have R: "item_sum page 1 f + item_sum page fro (Suc ?m) + (if onleft then 0 else newitemsz + 4) \<le> 8144"
    using r page_space [OF assms(1)] by linarith
  have ne: "f < fro \<or> onleft"
  proof (rule ccontr)
    assume "\<not> (f < fro \<or> onleft)"
    then have "fro = f" "\<not> onleft" using v(1) by simp_all
    then show False using r no_room [OF assms(11)] by simp
  qed
  have L: "item_sum page f fro + (if onleft then newitemsz + 4 else 0)
      + (key_size agg_info (first_right page newitemoff newitem fro onleft) + 8 + 4) \<le> 8144"
    using l h by (simp split: if_splits)
  have m: "MAXALIGN sizeof_ItemPointerData = 8" "sizeof_ItemIdData = 4" by (simp_all add: MAXALIGN_def sizeof_ItemPointerData_def sizeof_ItemIdData_def)
  show ?thesis unfolding usable_space m using v ne L R by simp
qed

text \<open>C20. Every split point that is chosen for a leaf page without room for the new item, whose line
  pointers have the lengths of their tuples, leaves both halves within a page: the items to
  its left, the new item if it goes there, and the largest high key that truncation can make of the
  first right tuple fit on the left page; the old high key, the other items and the new item fit on the
  right page. At least one item remains on each side.\<close>

theorem abt_findsplitloc_fits:
  assumes "page_fits page" "small_agg agg_info" "ABT_P_ISLEAF (pd_special page)" "items_ok agg_info page"
    and "f = ABT_P_FIRSTDATAKEY (pd_special page)" "f \<le> newitemoff" "newitemoff \<le> PageGetMaxOffsetNumber page + 1"
    and "\<not> ABTreeTupleIsPosting newitem" "newitemsz = MAXALIGN (IndexTupleSize newitem)"
      "extra_space_for_nonpivot_tuple agg_info \<le> IndexTupleSize newitem"
    and "PageGetFreeSpace page < newitemsz"
    and "abt_findsplitloc rel leaffillfactor page newitemoff newitemsz newitem agg_info = Some (fro, onleft)"
  shows "f \<le> fro \<and> (if onleft then newitemoff \<le> fro \<and> fro \<le> PageGetMaxOffsetNumber page else fro \<le> newitemoff)
    \<and> (f < fro \<or> onleft)
    \<and> item_sum page f fro + (if onleft then newitemsz + sizeof_ItemIdData else 0)
        + (key_size agg_info (first_right page newitemoff newitem fro onleft) + MAXALIGN sizeof_ItemPointerData + sizeof_ItemIdData)
        \<le> usable_space
    \<and> item_sum page 1 f + item_sum page fro (PageGetMaxOffsetNumber page + 1)
        + (if onleft then 0 else newitemsz + sizeof_ItemIdData) \<le> usable_space"
  by (rule findsplitloc_fits_leaf [OF assms])

lemma ex_full_ok: "page_fits ex_full" "ABT_P_ISLEAF (pd_special ex_full)"
  "ABT_P_FIRSTDATAKEY (pd_special ex_full) = 1" "PageGetMaxOffsetNumber ex_full = 3" "PageGetFreeSpace ex_full < 2688"
  by code_simp+

lemma ex_full_items: "off \<in> {1..3} \<Longrightarrow> \<exists>k. PageGetItemId ex_full off = \<lparr>lp_dead = False, lp_len = IndexTupleSize (ex_big k 1), pi_tup = ex_big k 1\<rparr>"
  by (auto simp: ex_full_def PageGetItemId_def atLeastAtMost_iff le_Suc_eq numeral_3_eq_3 numeral_2_eq_2)

lemma ex_big_ok: "\<not> ABTreeTupleIsPosting (ex_big k 1)" "IndexTupleSize (ex_big k 1) = 2688" "MAXALIGN 2688 = 2688"
  by (simp_all add: ex_big_def ABTreeTupleIsPosting_def IndexTupleSize_def INDEX_SIZE_MASK_def ABT_INDEX_ALT_TID_MASK_def MAXALIGN_def)

text \<open>The page of the example can be split.\<close>

lemma ex_full_split:
  assumes "small_agg ai"
  shows "\<exists>fro onleft. abt_findsplitloc ex_rel 90 ex_full 3 2688 (ex_big 3 1) ai = Some (fro, onleft)"
proof (rule findsplitloc_total [OF ex_full_ok(1) assms _ refl _ _ refl])
  show "\<exists>fro onleft. valid_split ex_full 3 fro onleft
      \<and> legal (page_split_point (findsplitloc_init ex_full 3 2688 (ex_big 3 1)) ai fro onleft)"
  proof (rule feasible_point [OF ex_full_ok(1) assms _ refl refl _ _ _ _ _ _ _ refl, where A = 2692])
    show "item_space ex_full off \<le> 2692" if "off \<in> {1..PageGetMaxOffsetNumber ex_full}" for off
      using ex_full_items [of off] that unfolding ex_full_ok(4) by (auto simp: item_space_def ex_big_ok sizeof_ItemIdData_def)
    show "PageGetExactFreeSpace ex_full < 2688 + 4" by (rule no_room [OF ex_full_ok(5)])
  qed (use ex_full_ok in simp_all)
qed (use ex_full_ok in simp_all)

theorem abt_findsplitloc_fits_witness:
  "\<exists>fro onleft. abt_findsplitloc ex_rel 90 ex_full 3 2688 (ex_big 3 1) ex_agg_info = Some (fro, onleft)
    \<and> item_sum ex_full 1 fro + (if onleft then 2692 else 0) \<le> usable_space"
proof -
  have agg: "small_agg ex_agg_info" "extra_space_for_nonpivot_tuple ex_agg_info \<le> 2688"
    by (simp_all add: small_agg_def ex_agg_info_def)
  obtain fro onleft where r: "abt_findsplitloc ex_rel 90 ex_full 3 2688 (ex_big 3 1) ex_agg_info = Some (fro, onleft)"
    using ex_full_split [OF agg(1)] by blast
  have ok: "items_ok ex_agg_info ex_full"
    unfolding items_ok_def ex_full_ok(3,4) PageGetItem_def
    by (rule ballI, drule ex_full_items) (auto simp: key_size_def ex_big_ok)
  have "2688 = MAXALIGN (IndexTupleSize (ex_big 3 1))" "extra_space_for_nonpivot_tuple ex_agg_info \<le> IndexTupleSize (ex_big 3 1)"
    using agg(2) by (simp_all add: ex_big_ok)
  from abt_findsplitloc_fits [OF ex_full_ok(1) agg(1) ex_full_ok(2) ok ex_full_ok(3) [symmetric] _ _ ex_big_ok(1) this ex_full_ok(5) r]
  show ?thesis using r ex_full_ok(4) by (auto simp: sizeof_ItemIdData_def)
qed



end
