(* ===== verification/Spec2Isabelle.thy ===== *)
theory Spec2Isabelle
  imports Walker Dedup_Space Xlog Version_Chain Sampling Split_Loc
begin

text \<open>
  A verification library for pgAQP: the aggregate B-tree index of PostgreSQL that supports weighted
  random sampling (\<^verbatim>\<open>src/pg13_abtree/src/backend/access/abtree\<close>) and the alias structure of the
  sampling operators.

  \<^bold>\<open>Parts and theories.\<close>

  \<^item> \<open>Prelude\<close>: truncation of machine integers, words, lists and sums.
  \<^item> \<open>Walker\<close>: \<^verbatim>\<open>utils/walker.c\<close> and \<^verbatim>\<open>walker.h\<close>, the alias structure for drawing an item with
    probability proportional to its weight.
  \<^item> \<open>Tuple\<close>: the index tuple format of \<^verbatim>\<open>access/abtree.h\<close> (header bits, pivot and posting list
    tuples, byte offsets of aggregation value, xmin and last-update id).
  \<^item> \<open>Page\<close>: the page routines of \<^verbatim>\<open>storage/page/bufpage.c\<close> that the index calls.
  \<^item> \<open>Posting\<close>: posting list tuples (\<^verbatim>\<open>abtdedup.c\<close>), forming, shrinking, splitting and validating.
  \<^item> \<open>Dedup\<close> and \<open>Dedup_Space\<close>: deduplication of a leaf page, its contents and its space.
  \<^item> \<open>Xlog\<close>: the log records of deduplication, vacuum and deletion and their replay.

  \<^item> \<open>Snapshot\<close>: the circular order of transaction ids, the snapshot that sampling prepares
    (\<^verbatim>\<open>abtversionstore.c\<close>) and its visibility test, compared with \<^verbatim>\<open>XidInMVCCSnapshot\<close>.
  \<^item> \<open>Agg\<close>: accumulation of aggregation values over tuples and pages (\<^verbatim>\<open>abtutils.c\<close>) with the integer
    operators of the supported types.
  \<^item> \<open>Qsort\<close>: the sort routine of the server (\<^verbatim>\<open>port/qsort.c\<close>).
  \<^item> \<open>Version_Store\<close> and \<open>Version_Chain\<close>: the version chains of \<^verbatim>\<open>abtversionstore.c\<close>, their reconstruction
    for a page with a heap, the step of \<^verbatim>\<open>_abt_fix_path_aggregation_itup\<close> that changes one downlink,
    garbage collection, and what a snapshot reads after each of them.
  \<^item> \<open>Search\<close> and \<open>Descend\<close>: insertion scan keys, their comparison with tuples, the binary searches of a
    page and of a posting list, and the descent of the tree with its moves to the right
    (\<^verbatim>\<open>abtsearch.c\<close>, \<^verbatim>\<open>_abt_mkscankey\<close> of \<^verbatim>\<open>abtutils.c\<close>, \<^verbatim>\<open>nbtcompare.c\<close>).
  \<^item> \<open>Sampling\<close>: one draw of \<^verbatim>\<open>_abt_sample_extended\<close> and \<^verbatim>\<open>_abt_total_weight\<close>. A draw follows the quick
    path while one downlink overlaps the range, chooses among the items of the first page with more,
    and descends with the rest of the cutoff. The lemmas show which item every cutoff selects, that
    the probability is proportional to the weight, and what is recorded as inverse probability.

  \<^bold>\<open>Representation.\<close> Header fields are machine words of their width; sizes, counters and array
  indexes are natural numbers truncated by \<open>u16\<close>, \<open>u32\<close>, \<open>u64\<close> or \<open>sub64\<close> where the C type can wrap. The
  variable-length part of a tuple is the list of its attributes and, for leaf tuples, the lists of
  heap TIDs, aggregation values and xmins; the byte offsets at which the code stores them are
  computed separately and shown not to overlap. A page is its list of line pointers with their
  tuples and its special space. \<open>None\<close> stands for \<^verbatim>\<open>elog(ERROR)\<close>, \<^verbatim>\<open>PANIC\<close> and for the use of a null
  pointer.
\<close>

end
